(* ===== verification/Prelude.thy ===== *)
theory Prelude
  imports Main
begin

text \<open>
  Facts and types every component shares.

  \<^item> \<open>outcome\<close>: what running a piece of the C++ program can end in.  A value, undefined
    behaviour or a failed \<open>assert\<close> (\<open>Fault\<close>, with the reason), or an exhausted step budget
    (\<open>OutOfFuel\<close>, only produced by interpreters that take a fuel argument).
  \<^item> \<open>int64_add\<close>: signed 64 bit addition, whose overflow is undefined behaviour in C++.
  \<^item> list facts about FIFO queues and round-robin indexes.
  \<^item> the rule collection \<open>outcome_simps\<close> that unfolds the sequencing of outcomes.
\<close>

named_theorems outcome_simps \<open>sequencing of outcomes\<close>

section \<open>Outcomes\<close>

datatype fault =
    ResumeInvalid nat     \<comment> \<open>\<open>resume()\<close> on a destroyed, running or finished coroutine\<close>
  | UseAfterDestroy nat   \<comment> \<open>a handle or promise read after \<open>destroy()\<close>\<close>
  | AssertFailed          \<comment> \<open>an \<open>assert\<close> of the source is false\<close>
  | NullExecutor          \<comment> \<open>a null \<open>executor\<close> pointer is dereferenced\<close>
  | BadVariantAccess      \<comment> \<open>\<open>std::get\<close> of the alternative a variant does not hold\<close>
  | SignedOverflow
  | DivisionByZero

datatype 'a outcome = Ok 'a | Fault fault | OutOfFuel

fun obind :: "'a outcome \<Rightarrow> ('a \<Rightarrow> 'b outcome) \<Rightarrow> 'b outcome" where
  "obind (Ok x) f = f x"
| "obind (Fault e) f = Fault e"
| "obind OutOfFuel f = OutOfFuel"

declare obind.simps [outcome_simps]

lemma obind_eq_Ok_iff: "obind m f = Ok y \<longleftrightarrow> (\<exists>x. m = Ok x \<and> f x = Ok y)"
  by (cases m) auto

lemma obind_not_OutOfFuel:
  "obind m f \<noteq> OutOfFuel \<longleftrightarrow> m \<noteq> OutOfFuel \<and> (\<forall>x. m = Ok x \<longrightarrow> f x \<noteq> OutOfFuel)"
  by (cases m) auto

lemma obind_assoc: "obind (obind m f) g = obind m (\<lambda>x. obind (f x) g)"
  by (cases m) auto

text \<open>Applying a function to the value of an outcome.\<close>

fun omap :: "('a \<Rightarrow> 'b) \<Rightarrow> 'a outcome \<Rightarrow> 'b outcome" where
  "omap g (Ok x) = Ok (g x)"
| "omap g (Fault e) = Fault e"
| "omap g OutOfFuel = OutOfFuel"

lemma omap_obind: "omap g (obind m f) = obind m (\<lambda>x. omap g (f x))"
  by (cases m) auto

lemma obind_omap: "obind (omap g m) f = obind m (\<lambda>x. f (g x))"
  by (cases m) auto

lemma omap_eq_Ok_iff: "omap g m = Ok y \<longleftrightarrow> (\<exists>x. m = Ok x \<and> y = g x)"
  by (cases m) auto

section \<open>Signed 64 bit integers\<close>

definition int64 :: "int \<Rightarrow> bool" where
  "int64 x \<longleftrightarrow> - (2 ^ 63) \<le> x \<and> x < 2 ^ 63"

definition int64_add :: "int \<Rightarrow> int \<Rightarrow> int outcome" where
  "int64_add x y = (if int64 (x + y) then Ok (x + y) else Fault SignedOverflow)"

lemma int64_add_Ok [simp]: "int64 (x + y) \<Longrightarrow> int64_add x y = Ok (x + y)"
  by (simp add: int64_add_def)

lemma int64_add_OkD: "int64_add x y = Ok z \<Longrightarrow> z = x + y \<and> int64 z"
  by (simp add: int64_add_def split: if_splits)

lemma int64_small: "0 \<le> x \<Longrightarrow> x \<le> 2 ^ 62 \<Longrightarrow> int64 x"
  by (simp add: int64_def)

section \<open>Decimal output\<close>

text \<open>What \<open>operator<<\<close> of a stream prints for an integer.\<close>

definition digit :: "nat \<Rightarrow> char" where
  "digit d = char_of (48 + d)"

fun show_nat :: "nat \<Rightarrow> string" where
  "show_nat n = (if n < 10 then [digit n] else show_nat (n div 10) @ [digit (n mod 10)])"

declare show_nat.simps [simp del]

definition show_int :: "int \<Rightarrow> string" where
  "show_int i = (if i < 0 then CHR ''-'' # show_nat (nat (- i)) else show_nat (nat i))"

lemma show_nat_length: "n < 1000 \<Longrightarrow> length (show_nat n) \<le> 3"
  by (simp add: show_nat.simps [of n] show_nat.simps [of "n div 10"] show_nat.simps [of "n div 10 div 10"])

section \<open>Round robin\<close>

text \<open>
  A counter that is read modulo the number \<open>n\<close> of targets visits each target equally often:
  in any window of \<open>n\<close> consecutive values every residue occurs exactly once.
\<close>

lemma residue_window:
  assumes "0 < (n::nat)"
  shows "(\<lambda>i. i mod n) ` {a..<a + n} = {..<n}"
proof
  show "(\<lambda>i. i mod n) ` {a..<a + n} \<subseteq> {..<n}" using assms by auto
  show "{..<n} \<subseteq> (\<lambda>i. i mod n) ` {a..<a + n}"
  proof
    fix r assume r: "r \<in> {..<n}"
    define i where "i = (if a mod n \<le> r then a + (r - a mod n) else a + (n + r - a mod n))"
    have am: "a mod n < n" using assms by simp
    have "i \<in> {a..<a + n}" using r am by (auto simp: i_def)
    moreover have "i mod n = r"
    proof (cases "a mod n \<le> r")
      case True
      have "i = a + (r - a mod n)" using True by (simp add: i_def)
      moreover have "(a div n) * n + a mod n = a" by (rule div_mult_mod_eq)
      ultimately have "i = (a div n) * n + r" using True by linarith
      with r show ?thesis by simp
    next
      case False
      have "i = a + (n + r - a mod n)" using False by (simp add: i_def)
      moreover have "(a div n) * n + a mod n = a" by (rule div_mult_mod_eq)
      ultimately have "i = (a div n) * n + n + r" using False am by linarith
      then have "i = (a div n + 1) * n + r" by simp
      with r show ?thesis by (metis lessThan_iff mod_less mod_mult_self3)
    qed
    ultimately show "r \<in> (\<lambda>i. i mod n) ` {a..<a + n}" by blast
  qed
qed

lemma inj_on_residue_window:
  assumes "0 < (n::nat)"
  shows "inj_on (\<lambda>i. i mod n) {a..<a + n}"
  by (rule eq_card_imp_inj_on) (simp_all add: residue_window [OF assms])

text \<open>Over any number of consecutive values no residue occurs more than once more than another.\<close>

lemma count_list_distinct: "distinct xs \<Longrightarrow> count_list xs x = (if x \<in> set xs then 1 else 0)"
  by (induction xs) auto

lemma count_residues:
  assumes "i < (n::nat)"
  shows "count_list (map (\<lambda>j. j mod n) [a..<a + m]) i \<in> {m div n, m div n + 1}"
proof (induction m arbitrary: a rule: less_induct)
  case (less m)
  from assms have n: "0 < n" by simp
  show ?case
  proof (cases "m < n")
    case True
    have "inj_on (\<lambda>j. j mod n) {a..<a + m}"
      by (rule inj_on_subset [OF inj_on_residue_window [OF n, of a]]) (use True in auto)
    then have "distinct (map (\<lambda>j. j mod n) [a..<a + m])" by (simp add: distinct_map)
    from count_list_distinct [OF this, of i] True show ?thesis by simp
  next
    case False
    have "distinct (map (\<lambda>j. j mod n) [a..<a + n])"
      using inj_on_residue_window [OF n] by (simp add: distinct_map)
    moreover have "i \<in> set (map (\<lambda>j. j mod n) [a..<a + n])"
      unfolding set_map set_upt residue_window [OF n] using assms by simp
    ultimately have one: "count_list (map (\<lambda>j. j mod n) [a..<a + n]) i = 1"
      by (simp only: count_list_distinct if_True)
    have "[a..<a + m] = [a..<a + n] @ [a + n..<a + n + (m - n)]"
      using upt_add_eq_append [of a "a + n" "m - n"] False by simp
    moreover have "m div n = Suc ((m - n) div n)" using False n by (simp add: le_div_geq)
    ultimately show ?thesis using less [of "m - n" "a + n"] one False n by auto
  qed
qed

end
