(* ===== verification/AsyncLib.thy ===== *)
theory AsyncLib
  imports Prelude
begin

text \<open>
  The coroutine library \<^verbatim>\<open>async_lib/async_lib.hpp\<close>.

  A coroutine frame is a cell of a heap, named by its address (\<open>hdl\<close>: the
  \<^verbatim>\<open>coroutine_handle\<close> and the promise pointer of the source name the same frame).  The
  body of a coroutine is given by its program points: \<open>'p\<close> is the type of points (with the
  locals the frame keeps), and \<open>fetch\<close> says what the body does next at a point, in the
  vocabulary of the library (\<open>co_return\<close>, \<open>co_await\<close> of a task, of \<open>StartSubroutine\<close>, of
  \<open>SpawnCrossTask\<close> or of a suspending awaitable, \<open>Spawn\<close>, or an ordinary step on shared
  state).  \<open>run\<close>, \<open>resume_handle\<close>, \<open>Resume\<close> and the awaiters are mutually recursive, as in
  the source: starting a task runs it at once, on the caller's stack.
\<close>

type_synonym hdl = nat
type_synonym exec = nat

section \<open>Task objects\<close>

text \<open>\<open>Task\<close> holds the promise of a coroutine it owns, or null.\<close>

type_synonym task = "hdl option"

definition Task_default :: task where
  "Task_default = None"

definition Task_of_promise :: "hdl \<Rightarrow> task" where
  "Task_of_promise p = Some p"

text \<open>Move construction: the new task takes the promise, the other one is left null.\<close>

definition Task_move :: "task \<Rightarrow> task \<times> task" where
  "Task_move other = (other, None)"

text \<open>Move assignment swaps.\<close>

definition Task_assign :: "task \<Rightarrow> task \<Rightarrow> task \<times> task" where
  "Task_assign this other = (other, this)"

definition Task_bool :: "task \<Rightarrow> bool" where
  "Task_bool t \<longleftrightarrow> t \<noteq> None"

text \<open>\<open>~Task\<close> asserts that the task was consumed.\<close>

definition Task_destroy :: "task \<Rightarrow> unit outcome" where
  "Task_destroy t = (if t = None then Ok () else Fault AssertFailed)"

section \<open>What a coroutine body does\<close>

text \<open>
  The continuation of a \<open>co_await\<close> of a task: \<open>KVoid\<close> for a \<open>Task<void>\<close>, \<open>KVal\<close> for a
  \<open>Task<T>\<close>, whose continuation takes the value.
\<close>

datatype ('p, 'v) kont = KVoid 'p | KVal "'v \<Rightarrow> 'p"

datatype ('p, 'op, 'r, 'v, 's) action =
    CoStep "'s \<Rightarrow> 's \<times> 'p"                  \<comment> \<open>ordinary code, up to the next point\<close>
  | CoFault fault                            \<comment> \<open>ordinary code whose behaviour is undefined\<close>
  | CoReturn 'v                              \<comment> \<open>\<open>co_return v\<close>\<close>
  | CoReturnVoid                             \<comment> \<open>\<open>co_return\<close>, or the end of the body\<close>
  | CoThrow                                  \<comment> \<open>an exception leaves the body\<close>
  | CoAwait 'p "('p, 'v) kont"               \<comment> \<open>\<open>co_await f()\<close>, \<open>f\<close> a coroutine\<close>
  | CoAwaitTask hdl "('p, 'v) kont"          \<comment> \<open>\<open>co_await std::move(task)\<close>\<close>
  | CoStart 'p "hdl \<Rightarrow> 'p"                   \<comment> \<open>\<open>co_await StartSubroutine(f())\<close>\<close>
  | CoSuspend 'op "'r \<Rightarrow> 'p"                 \<comment> \<open>\<open>co_await\<close> of an awaitable that registers the job\<close>
  | CoSpawn exec 'p 'p                       \<comment> \<open>\<open>async_lib::Spawn(executor, f())\<close>\<close>
  | CoCross exec 'p "('p, 'v) kont"          \<comment> \<open>\<open>co_await SpawnCrossTask(executor, f())\<close>\<close>
  | CoNotify hdl "'v option" 'p              \<comment> \<open>the end of \<open>LaunchChild\<close>\<close>

text \<open>
  The points of the library's own coroutine, \<open>SpawnCrossTask::LaunchChild\<close>, beside the points
  of the program's coroutines.  \<open>LaunchChild p c void\<close> awaits the child \<open>c\<close> for the parent
  \<open>p\<close>; \<open>Launched p v\<close> stores the result in the parent's awaiter and spawns the parent.
\<close>

datatype ('pc, 'v) point =
    Body 'pc
  | LaunchChild hdl hdl bool
  | Launched hdl "'v option"
  | LaunchEnd

text \<open>
  How the executor of a job spawns it: \<open>CompletionQueueExecutor::Spawn\<close> resumes the job at
  once, \<open>async_game::Executor::Spawn\<close> appends it to \<open>m_ready\<close>.
\<close>

datatype spawn_mode = Immediate | Deferred

record ('pc, 'op, 'r, 'v, 's) prog =
  code :: "'pc \<Rightarrow> ('pc, 'op, 'r, 'v, 's) action"
  mode :: "exec \<Rightarrow> spawn_mode"

fun fetch :: "('pc, 'op, 'r, 'v, 's) prog \<Rightarrow> ('pc, 'v) point
    \<Rightarrow> (('pc, 'v) point, 'op, 'r, 'v, 's) action" where
  "fetch P (Body pc) = map_action Body id (code P pc)"
| "fetch P (LaunchChild p c void) =
     CoAwaitTask c (if void then KVoid (Launched p None) else KVal (\<lambda>v. Launched p (Some v)))"
| "fetch P (Launched p v) = CoNotify p v LaunchEnd"
| "fetch P LaunchEnd = CoReturnVoid"

section \<open>Frames and the world\<close>

text \<open>
  Where a coroutine stands.  A suspended one keeps its awaiter, with what \<open>await_resume\<close> will
  read: the awaited frame (\<open>AwTask\<close>), the completion of an operation once it was delivered
  (\<open>AwOp\<close>), or \<open>m_result\<close> of a \<open>SpawnCrossTask\<close> (\<open>AwCross\<close>).
\<close>

datatype ('p, 'r, 'v) suspension =
    Initial 'p
  | Running
  | AwTask hdl "('p, 'v) kont"
  | AwOp "'r option" "'r \<Rightarrow> 'p"
  | AwCross "'v option" "('p, 'v) kont"
  | is_Final: Final

record ('p, 'r, 'v) frame =
  status :: "('p, 'r, 'v) suspension"
  result :: "'v option"
  destroyOnDone :: bool
  executor :: "exec option"
  parent :: "hdl option"

datatype 'op event = Submitted hdl 'op | Destroyed hdl | MarkedReady exec hdl

record ('p, 'op, 'r, 'v, 's) world =
  heap :: "hdl \<Rightarrow> ('p, 'r, 'v) frame option"
  fresh :: hdl
  ready :: "exec \<Rightarrow> hdl list"
  shared :: 's
  events :: "'op event list"

definition new_frame :: "'p \<Rightarrow> ('p, 'r, 'v) frame" where
  "new_frame p = \<lparr>status = Initial p, result = None, destroyOnDone = False,
     executor = None, parent = None\<rparr>"

text \<open>Calling a coroutine function allocates a frame suspended at its start.\<close>

definition allocate :: "'p \<Rightarrow> ('p, 'op, 'r, 'v, 's) world \<Rightarrow> hdl \<times> ('p, 'op, 'r, 'v, 's) world" where
  "allocate p w = (fresh w,
     w\<lparr>heap := (heap w)(fresh w \<mapsto> new_frame p), fresh := Suc (fresh w)\<rparr>)"

definition on_frame :: "hdl \<Rightarrow> (('p, 'r, 'v) frame \<Rightarrow> ('p, 'r, 'v) frame)
    \<Rightarrow> ('p, 'op, 'r, 'v, 's) world \<Rightarrow> ('p, 'op, 'r, 'v, 's) world" where
  "on_frame h f w = w\<lparr>heap := (heap w)(h := map_option f (heap w h))\<rparr>"

definition set_status :: "hdl \<Rightarrow> ('p, 'r, 'v) suspension
    \<Rightarrow> ('p, 'op, 'r, 'v, 's) world \<Rightarrow> ('p, 'op, 'r, 'v, 's) world" where
  "set_status h st = on_frame h (\<lambda>f. f\<lparr>status := st\<rparr>)"

definition destroy :: "hdl \<Rightarrow> ('p, 'op, 'r, 'v, 's) world \<Rightarrow> ('p, 'op, 'r, 'v, 's) world" where
  "destroy h w = w\<lparr>heap := (heap w)(h := None), events := events w @ [Destroyed h]\<rparr>"

definition mark_ready :: "exec \<Rightarrow> hdl \<Rightarrow> ('p, 'op, 'r, 'v, 's) world \<Rightarrow> ('p, 'op, 'r, 'v, 's) world" where
  "mark_ready e h w = w\<lparr>ready := (ready w)(e := ready w e @ [h]),
     events := events w @ [MarkedReady e h]\<rparr>"

text \<open>
  \<open>return_value\<close>, \<open>return_void\<close> and \<open>unhandled_exception\<close> all lead to \<open>final_suspend\<close>; only
  the first sets \<open>result\<close>.
\<close>

definition finish :: "hdl \<Rightarrow> 'v option \<Rightarrow> ('p, 'op, 'r, 'v, 's) world \<Rightarrow> ('p, 'op, 'r, 'v, 's) world" where
  "finish h v = on_frame h (\<lambda>f. f\<lparr>status := Final, result := (if v = None then result f else v)\<rparr>)"

text \<open>
  \<open>await_resume\<close> of a \<open>Task<T>\<close> and of a \<open>SpawnCrossTask\<close> asserts that there is a result,
  unless \<open>T\<close> is \<open>void\<close>.
\<close>

fun apply_kont :: "('p, 'v) kont \<Rightarrow> 'v option \<Rightarrow> 'p outcome" where
  "apply_kont (KVoid p) v = Ok p"
| "apply_kont (KVal k) (Some v) = Ok (k v)"
| "apply_kont (KVal k) None = Fault AssertFailed"

definition is_done :: "hdl \<Rightarrow> ('p, 'op, 'r, 'v, 's) world \<Rightarrow> bool outcome" where
  "is_done h w = (case heap w h of None \<Rightarrow> Fault (UseAfterDestroy h)
     | Some f \<Rightarrow> Ok (is_Final (status f)))"

text \<open>
  \<open>TaskAwait::await_resume\<close> and then \<open>~TaskAwait\<close> of a finished child: its result goes to
  the continuation, its frame is destroyed.
\<close>

definition take_result :: "hdl \<Rightarrow> ('p, 'v) kont \<Rightarrow> ('p, 'op, 'r, 'v, 's) world
    \<Rightarrow> ('p \<times> ('p, 'op, 'r, 'v, 's) world) outcome" where
  "take_result c k w = (case heap w c of None \<Rightarrow> Fault (UseAfterDestroy c)
     | Some f \<Rightarrow> obind (apply_kont k (result f)) (\<lambda>p. Ok (p, destroy c w)))"

section \<open>The interpreter\<close>

text \<open>
  The functions that call one another: \<open>run\<close> executes the body of the running coroutine until
  it suspends or finishes, \<open>resume_handle\<close> is \<open>handle.resume()\<close>, \<open>Resume\<close> is
  \<open>async_lib::Resume\<close>, \<open>spawn_job\<close> is the \<open>Spawn\<close> of an executor, \<open>Spawn\<close> is
  \<open>async_lib::Spawn\<close>, and \<open>await_task\<close>, \<open>start_task\<close> and \<open>cross_task\<close> are the awaiters of
  \<open>co_await\<close> of a task, of \<open>StartSubroutine\<close> and of \<open>SpawnCrossTask\<close>.  Each is written over
  \<open>self\<close>, the meaning of the calls it makes; \<open>exec_call\<close> ties the knot, every call spending
  one unit of fuel.
\<close>

datatype ('p, 'v) call =
    CRun hdl 'p
  | CResumeHandle hdl
  | CResume hdl
  | CSpawnJob exec hdl
  | CSpawn exec hdl
  | CAwaitTask hdl hdl "('p, 'v) kont"
  | CStartTask hdl hdl
  | CCrossTask hdl exec hdl "('p, 'v) kont"

type_synonym ('pc, 'op, 'r, 'v, 's) machine =
  "(('pc, 'v) point, 'op, 'r, 'v, 's) world"

type_synonym ('pc, 'op, 'r, 'v, 's) self =
  "(('pc, 'v) point, 'v) call \<Rightarrow> ('pc, 'op, 'r, 'v, 's) machine
    \<Rightarrow> ('pc, 'op, 'r, 'v, 's) machine outcome"

text \<open>
  \<open>LaunchChild\<close> ends with \<open>m_result = \<dots>\<close> (a write into the parent's awaiter) and
  \<open>parent.promise->executor->Spawn(parent)\<close>.
\<close>

definition notify_parent :: "('pc, 'op, 'r, 'v, 's) self \<Rightarrow> hdl \<Rightarrow> 'v option
    \<Rightarrow> ('pc, 'op, 'r, 'v, 's) machine \<Rightarrow> ('pc, 'op, 'r, 'v, 's) machine outcome" where
  "notify_parent self p v w = (case heap w p of
      None \<Rightarrow> Fault (UseAfterDestroy p)
    | Some f \<Rightarrow> (case executor f of
          None \<Rightarrow> Fault NullExecutor
        | Some e \<Rightarrow> (case status f of
              AwCross _ k \<Rightarrow> self (CSpawnJob e p) (set_status p (AwCross v k) w)
            | _ \<Rightarrow> Fault (ResumeInvalid p))))"

definition run_body :: "('pc, 'op, 'r, 'v, 's) prog \<Rightarrow> ('pc, 'op, 'r, 'v, 's) self
    \<Rightarrow> hdl \<Rightarrow> ('pc, 'v) point \<Rightarrow> ('pc, 'op, 'r, 'v, 's) machine
    \<Rightarrow> ('pc, 'op, 'r, 'v, 's) machine outcome" where
  "run_body P self h pt w = (case fetch P pt of
      CoStep f \<Rightarrow> (case f (shared w) of (s', pt') \<Rightarrow> self (CRun h pt') (w\<lparr>shared := s'\<rparr>))
    | CoFault e \<Rightarrow> Fault e
    | CoReturn v \<Rightarrow> Ok (finish h (Some v) w)
    | CoReturnVoid \<Rightarrow> Ok (finish h None w)
    | CoThrow \<Rightarrow> Ok (finish h None w)
    | CoAwait p k \<Rightarrow> (case allocate p w of (c, w1) \<Rightarrow> self (CAwaitTask h c k) w1)
    | CoAwaitTask c k \<Rightarrow> self (CAwaitTask h c k) w
    | CoStart p k \<Rightarrow> (case allocate p w of (c, w1) \<Rightarrow>
        obind (self (CStartTask h c) w1) (self (CRun h (k c))))
    | CoSuspend op k \<Rightarrow> Ok ((set_status h (AwOp None k) w)\<lparr>events := events w @ [Submitted h op]\<rparr>)
    | CoSpawn e p pt' \<Rightarrow> (case allocate p w of (c, w1) \<Rightarrow>
        obind (self (CSpawn e c) w1) (self (CRun h pt')))
    | CoCross e p k \<Rightarrow> (case allocate p w of (c, w1) \<Rightarrow> self (CCrossTask h e c k) w1)
    | CoNotify p v pt' \<Rightarrow> obind (notify_parent self p v w) (self (CRun h pt')))"

definition resume_handle_body :: "('pc, 'op, 'r, 'v, 's) self \<Rightarrow> hdl
    \<Rightarrow> ('pc, 'op, 'r, 'v, 's) machine \<Rightarrow> ('pc, 'op, 'r, 'v, 's) machine outcome" where
  "resume_handle_body self h w = (case heap w h of
      None \<Rightarrow> Fault (UseAfterDestroy h)
    | Some f \<Rightarrow> (case status f of
          Initial pt \<Rightarrow> self (CRun h pt) (set_status h Running w)
        | AwTask c k \<Rightarrow> obind (is_done c w) (\<lambda>d. if d
            then obind (take_result c k w) (\<lambda>(pt, w1). self (CRun h pt) (set_status h Running w1))
            else Fault (ResumeInvalid h))
        | AwOp r k \<Rightarrow> (case r of None \<Rightarrow> Fault (ResumeInvalid h)
            | Some x \<Rightarrow> self (CRun h (k x)) (set_status h Running w))
        | AwCross v k \<Rightarrow> obind (apply_kont k v) (\<lambda>pt. self (CRun h pt) (set_status h Running w))
        | Running \<Rightarrow> Fault (ResumeInvalid h)
        | Final \<Rightarrow> Fault (ResumeInvalid h)))"

definition after_resume :: "('pc, 'op, 'r, 'v, 's) self \<Rightarrow> hdl
    \<Rightarrow> ('pc, 'op, 'r, 'v, 's) machine \<Rightarrow> ('pc, 'op, 'r, 'v, 's) machine outcome" where
  "after_resume self h w = (case heap w h of
      None \<Rightarrow> Fault (UseAfterDestroy h)
    | Some f \<Rightarrow> (if is_Final (status f)
        then (let w1 = (if destroyOnDone f then destroy h w else w)
              in case parent f of None \<Rightarrow> Ok w1 | Some p \<Rightarrow> self (CResume p) w1)
        else Ok w))"

definition Resume_body :: "('pc, 'op, 'r, 'v, 's) self \<Rightarrow> hdl
    \<Rightarrow> ('pc, 'op, 'r, 'v, 's) machine \<Rightarrow> ('pc, 'op, 'r, 'v, 's) machine outcome" where
  "Resume_body self h w = obind (self (CResumeHandle h) w) (after_resume self h)"

definition spawn_job_body :: "('pc, 'op, 'r, 'v, 's) prog \<Rightarrow> ('pc, 'op, 'r, 'v, 's) self
    \<Rightarrow> exec \<Rightarrow> hdl \<Rightarrow> ('pc, 'op, 'r, 'v, 's) machine
    \<Rightarrow> ('pc, 'op, 'r, 'v, 's) machine outcome" where
  "spawn_job_body P self e h w = (case mode P e of
      Immediate \<Rightarrow> self (CResume h) w
    | Deferred \<Rightarrow> Ok (mark_ready e h w))"

definition Spawn_body :: "('pc, 'op, 'r, 'v, 's) self \<Rightarrow> exec \<Rightarrow> hdl
    \<Rightarrow> ('pc, 'op, 'r, 'v, 's) machine \<Rightarrow> ('pc, 'op, 'r, 'v, 's) machine outcome" where
  "Spawn_body self e c w =
     self (CSpawnJob e c) (on_frame c (\<lambda>f. f\<lparr>executor := Some e, destroyOnDone := True\<rparr>) w)"

text \<open>
  \<open>TaskAwait\<close>: \<open>await_ready\<close>, then \<open>await_suspend\<close>, which starts a task that was not started
  (on the executor of the awaiting coroutine) and otherwise asserts that both run on the same
  executor; when it returns false, the coroutine goes on with \<open>await_resume\<close>.
\<close>

definition await_task_body :: "('pc, 'op, 'r, 'v, 's) self \<Rightarrow> hdl \<Rightarrow> hdl
    \<Rightarrow> (('pc, 'v) point, 'v) kont \<Rightarrow> ('pc, 'op, 'r, 'v, 's) machine
    \<Rightarrow> ('pc, 'op, 'r, 'v, 's) machine outcome" where
  "await_task_body self h c k w = obind (is_done c w) (\<lambda>await_ready. if await_ready
     then obind (take_result c k w) (\<lambda>(pt, w1). self (CRun h pt) w1)
     else (let w1 = set_status h (AwTask c k) (on_frame c (\<lambda>f. f\<lparr>parent := Some h\<rparr>) w) in
       case heap w1 h of None \<Rightarrow> Fault (UseAfterDestroy h) | Some fh \<Rightarrow>
       (case heap w1 c of None \<Rightarrow> Fault (UseAfterDestroy c) | Some fc \<Rightarrow>
       (if executor fc = None
        then obind (self (CResumeHandle c) (on_frame c (\<lambda>f. f\<lparr>executor := executor fh\<rparr>) w1)) (\<lambda>w2.
             obind (is_done c w2) (\<lambda>d. if d
               then obind (take_result c k w2)
                      (\<lambda>(pt, w3). self (CRun h pt) (set_status h Running w3))
               else Ok w2))
        else if executor fc = executor fh then Ok w1 else Fault AssertFailed))))"

definition start_task_body :: "('pc, 'op, 'r, 'v, 's) self \<Rightarrow> hdl \<Rightarrow> hdl
    \<Rightarrow> ('pc, 'op, 'r, 'v, 's) machine \<Rightarrow> ('pc, 'op, 'r, 'v, 's) machine outcome" where
  "start_task_body self h c w = (case heap w h of None \<Rightarrow> Fault (UseAfterDestroy h)
    | Some f \<Rightarrow> self (CResumeHandle c) (on_frame c (\<lambda>g. g\<lparr>executor := executor f\<rparr>) w))"

text \<open>
  \<open>SpawnCrossTask::await_suspend\<close>: \<open>m_result\<close> is empty, and a \<open>LaunchChild\<close> coroutine is
  spawned on the child's executor.
\<close>

definition cross_task_body :: "('pc, 'op, 'r, 'v, 's) self \<Rightarrow> hdl \<Rightarrow> exec \<Rightarrow> hdl
    \<Rightarrow> (('pc, 'v) point, 'v) kont \<Rightarrow> ('pc, 'op, 'r, 'v, 's) machine
    \<Rightarrow> ('pc, 'op, 'r, 'v, 's) machine outcome" where
  "cross_task_body self h e c k w =
     (case allocate (LaunchChild h c (case k of KVoid _ \<Rightarrow> True | KVal _ \<Rightarrow> False))
             (set_status h (AwCross None k) w) of (l, w1) \<Rightarrow> self (CSpawn e l) w1)"

definition dispatch :: "('pc, 'op, 'r, 'v, 's) prog \<Rightarrow> ('pc, 'op, 'r, 'v, 's) self
    \<Rightarrow> ('pc, 'op, 'r, 'v, 's) self" where
  "dispatch P self c = (case c of
      CRun h pt \<Rightarrow> run_body P self h pt
    | CResumeHandle h \<Rightarrow> resume_handle_body self h
    | CResume h \<Rightarrow> Resume_body self h
    | CSpawnJob e h \<Rightarrow> spawn_job_body P self e h
    | CSpawn e h \<Rightarrow> Spawn_body self e h
    | CAwaitTask h t k \<Rightarrow> await_task_body self h t k
    | CStartTask h t \<Rightarrow> start_task_body self h t
    | CCrossTask h e t k \<Rightarrow> cross_task_body self h e t k)"

primrec exec_call :: "('pc, 'op, 'r, 'v, 's) prog \<Rightarrow> nat \<Rightarrow> ('pc, 'op, 'r, 'v, 's) self" where
  "exec_call P 0 = (\<lambda>c w. OutOfFuel)"
| "exec_call P (Suc n) = dispatch P (exec_call P n)"

abbreviation Resume :: "('pc, 'op, 'r, 'v, 's) prog \<Rightarrow> nat \<Rightarrow> hdl
    \<Rightarrow> ('pc, 'op, 'r, 'v, 's) machine \<Rightarrow> ('pc, 'op, 'r, 'v, 's) machine outcome" where
  "Resume P n h \<equiv> exec_call P n (CResume h)"

text \<open>Spawning a task from outside any coroutine: the call that creates it, then \<open>Spawn\<close>.\<close>

definition Spawn :: "('pc, 'op, 'r, 'v, 's) prog \<Rightarrow> nat \<Rightarrow> exec \<Rightarrow> 'pc
    \<Rightarrow> ('pc, 'op, 'r, 'v, 's) machine \<Rightarrow> ('pc, 'op, 'r, 'v, 's) machine outcome" where
  "Spawn P n e pc w = (case allocate (Body pc) w of (c, w1) \<Rightarrow> exec_call P n (CSpawn e c) w1)"

text \<open>The completion of an operation is stored in the awaiter before the job is resumed.\<close>

definition complete :: "hdl \<Rightarrow> 'r \<Rightarrow> ('pc, 'op, 'r, 'v, 's) machine
    \<Rightarrow> ('pc, 'op, 'r, 'v, 's) machine" where
  "complete h r = on_frame h (\<lambda>f. case status f of
      AwOp _ k \<Rightarrow> f\<lparr>status := AwOp (Some r) k\<rparr> | _ \<Rightarrow> f)"

definition empty_world :: "'s \<Rightarrow> ('pc, 'op, 'r, 'v, 's) machine" where
  "empty_world s = \<lparr>heap = Map.empty, fresh = 0, ready = (\<lambda>_. []), shared = s, events = []\<rparr>"

text \<open>The definitions that compute the outcome of a call, for evaluating concrete programs.\<close>

lemmas call_defs = dispatch_def run_body_def resume_handle_body_def Resume_body_def after_resume_def
  spawn_job_body_def Spawn_body_def await_task_body_def start_task_body_def cross_task_body_def
  notify_parent_def

lemmas world_defs = allocate_def new_frame_def on_frame_def set_status_def destroy_def
  mark_ready_def finish_def is_done_def take_result_def complete_def empty_world_def

text \<open>One unfolding of each call.\<close>

lemma exec_call_unfold:
  "exec_call P (Suc n) (CRun h pt) w = run_body P (exec_call P n) h pt w"
  "exec_call P (Suc n) (CResumeHandle h) w = resume_handle_body (exec_call P n) h w"
  "exec_call P (Suc n) (CResume h) w = Resume_body (exec_call P n) h w"
  "exec_call P (Suc n) (CSpawnJob e h) w = spawn_job_body P (exec_call P n) e h w"
  "exec_call P (Suc n) (CSpawn e h) w = Spawn_body (exec_call P n) e h w"
  "exec_call P (Suc n) (CAwaitTask h t k) w = await_task_body (exec_call P n) h t k w"
  "exec_call P (Suc n) (CStartTask h t) w = start_task_body (exec_call P n) h t w"
  "exec_call P (Suc n) (CCrossTask h e t k) w = cross_task_body (exec_call P n) h e t k w"
  by (simp_all add: dispatch_def)

end
