(* ===== verification/AsyncFuel.thy ===== *)
theory AsyncFuel
  imports AsyncLib
begin

text \<open>
  The fuel of the coroutine interpreter only bounds the depth of calls: a run that does not
  exhaust it gives the same outcome with any larger amount.  The proof is one monotonicity
  lemma per mutually recursive function, over the order in which \<open>OutOfFuel\<close> is least.
\<close>

named_theorems approx_intros \<open>monotonicity of the interpreter's functions\<close>

definition approx :: "'a outcome \<Rightarrow> 'a outcome \<Rightarrow> bool" where
  "approx x y \<longleftrightarrow> x = OutOfFuel \<or> x = y"

definition approx_self :: "('pc, 'op, 'r, 'v, 's) self \<Rightarrow> ('pc, 'op, 'r, 'v, 's) self \<Rightarrow> bool" where
  "approx_self f g \<longleftrightarrow> (\<forall>c w. approx (f c w) (g c w))"

lemma approx_refl [simp]: "approx x x"
  by (simp add: approx_def)

lemma approx_call: "approx_self f g \<Longrightarrow> approx (f c w) (g c w)"
  by (simp add: approx_self_def)

lemma approx_obind [approx_intros]:
  "approx m m' \<Longrightarrow> (\<And>x. approx (f x) (f' x)) \<Longrightarrow> approx (obind m f) (obind m' f')"
  by (cases m; cases m') (auto simp: approx_def)

lemma approx_notify_parent:
  assumes "approx_self f g"
  shows "approx (notify_parent f p v w) (notify_parent g p v w)"
  by (auto simp: notify_parent_def approx_call [OF assms] split: option.splits suspension.splits)

lemma approx_run_body:
  assumes "approx_self f g"
  shows "approx (run_body P f h pt w) (run_body P g h pt w)"
  by (auto simp: run_body_def split: action.splits prod.splits
      intro!: approx_intros approx_notify_parent [OF assms] approx_call [OF assms])

lemma approx_resume_handle_body:
  assumes "approx_self f g"
  shows "approx (resume_handle_body f h w) (resume_handle_body g h w)"
  by (auto simp: resume_handle_body_def split: option.splits suspension.splits
      intro!: approx_intros approx_call [OF assms])

lemma approx_after_resume:
  assumes "approx_self f g"
  shows "approx (after_resume f h w) (after_resume g h w)"
  by (auto simp: after_resume_def Let_def approx_call [OF assms] split: option.splits)

lemma approx_Resume_body:
  assumes "approx_self f g"
  shows "approx (Resume_body f h w) (Resume_body g h w)"
  by (auto simp: Resume_body_def
      intro!: approx_intros approx_after_resume [OF assms] approx_call [OF assms])

lemma approx_spawn_job_body:
  assumes "approx_self f g"
  shows "approx (spawn_job_body P f e h w) (spawn_job_body P g e h w)"
  by (auto simp: spawn_job_body_def approx_call [OF assms] split: spawn_mode.splits)

lemma approx_Spawn_body:
  assumes "approx_self f g"
  shows "approx (Spawn_body f e h w) (Spawn_body g e h w)"
  by (simp add: Spawn_body_def approx_call [OF assms])

lemma approx_await_task_body:
  assumes "approx_self f g"
  shows "approx (await_task_body f h c k w) (await_task_body g h c k w)"
  by (auto simp: await_task_body_def Let_def split: option.splits
      intro!: approx_intros approx_call [OF assms])

lemma approx_start_task_body:
  assumes "approx_self f g"
  shows "approx (start_task_body f h c w) (start_task_body g h c w)"
  by (auto simp: start_task_body_def approx_call [OF assms] split: option.splits)

lemma approx_cross_task_body:
  assumes "approx_self f g"
  shows "approx (cross_task_body f h e c k w) (cross_task_body g h e c k w)"
  by (auto simp: cross_task_body_def approx_call [OF assms] split: prod.splits)

lemma approx_dispatch: "approx_self f g \<Longrightarrow> approx_self (dispatch P f) (dispatch P g)"
  unfolding approx_self_def [of "dispatch P f"] dispatch_def
  by (auto split: call.splits intro: approx_run_body approx_resume_handle_body approx_Resume_body
      approx_spawn_job_body approx_Spawn_body approx_await_task_body approx_start_task_body
      approx_cross_task_body)

lemma approx_exec_call_Suc: "approx_self (exec_call P n) (exec_call P (Suc n))"
proof (induction n)
  case 0
  show ?case by (simp add: approx_self_def approx_def)
next
  case (Suc n)
  then show ?case using approx_dispatch by fastforce
qed

lemma exec_call_mono:
  assumes "exec_call P n c w \<noteq> OutOfFuel" and "n \<le> m"
  shows "exec_call P m c w = exec_call P n c w"
  using assms(2)
proof (induction m rule: dec_induct)
  case base
  show ?case by simp
next
  case (step m)
  with assms(1) approx_exec_call_Suc [of P m] show ?case
    by (metis approx_self_def approx_def)
qed

lemma exec_call_Ok_mono:
  "exec_call P n c w = Ok w' \<Longrightarrow> n \<le> m \<Longrightarrow> exec_call P m c w = Ok w'"
  using exec_call_mono [of P n c w m] by simp

lemma approx_exec_call: "n \<le> m \<Longrightarrow> approx_self (exec_call P n) (exec_call P m)"
  unfolding approx_self_def approx_def by (metis exec_call_mono)

lemma approx_OkD: "approx x y \<Longrightarrow> x = Ok z \<Longrightarrow> y = Ok z"
  by (simp add: approx_def)

text \<open>
  \<open>ends P h pt w r\<close>: once \<open>resume()\<close> has entered the body of \<open>h\<close> at \<open>pt\<close>, the rest of
  \<open>Resume h\<close> has outcome \<open>r\<close>, with any large enough amount of fuel.  \<open>resumes P h pt w w'\<close>: it
  ends in \<open>w'\<close>.
\<close>

definition ends :: "('pc, 'op, 'r, 'v, 's) prog \<Rightarrow> hdl \<Rightarrow> ('pc, 'v) point
    \<Rightarrow> ('pc, 'op, 'r, 'v, 's) machine \<Rightarrow> ('pc, 'op, 'r, 'v, 's) machine outcome \<Rightarrow> bool" where
  "ends P h pt w r \<longleftrightarrow> (\<exists>n. \<forall>m \<ge> n. \<forall>m' \<ge> n.
     obind (exec_call P m (CRun h pt) w) (after_resume (exec_call P m') h) = r)"

definition resumes :: "('pc, 'op, 'r, 'v, 's) prog \<Rightarrow> hdl \<Rightarrow> ('pc, 'v) point
    \<Rightarrow> ('pc, 'op, 'r, 'v, 's) machine \<Rightarrow> ('pc, 'op, 'r, 'v, 's) machine \<Rightarrow> bool" where
  "resumes P h pt w w' \<longleftrightarrow> (\<exists>n. \<forall>m \<ge> n. \<forall>m' \<ge> n.
     obind (exec_call P m (CRun h pt) w) (after_resume (exec_call P m') h) = Ok w')"

lemma resumes_ends: "resumes P h pt w w' \<longleftrightarrow> ends P h pt w (Ok w')"
  by (simp only: resumes_def ends_def)

lemma resumesI:
  assumes "obind (exec_call P n (CRun h pt) w) (after_resume (exec_call P n) h) = Ok w'"
  shows "resumes P h pt w w'"
  unfolding resumes_def
proof (intro exI [of _ n] allI impI)
  fix m m' assume "n \<le> m" "n \<le> m'"
  then have "approx (obind (exec_call P n (CRun h pt) w) (after_resume (exec_call P n) h))
      (obind (exec_call P m (CRun h pt) w) (after_resume (exec_call P m') h))"
    by (intro approx_obind approx_after_resume approx_call approx_exec_call)
  then show "obind (exec_call P m (CRun h pt) w) (after_resume (exec_call P m') h) = Ok w'"
    using assms by (rule approx_OkD)
qed

lemma resumesE:
  assumes "resumes P h pt w w'"
  obtains n where "\<And>m m'. n \<le> m \<Longrightarrow> n \<le> m' \<Longrightarrow>
    obind (exec_call P m (CRun h pt) w) (after_resume (exec_call P m') h) = Ok w'"
  using assms by (auto simp: resumes_def)

end
