(* ===== verification/GameExecutor.thy ===== *)
theory GameExecutor
  imports AsyncFuel
begin

text \<open>
  The frame based executor \<^verbatim>\<open>game/async_game.cpp\<close>.

  \<open>Executor::Spawn\<close> and \<open>MarkReady\<close> append to \<open>m_ready\<close> (\<open>mark_ready\<close> of \<open>AsyncLib\<close>);
  \<open>Executor::Update\<close> swaps the vector out and resumes its jobs, until it finds it empty.  The
  interface between the executor and the jobs is the locale \<open>ready_queue\<close>: resuming a job may
  append to \<open>m_ready\<close>, and does not otherwise depend on it.  Its consequences (\<open>Update\<close> empties
  the queue, and the batches it takes are unobservable: it is one global FIFO) are proved once
  there and interpreted on the coroutine machine.  The last part is the same executor under
  concurrent calls of \<open>MarkReady\<close>.
\<close>

section \<open>The loop of Update\<close>

primrec resume_each :: "('j \<Rightarrow> 'w \<Rightarrow> 'w outcome) \<Rightarrow> 'j list \<Rightarrow> 'w \<Rightarrow> 'w outcome" where
  "resume_each resume [] w = Ok w"
| "resume_each resume (j # js) w = obind (resume j w) (resume_each resume js)"

text \<open>One unit of \<open>n\<close> is one iteration of \<open>while (true)\<close>.\<close>

fun update_loop :: "('j \<Rightarrow> 'w \<Rightarrow> 'w outcome) \<Rightarrow> ('w \<Rightarrow> 'j list) \<Rightarrow> ('j list \<Rightarrow> 'w \<Rightarrow> 'w)
    \<Rightarrow> nat \<Rightarrow> 'w \<Rightarrow> 'w outcome" where
  "update_loop resume queue set_queue 0 w = OutOfFuel"
| "update_loop resume queue set_queue (Suc n) w =
     (if queue w = [] then Ok w
      else obind (resume_each resume (queue w) (set_queue [] w)) (update_loop resume queue set_queue n))"

text \<open>The specification: one queue, jobs leave it at the front, one at a time.\<close>

fun fifo :: "('j \<Rightarrow> 'w \<Rightarrow> 'w outcome) \<Rightarrow> ('w \<Rightarrow> 'j list) \<Rightarrow> ('j list \<Rightarrow> 'w \<Rightarrow> 'w)
    \<Rightarrow> nat \<Rightarrow> 'w \<Rightarrow> 'w outcome" where
  "fifo resume queue set_queue 0 w = (if queue w = [] then Ok w else OutOfFuel)"
| "fifo resume queue set_queue (Suc n) w = (case queue w of
      [] \<Rightarrow> Ok w
    | j # js \<Rightarrow> obind (resume j (set_queue js w)) (fifo resume queue set_queue n))"

locale ready_queue =
  fixes resume :: "'j \<Rightarrow> 'w \<Rightarrow> 'w outcome"
    and queue :: "'w \<Rightarrow> 'j list"
    and set_queue :: "'j list \<Rightarrow> 'w \<Rightarrow> 'w"
  assumes queue_set [simp]: "queue (set_queue q w) = q"
    and set_set [simp]: "set_queue q (set_queue q' w) = set_queue q w"
    and set_same: "set_queue (queue w) w = w"
    and resume_prefix: "resume j (set_queue (q @ queue w) w) =
          omap (\<lambda>w'. set_queue (q @ queue w') w') (resume j w)"
begin

lemma update_empties: "update_loop resume queue set_queue n w = Ok w' \<Longrightarrow> queue w' = []"
  by (induction n arbitrary: w) (auto simp: obind_eq_Ok_iff split: if_splits)

lemma resume_appends:
  assumes "resume j w = Ok w'"
  shows "\<exists>xs. queue w' = queue w @ xs"
proof -
  have "resume j w = omap (\<lambda>x. set_queue (queue w @ queue x) x) (resume j (set_queue [] w))"
    using resume_prefix [of j "queue w" "set_queue [] w"] by (simp add: set_same)
  with assms have "omap (\<lambda>x. set_queue (queue w @ queue x) x) (resume j (set_queue [] w)) = Ok w'"
    by simp
  then obtain x where "w' = set_queue (queue w @ queue x) x"
    unfolding omap_eq_Ok_iff by blast
  then show ?thesis by simp
qed

lemma resume_each_appends: "resume_each resume js w = Ok w' \<Longrightarrow> \<exists>xs. queue w' = queue w @ xs"
proof (induction js arbitrary: w)
  case (Cons j js)
  then obtain w1 where "resume j w = Ok w1" "resume_each resume js w1 = Ok w'"
    by (auto simp: obind_eq_Ok_iff)
  with resume_appends Cons.IH show ?case by fastforce
qed auto

lemma resume_set_queue:
  "resume j (set_queue q w) = omap (\<lambda>w'. set_queue (q @ queue w') w') (resume j (set_queue [] w))"
  using resume_prefix [of j q "set_queue [] w"] by simp

text \<open>Resuming the jobs of a batch is popping them off the front of the queue.\<close>

lemma fifo_batch:
  "fifo resume queue set_queue (length js + n) (set_queue (js @ queue w) w) =
     obind (resume_each resume js w) (fifo resume queue set_queue n)"
proof (induction js arbitrary: w)
  case Nil
  then show ?case by (simp add: set_same)
next
  case (Cons j js)
  have "fifo resume queue set_queue (length (j # js) + n) (set_queue ((j # js) @ queue w) w) =
      obind (resume j (set_queue (js @ queue w) w)) (fifo resume queue set_queue (length js + n))"
    by simp
  also have "\<dots> = obind (resume j w)
      (\<lambda>w'. fifo resume queue set_queue (length js + n) (set_queue (js @ queue w') w'))"
    by (simp add: resume_prefix obind_omap)
  also have "\<dots> = obind (resume_each resume (j # js) w) (fifo resume queue set_queue n)"
    by (simp add: Cons.IH obind_assoc)
  finally show ?case .
qed

lemma fifo_mono: "fifo resume queue set_queue n w = Ok w' \<Longrightarrow> n \<le> m \<Longrightarrow> fifo resume queue set_queue m w = Ok w'"
proof (induction n arbitrary: m w)
  case 0
  then show ?case by (cases m) (auto split: if_splits)
next
  case (Suc n)
  then obtain k where "m = Suc k" "n \<le> k" by (metis Suc_le_D Suc_le_mono)
  with Suc show ?case by (auto simp: obind_eq_Ok_iff split: list.splits)
qed

lemma update_fifo:
  "update_loop resume queue set_queue n w = Ok w' \<Longrightarrow> \<exists>m. fifo resume queue set_queue m w = Ok w'"
proof (induction n arbitrary: w)
  case (Suc n)
  show ?case
  proof (cases "queue w = []")
    case True
    with Suc.prems have "fifo resume queue set_queue 0 w = Ok w'" by simp
    then show ?thesis ..
  next
    case False
    with Suc.prems obtain w1 where
      w1: "resume_each resume (queue w) (set_queue [] w) = Ok w1"
          "update_loop resume queue set_queue n w1 = Ok w'"
      by (auto simp: obind_eq_Ok_iff)
    from Suc.IH [OF w1(2)] obtain m where m: "fifo resume queue set_queue m w1 = Ok w'" ..
    have "fifo resume queue set_queue (length (queue w) + m) w = Ok w'"
      using fifo_batch [of "queue w" m "set_queue [] w"] w1(1) m by (simp add: set_same)
    then show ?thesis ..
  qed
qed simp

lemma fifo_length: "fifo resume queue set_queue m w = Ok w' \<Longrightarrow> length (queue w) \<le> m"
proof (induction m arbitrary: w)
  case (Suc m)
  show ?case
  proof (cases "queue w")
    case (Cons j js)
    with Suc.prems obtain w1 where
      w1: "resume j (set_queue js w) = Ok w1" "fifo resume queue set_queue m w1 = Ok w'"
      by (auto simp: obind_eq_Ok_iff)
    from resume_appends [OF w1(1)] obtain xs where "queue w1 = js @ xs" by auto
    with Suc.IH [OF w1(2)] Cons show ?thesis by simp
  qed simp
qed (auto split: if_splits)

lemma fifo_update:
  "fifo resume queue set_queue m w = Ok w' \<Longrightarrow> \<exists>n. update_loop resume queue set_queue n w = Ok w'"
proof (induction m arbitrary: w rule: less_induct)
  case (less m)
  show ?case
  proof (cases "queue w = []")
    case True
    with less.prems have "w' = w" by (cases m) auto
    with True have "update_loop resume queue set_queue (Suc 0) w = Ok w'" by simp
    then show ?thesis ..
  next
    case False
    from fifo_length [OF less.prems] obtain k where k: "m = length (queue w) + k"
      by (metis le_Suc_ex)
    have "obind (resume_each resume (queue w) (set_queue [] w)) (fifo resume queue set_queue k) = Ok w'"
      using fifo_batch [of "queue w" k "set_queue [] w"] less.prems k by (simp add: set_same)
    then obtain w1 where w1: "resume_each resume (queue w) (set_queue [] w) = Ok w1"
        "fifo resume queue set_queue k w1 = Ok w'"
      by (auto simp: obind_eq_Ok_iff)
    from False k have "k < m" by simp
    from less.IH [OF this w1(2)] obtain n where "update_loop resume queue set_queue n w1 = Ok w'" ..
    with False w1(1) have "update_loop resume queue set_queue (Suc n) w = Ok w'" by simp
    then show ?thesis ..
  qed
qed

text \<open>
  If every resumed job decreases a measure while an invariant holds, \<open>Update\<close> returns; if
  every resumed job leaves the queue non-empty, it does not.
\<close>

lemma fifo_terminates:
  assumes "\<And>w j js. I w \<Longrightarrow> queue w = j # js \<Longrightarrow>
      \<exists>w1. resume j (set_queue js w) = Ok w1 \<and> I w1 \<and> (m w1 :: nat) < m w"
  shows "I w \<Longrightarrow> \<exists>n w'. fifo resume queue set_queue n w = Ok w' \<and> I w'"
proof (induction "m w" arbitrary: w rule: less_induct)
  case less
  show ?case
  proof (cases "queue w")
    case Nil
    then have "fifo resume queue set_queue 0 w = Ok w" by simp
    with less.prems show ?thesis by blast
  next
    case (Cons j js)
    from assms [OF less.prems Cons] obtain w1 where
      w1: "resume j (set_queue js w) = Ok w1" "I w1" "m w1 < m w" by blast
    from less.hyps [OF w1(3,2)] obtain n w' where "fifo resume queue set_queue n w1 = Ok w'" "I w'"
      by blast
    with w1(1) Cons have "fifo resume queue set_queue (Suc n) w = Ok w'" by simp
    with \<open>I w'\<close> show ?thesis by blast
  qed
qed

lemma fifo_diverges:
  assumes "\<And>w. I w \<Longrightarrow> queue w \<noteq> []"
    and "\<And>w w1 j js. I w \<Longrightarrow> queue w = j # js \<Longrightarrow> resume j (set_queue js w) = Ok w1 \<Longrightarrow> I w1"
  shows "I w \<Longrightarrow> fifo resume queue set_queue n w \<noteq> Ok w'"
proof (induction n arbitrary: w)
  case 0
  with assms(1) show ?case by simp
next
  case (Suc n)
  with assms(1) obtain j js where "queue w = j # js" by (cases "queue w") auto
  with Suc assms(2) show ?case by (auto simp: obind_eq_Ok_iff)
qed

theorem update_iff_fifo:
  "(\<exists>n. update_loop resume queue set_queue n w = Ok w') \<longleftrightarrow>
   (\<exists>m. fifo resume queue set_queue m w = Ok w')"
  using update_fifo fifo_update by blast

end

section \<open>Update on the coroutine machine\<close>

definition Update :: "('pc, 'op, 'r, 'v, 's) prog \<Rightarrow> nat \<Rightarrow> exec
    \<Rightarrow> ('pc, 'op, 'r, 'v, 's) machine \<Rightarrow> ('pc, 'op, 'r, 'v, 's) machine outcome" where
  "Update P n e = update_loop (Resume P n) (\<lambda>w. ready w e)
     (\<lambda>q w. w\<lparr>ready := (ready w)(e := q)\<rparr>) n"

text \<open>
  No operation of the coroutine library reads \<open>m_ready\<close>: what stands in front of it is carried
  through every call unchanged.
\<close>

definition in_front :: "exec \<Rightarrow> hdl list \<Rightarrow> ('p, 'op, 'r, 'v, 's) world \<Rightarrow> ('p, 'op, 'r, 'v, 's) world" where
  "in_front e q w = w\<lparr>ready := (ready w)(e := q @ ready w e)\<rparr>"

named_theorems front_simps \<open>operations commute with \<open>in_front\<close>\<close>

lemma in_front_fields [front_simps]:
  "heap (in_front e q w) = heap w" "fresh (in_front e q w) = fresh w"
  "shared (in_front e q w) = shared w" "events (in_front e q w) = events w"
  by (simp_all add: in_front_def)

lemma in_front_frame_ops [front_simps]:
  "allocate p (in_front e q w) = (fst (allocate p w), in_front e q (snd (allocate p w)))"
  "on_frame h f (in_front e q w) = in_front e q (on_frame h f w)"
  "set_status h st (in_front e q w) = in_front e q (set_status h st w)"
  "finish h v (in_front e q w) = in_front e q (finish h v w)"
  "destroy h (in_front e q w) = in_front e q (destroy h w)"
  "mark_ready e' h (in_front e q w) = in_front e q (mark_ready e' h w)"
  "is_done h (in_front e q w) = is_done h w"
  by (auto simp: in_front_def allocate_def on_frame_def set_status_def finish_def destroy_def
      mark_ready_def is_done_def fun_eq_iff split: option.splits)

lemma in_front_take_result [front_simps]:
  "take_result c k (in_front e q w) = omap (\<lambda>(p, w'). (p, in_front e q w')) (take_result c k w)"
  by (simp add: take_result_def front_simps omap_obind split: option.split)

lemma in_front_updates [front_simps]:
  "(in_front e q w)\<lparr>shared := s\<rparr> = in_front e q (w\<lparr>shared := s\<rparr>)"
  "(in_front e q w)\<lparr>events := es\<rparr> = in_front e q (w\<lparr>events := es\<rparr>)"
  by (simp_all add: in_front_def)

definition front_closed :: "exec \<Rightarrow> hdl list \<Rightarrow> ('pc, 'op, 'r, 'v, 's) self \<Rightarrow> bool" where
  "front_closed e q self \<longleftrightarrow> (\<forall>c w. self c (in_front e q w) = omap (in_front e q) (self c w))"

lemma front_call: "front_closed e q f \<Longrightarrow> f c (in_front e q w) = omap (in_front e q) (f c w)"
  by (simp add: front_closed_def)

lemma front_notify_parent:
  "front_closed e q f \<Longrightarrow> notify_parent f p v (in_front e q w) = omap (in_front e q) (notify_parent f p v w)"
  by (simp add: notify_parent_def front_simps front_call split: option.split suspension.split)

lemma front_after_resume:
  "front_closed e q f \<Longrightarrow> after_resume f h (in_front e q w) = omap (in_front e q) (after_resume f h w)"
  by (simp add: after_resume_def front_simps front_call Let_def split: option.split)

lemmas front_rules = front_simps front_call front_notify_parent front_after_resume
  omap_obind obind_omap case_prod_unfold

lemma front_run_body:
  "front_closed e q f \<Longrightarrow> run_body P f h pt (in_front e q w) = omap (in_front e q) (run_body P f h pt w)"
  by (simp add: run_body_def front_rules split: action.split)

lemma front_resume_handle_body:
  "front_closed e q f \<Longrightarrow>
     resume_handle_body f h (in_front e q w) = omap (in_front e q) (resume_handle_body f h w)"
  by (simp add: resume_handle_body_def front_rules if_distrib [of "omap _"]
      cong: if_cong split: option.split suspension.split)

lemma front_await_task_body:
  "front_closed e q f \<Longrightarrow>
     await_task_body f h c k (in_front e q w) = omap (in_front e q) (await_task_body f h c k w)"
  by (simp add: await_task_body_def front_rules Let_def if_distrib [of "omap _"]
      cong: if_cong split: option.split)

lemma front_dispatch: "front_closed e q f \<Longrightarrow> front_closed e q (dispatch P f)"
  unfolding front_closed_def [of e q "dispatch P f"] dispatch_def
  by (auto simp: front_run_body front_resume_handle_body front_await_task_body Resume_body_def
      spawn_job_body_def Spawn_body_def start_task_body_def cross_task_body_def front_rules
      split: call.split spawn_mode.split option.split)

lemma front_exec_call: "front_closed e q (exec_call P n)"
proof (induction n)
  case 0
  show ?case by (simp add: front_closed_def)
next
  case (Suc n)
  then show ?case by (simp add: front_dispatch)
qed

interpretation game: ready_queue "Resume P n" "\<lambda>w. ready w e"
  "\<lambda>q w. w\<lparr>ready := (ready w)(e := q)\<rparr>" for P n e
proof
  fix j q and w :: "('a, 'b, 'c, 'd, 'e) machine"
  show "Resume P n j (w\<lparr>ready := (ready w)(e := q @ ready w e)\<rparr>) =
      omap (\<lambda>w'. w'\<lparr>ready := (ready w')(e := q @ ready w' e)\<rparr>) (Resume P n j w)"
    using front_call [OF front_exec_call [of e q P n], of "CResume j" w]
    by (simp add: in_front_def [abs_def])
qed simp_all

text \<open>Fuel of the loop and of the jobs: more never changes an outcome.\<close>

lemma approx_resume_each:
  assumes "\<And>j w. approx (f j w) (g j w)"
  shows "approx (resume_each f js w) (resume_each g js w)"
  by (induction js arbitrary: w) (auto intro!: approx_obind assms)

lemma approx_fifo:
  assumes "\<And>j w. approx (f j w) (g j w)"
  shows "n \<le> m \<Longrightarrow> approx (fifo f queue set_queue n w) (fifo g queue set_queue m w)"
proof (induction n arbitrary: m w)
  case 0
  then show ?case by (cases m) (auto simp: approx_def)
next
  case (Suc n)
  then obtain k where "m = Suc k" "n \<le> k" by (metis Suc_le_D Suc_le_mono)
  with Suc.IH show ?case by (auto split: list.split intro!: approx_obind assms)
qed

lemma approx_update_loop:
  assumes "\<And>j w. approx (f j w) (g j w)"
  shows "n \<le> m \<Longrightarrow> approx (update_loop f queue set_queue n w) (update_loop g queue set_queue m w)"
proof (induction n arbitrary: m w)
  case 0
  then show ?case by (simp add: approx_def)
next
  case (Suc n)
  then obtain k where "m = Suc k" "n \<le> k" by (metis Suc_le_D Suc_le_mono)
  with Suc.IH show ?case by (auto intro!: approx_obind approx_resume_each assms)
qed

definition fifo_update :: "('pc, 'op, 'r, 'v, 's) prog \<Rightarrow> nat \<Rightarrow> exec
    \<Rightarrow> ('pc, 'op, 'r, 'v, 's) machine \<Rightarrow> ('pc, 'op, 'r, 'v, 's) machine outcome" where
  "fifo_update P n e = fifo (Resume P n) (\<lambda>w. ready w e)
     (\<lambda>q w. w\<lparr>ready := (ready w)(e := q)\<rparr>) n"

lemma approx_Resume: "n \<le> m \<Longrightarrow> approx (Resume P n j w) (Resume P m j w)"
  by (intro approx_call approx_exec_call)

lemma Update_eq_fifo: "(\<exists>n. Update P n e w = Ok w') \<longleftrightarrow> (\<exists>n. fifo_update P n e w = Ok w')"
proof
  assume "\<exists>n. Update P n e w = Ok w'"
  then obtain n m where "fifo (Resume P n) (\<lambda>w. ready w e)
      (\<lambda>q w. w\<lparr>ready := (ready w)(e := q)\<rparr>) m w = Ok w'"
    unfolding Update_def using game.update_fifo by blast
  then have "fifo_update P (max n m) e w = Ok w'"
    unfolding fifo_update_def
    by (rule approx_OkD [rotated]) (intro approx_fifo approx_Resume, simp_all)
  then show "\<exists>n. fifo_update P n e w = Ok w'" ..
next
  assume "\<exists>n. fifo_update P n e w = Ok w'"
  then obtain n m where "update_loop (Resume P n) (\<lambda>w. ready w e)
      (\<lambda>q w. w\<lparr>ready := (ready w)(e := q)\<rparr>) m w = Ok w'"
    unfolding fifo_update_def using game.fifo_update by blast
  then have "Update P (max n m) e w = Ok w'"
    unfolding Update_def
    by (rule approx_OkD [rotated]) (intro approx_update_loop approx_Resume, simp_all)
  then show "\<exists>n. Update P n e w = Ok w'" ..
qed

section \<open>MarkReady from other threads\<close>

text \<open>
  \<open>m_ready\<close> is only touched under \<open>m_lock\<close>, so a call of \<open>MarkReady\<close> from any thread falls
  before or after the swap of \<open>Update\<close>.  \<open>batch\<close> is the local vector \<open>ready\<close> of \<open>Update\<close>, less
  the jobs already resumed; \<open>marked\<close> and \<open>resumed\<close> record the calls made, in order.
\<close>

record executor_state =
  m_ready :: "hdl list"
  batch :: "hdl list"
  updating :: bool
  marked :: "hdl list"
  resumed :: "hdl list"

definition executor_init :: executor_state where
  "executor_init = \<lparr>m_ready = [], batch = [], updating = False, marked = [], resumed = []\<rparr>"

inductive executor_step :: "executor_state \<Rightarrow> executor_state \<Rightarrow> bool" where
  step_mark: "executor_step s (s\<lparr>m_ready := m_ready s @ [j], marked := marked s @ [j]\<rparr>)"
| step_enter: "\<not> updating s \<Longrightarrow> executor_step s (s\<lparr>updating := True\<rparr>)"
| step_swap: "updating s \<Longrightarrow> batch s = [] \<Longrightarrow> m_ready s \<noteq> [] \<Longrightarrow>
     executor_step s (s\<lparr>batch := m_ready s, m_ready := []\<rparr>)"
| step_resume: "updating s \<Longrightarrow> batch s = j # js \<Longrightarrow>
     executor_step s (s\<lparr>batch := js, resumed := resumed s @ [j]\<rparr>)"
| step_leave: "updating s \<Longrightarrow> batch s = [] \<Longrightarrow> m_ready s = [] \<Longrightarrow>
     executor_step s (s\<lparr>updating := False\<rparr>)"

inductive executor_reachable :: "executor_state \<Rightarrow> bool" where
  executor_start: "executor_reachable executor_init"
| executor_next: "executor_reachable s \<Longrightarrow> executor_step s t \<Longrightarrow> executor_reachable t"

definition executor_inv :: "executor_state \<Rightarrow> bool" where
  "executor_inv s \<longleftrightarrow> marked s = resumed s @ batch s @ m_ready s \<and> (\<not> updating s \<longrightarrow> batch s = [])"

lemma executor_step_inv: "executor_step s t \<Longrightarrow> executor_inv s \<Longrightarrow> executor_inv t"
  by (induction rule: executor_step.induct) (auto simp: executor_inv_def)

lemma executor_init_inv: "executor_inv executor_init"
  by (simp add: executor_inv_def executor_init_def)

lemma executor_reachable_inv: "executor_reachable s \<Longrightarrow> executor_inv s"
  by (induction rule: executor_reachable.induct) (blast intro: executor_init_inv executor_step_inv)+

section \<open>A job that spawns a copy of itself\<close>

datatype respawn_point = Respawn | RespawnEnd

definition respawn :: "(respawn_point, unit, unit, unit, unit) prog" where
  "respawn = \<lparr>code = (\<lambda>p. case p of Respawn \<Rightarrow> CoSpawn 0 Respawn RespawnEnd
      | RespawnEnd \<Rightarrow> CoReturnVoid), mode = (\<lambda>_. Deferred)\<rparr>"

definition respawn_ready :: "(respawn_point, unit, unit, unit, unit) machine \<Rightarrow> bool" where
  "respawn_ready w \<longleftrightarrow> (\<exists>h. ready w 0 = [h] \<and> h < fresh w \<and> heap w h = Some
     \<lparr>status = Initial (Body Respawn), result = None, destroyOnDone = True, executor = Some 0, parent = None\<rparr>)"

lemma respawn_ready_resume:
  assumes "respawn_ready w" and "ready w 0 = j # js"
    and "Resume respawn n j (w\<lparr>ready := (ready w)(0 := js)\<rparr>) = Ok w1"
  shows "respawn_ready w1"
proof -
  from assms(1,2) have w: "js = []" "j < fresh w" "j \<noteq> fresh w" "fresh w \<noteq> j" "heap w j = Some
     \<lparr>status = Initial (Body Respawn), result = None, destroyOnDone = True, executor = Some 0, parent = None\<rparr>"
    by (auto simp: respawn_ready_def)
  have "Resume respawn (Suc (Suc (Suc (Suc (Suc n))))) j (w\<lparr>ready := (ready w)(0 := js)\<rparr>) = Ok w1"
    by (rule exec_call_Ok_mono [OF assms(3)]) simp
  with w have "ready w1 0 = [fresh w] \<and> fresh w < fresh w1 \<and> heap w1 (fresh w) = Some
     \<lparr>status = Initial (Body Respawn), result = None, destroyOnDone = True, executor = Some 0, parent = None\<rparr>"
    by (simp add: respawn_def call_defs world_defs Let_def) (erule subst, simp)
  then show ?thesis unfolding respawn_ready_def by blast
qed

lemma respawn_spawned:
  assumes "Spawn respawn m 0 Respawn (empty_world ()) = Ok w"
  shows "respawn_ready w"
proof -
  have "exec_call respawn (Suc (Suc m)) (CSpawn 0 0) (snd (allocate (Body Respawn) (empty_world ()))) = Ok w"
    by (rule exec_call_Ok_mono [of respawn m]) (use assms in \<open>simp_all add: Spawn_def world_defs\<close>)
  then show ?thesis
    by (auto simp: respawn_ready_def respawn_def call_defs world_defs)
qed

section \<open>Properties\<close>

text \<open>
  C8. \<open>Update\<close> is a FIFO.  Taking the ready jobs in batches (swap the vector, resume its jobs,
  swap again) is unobservable: \<open>Update\<close> returns, and in a given state, exactly if popping the
  jobs one by one off the front of a single queue does, to which the resumed jobs append.
\<close>

theorem update_is_fifo:
  "(\<exists>n. Update P n e w = Ok w') \<longleftrightarrow> (\<exists>n. fifo_update P n e w = Ok w')"
  by (rule Update_eq_fifo)

text \<open>
  When \<open>Update\<close> returns, no job is ready: also the jobs that were marked ready while it
  ran have been resumed.
\<close>

theorem update_drains:
  assumes "Update P n e w = Ok w'"
  shows "ready w' e = []"
  using assms unfolding Update_def by (rule game.update_empties)

theorem update_drains_witness:
  "\<exists>w'. Update respawn 1 7 (empty_world ()) = Ok w' \<and> ready w' 7 = []"
proof -
  have h: "Update respawn 1 7 (empty_world ()) = Ok (empty_world ())"
    by (simp add: Update_def empty_world_def)
  show ?thesis using h update_drains [OF h] by blast
qed

text \<open>
  C10. No job is lost, duplicated or reordered, whatever threads call \<open>MarkReady\<close> while
  \<open>Update\<close> runs: in every reachable state the jobs marked ready so far are, in order, those
  resumed, those left in the batch being resumed, and those in \<open>m_ready\<close>; between two calls
  of \<open>Update\<close> there is no batch.
\<close>

theorem ready_jobs_resumed_in_order:
  assumes "executor_reachable s"
  shows "marked s = resumed s @ batch s @ m_ready s \<and> (updating s \<or> batch s = [])"
  using executor_reachable_inv [OF assms] by (auto simp: executor_inv_def)

theorem ready_jobs_resumed_in_order_witness:
  "\<exists>s. executor_reachable s \<and> marked s = [3] \<and> m_ready s = [3] \<and>
     marked s = resumed s @ batch s @ m_ready s"
proof -
  have r: "executor_reachable (executor_init\<lparr>m_ready := m_ready executor_init @ [3],
      marked := marked executor_init @ [3]\<rparr>)"
    by (rule executor_next [OF executor_start step_mark])
  from ready_jobs_resumed_in_order [OF r] r show ?thesis
    by (intro exI [of _ "executor_init\<lparr>m_ready := m_ready executor_init @ [3],
      marked := marked executor_init @ [3]\<rparr>"]) (simp add: executor_init_def)
qed

text \<open>
  A job spawned by a running job begins in the same \<open>Update\<close>, not in the next one: a job
  that spawns a copy of itself on its executor keeps \<open>Update\<close> from ever returning.
\<close>

theorem respawn_never_returns:
  "obind (Spawn respawn m 0 Respawn (empty_world ())) (Update respawn n 0) \<noteq> Ok w'"
proof
  assume "obind (Spawn respawn m 0 Respawn (empty_world ())) (Update respawn n 0) = Ok w'"
  then obtain w where w: "Spawn respawn m 0 Respawn (empty_world ()) = Ok w" "Update respawn n 0 w = Ok w'"
    by (auto simp: obind_eq_Ok_iff)
  from w(2) obtain k where "fifo (Resume respawn n) (\<lambda>w. ready w 0)
      (\<lambda>q w. w\<lparr>ready := (ready w)(0 := q)\<rparr>) k w = Ok w'"
    unfolding Update_def using game.update_fifo by blast
  moreover have "fifo (Resume respawn n) (\<lambda>w. ready w 0)
      (\<lambda>q w. w\<lparr>ready := (ready w)(0 := q)\<rparr>) k w \<noteq> Ok w'"
    using respawn_spawned [OF w(1)]
  proof (rule game.fifo_diverges [where I = respawn_ready, rotated 2])
    fix w :: "(respawn_point, unit, unit, unit, unit) machine"
    assume "respawn_ready w"
    then show "ready w 0 \<noteq> []" by (auto simp: respawn_ready_def)
  qed (rule respawn_ready_resume)
  ultimately show False by simp
qed

end
