(* ===== verification/AsyncCalls.thy ===== *)
theory AsyncCalls
  imports AsyncFuel
begin

text \<open>
  What a tree of tasks promises: awaiting a task behaves like calling a function.

  The abstract side has no frames, no parent pointers and no \<open>Resume\<close>: \<open>eval\<close> runs a body to
  its value or to the first operation it blocks on, and the stack of continuations under that
  operation is an ordinary call stack; \<open>unwind\<close> returns through such a stack.  The concrete
  side is the interpreter of \<open>AsyncLib\<close>.  The lemmas relate the chain of suspended frames,
  linked by \<open>parent\<close>, to the call stack.
\<close>

section \<open>The abstract call stack\<close>

datatype ('p, 'op, 'r, 'v) stop =
    Returned "'v option"
  | Blocked 'op "'r \<Rightarrow> 'p" "('p, 'v) kont list"

inductive eval :: "('pc, 'op, 'r, 'v, 's) prog \<Rightarrow> ('pc, 'v) point \<Rightarrow> 's \<Rightarrow> 's
    \<Rightarrow> (('pc, 'v) point, 'op, 'r, 'v) stop \<Rightarrow> bool" for P where
  eval_step: "fetch P pt = CoStep f \<Longrightarrow> f s = (s1, pt1) \<Longrightarrow> eval P pt1 s1 s2 r \<Longrightarrow> eval P pt s s2 r"
| eval_return: "fetch P pt = CoReturn v \<Longrightarrow> eval P pt s s (Returned (Some v))"
| eval_return_void: "fetch P pt = CoReturnVoid \<Longrightarrow> eval P pt s s (Returned None)"
| eval_throw: "fetch P pt = CoThrow \<Longrightarrow> eval P pt s s (Returned None)"
| eval_suspend: "fetch P pt = CoSuspend op k \<Longrightarrow> eval P pt s s (Blocked op k [])"
| eval_call: "fetch P pt = CoAwait p k \<Longrightarrow> eval P p s s1 (Returned v) \<Longrightarrow>
     apply_kont k v = Ok pt1 \<Longrightarrow> eval P pt1 s1 s2 r \<Longrightarrow> eval P pt s s2 r"
| eval_call_blocked: "fetch P pt = CoAwait p k \<Longrightarrow> eval P p s s1 (Blocked op kr ks) \<Longrightarrow>
     eval P pt s s1 (Blocked op kr (ks @ [k]))"

inductive unwind :: "('pc, 'op, 'r, 'v, 's) prog \<Rightarrow> ('pc, 'v) point
    \<Rightarrow> (('pc, 'v) point, 'v) kont list \<Rightarrow> 's \<Rightarrow> 's
    \<Rightarrow> (('pc, 'v) point, 'op, 'r, 'v) stop \<Rightarrow> bool" for P where
  unwind_blocked: "eval P pt s s1 (Blocked op kr ks') \<Longrightarrow>
     unwind P pt ks s s1 (Blocked op kr (ks' @ ks))"
| unwind_finished: "eval P pt s s1 (Returned v) \<Longrightarrow> unwind P pt [] s s1 (Returned v)"
| unwind_return: "eval P pt s s1 (Returned v) \<Longrightarrow> apply_kont k v = Ok pt1 \<Longrightarrow>
     unwind P pt1 ks s1 s2 r \<Longrightarrow> unwind P pt (k # ks) s s2 r"

lemma unwind_top: "eval P pt s s1 (Blocked op kr ks) \<Longrightarrow> unwind P pt [] s s1 (Blocked op kr ks)"
  using unwind_blocked [of P pt s s1 op kr ks "[]"] by simp

text \<open>Inversion of \<open>eval\<close>, one equation per kind of action.\<close>

lemma eval_CoStep:
  "fetch P pt = CoStep f \<Longrightarrow> eval P pt s s' r \<longleftrightarrow> eval P (snd (f s)) (fst (f s)) s' r"
  by (subst eval.simps) (auto simp: prod_eq_iff)

lemma eval_CoReturn:
  "fetch P pt = CoReturn v \<Longrightarrow> eval P pt s s' r \<longleftrightarrow> s' = s \<and> r = Returned (Some v)"
  by (subst eval.simps) auto

lemma eval_CoReturnVoid:
  "fetch P pt = CoReturnVoid \<Longrightarrow> eval P pt s s' r \<longleftrightarrow> s' = s \<and> r = Returned None"
  by (subst eval.simps) auto

lemma eval_CoThrow:
  "fetch P pt = CoThrow \<Longrightarrow> eval P pt s s' r \<longleftrightarrow> s' = s \<and> r = Returned None"
  by (subst eval.simps) auto

lemma eval_CoSuspend:
  "fetch P pt = CoSuspend op k \<Longrightarrow> eval P pt s s' r \<longleftrightarrow> s' = s \<and> r = Blocked op k []"
  by (subst eval.simps) auto

lemma eval_CoAwait:
  "fetch P pt = CoAwait p k \<Longrightarrow> eval P pt s s' r \<longleftrightarrow>
     (\<exists>s1 v pt1. eval P p s s1 (Returned v) \<and> apply_kont k v = Ok pt1 \<and> eval P pt1 s1 s' r) \<or>
     (\<exists>op kr ks. eval P p s s' (Blocked op kr ks) \<and> r = Blocked op kr (ks @ [k]))"
  by (subst eval.simps) auto

lemmas eval_inversion = eval_CoStep eval_CoReturn eval_CoReturnVoid eval_CoThrow
  eval_CoSuspend eval_CoAwait

lemma eval_deterministic:
  "eval P pt s s1 r \<Longrightarrow> eval P pt s s2 r' \<Longrightarrow> s2 = s1 \<and> r' = r"
proof (induction arbitrary: s2 r' rule: eval.induct)
  case (eval_step pt f s s1 pt1 s2 r s2' r')
  from eval_step.prems eval_step.hyps(1,2) have "eval P pt1 s1 s2' r'"
    by (simp add: eval_CoStep)
  then show ?case by (rule eval_step.IH)
next
  case (eval_call pt p k s s1 v pt1 s2 r s2' r')
  from eval_call.prems eval_call.hyps(1) eval_call.IH(1)
  have "\<exists>pt2. apply_kont k v = Ok pt2 \<and> eval P pt2 s1 s2' r'"
    by (auto simp: eval_CoAwait dest: eval_call.IH(1))
  with eval_call.hyps(3) have "eval P pt1 s1 s2' r'" by auto
  then show ?case by (rule eval_call.IH(2))
next
  case (eval_call_blocked pt p k s s1 op kr ks s2' r')
  from eval_call_blocked.prems eval_call_blocked.hyps(1) show ?case
    by (auto simp: eval_CoAwait dest: eval_call_blocked.IH)
qed (simp_all add: eval_inversion)

section \<open>Chains of suspended frames\<close>

text \<open>
  \<open>suspended_chain H e l hs ks\<close>: the frames \<open>l # hs\<close> run on executor \<open>e\<close>, each is the parent
  of the one before it, and the frames \<open>hs\<close> wait with the continuations \<open>ks\<close>.
\<close>

fun suspended_chain :: "(hdl \<Rightarrow> ('p, 'r, 'v) frame option) \<Rightarrow> exec \<Rightarrow> hdl \<Rightarrow> hdl list
    \<Rightarrow> ('p, 'v) kont list \<Rightarrow> bool" where
  "suspended_chain H e l [] [] = True"
| "suspended_chain H e l (h # hs) (k # ks) =
     ((\<exists>fl. H l = Some fl \<and> parent fl = Some h \<and> \<not> destroyOnDone fl) \<and>
      (\<exists>fh. H h = Some fh \<and> status fh = AwTask l k \<and> executor fh = Some e \<and> result fh = None) \<and>
      suspended_chain H e h hs ks)"
| "suspended_chain H e l [] (k # ks) = False"
| "suspended_chain H e l (h # hs) [] = False"

fun submitted :: "'op event list \<Rightarrow> (hdl \<times> 'op) list" where
  "submitted [] = []"
| "submitted (Submitted h op # es) = (h, op) # submitted es"
| "submitted (Destroyed h # es) = submitted es"
| "submitted (MarkedReady e h # es) = submitted es"

lemma submitted_append [simp]: "submitted (es @ es') = submitted es @ submitted es'"
  by (induction es rule: submitted.induct) auto

definition fresh_above :: "('p, 'op, 'r, 'v, 's) world \<Rightarrow> bool" where
  "fresh_above w \<longleftrightarrow> (\<forall>c. fresh w \<le> c \<longrightarrow> heap w c = None)"

text \<open>Two heaps agree on the frames that existed in \<open>w\<close>, except those in \<open>X\<close>.\<close>

definition same_below :: "hdl set \<Rightarrow> ('p, 'op, 'r, 'v, 's) world \<Rightarrow> ('p, 'op, 'r, 'v, 's) world \<Rightarrow> bool" where
  "same_below X w w' \<longleftrightarrow> fresh w \<le> fresh w' \<and> ready w' = ready w \<and>
     (\<forall>c < fresh w. c \<notin> X \<longrightarrow> heap w' c = heap w c)"

lemma suspended_chain_cong:
  "(\<And>c. c \<in> set (l # hs) \<Longrightarrow> H' c = H c) \<Longrightarrow> suspended_chain H e l hs ks \<Longrightarrow> suspended_chain H' e l hs ks"
  by (induction H e l hs ks rule: suspended_chain.induct) auto

lemma suspended_chain_snoc:
  assumes "suspended_chain H e l hs ks" and "last (l # hs) = c"
    and "H c = Some fc" "parent fc = Some h" "\<not> destroyOnDone fc"
    and "H h = Some fh" "status fh = AwTask c k" "executor fh = Some e" "result fh = None"
  shows "suspended_chain H e l (hs @ [h]) (ks @ [k])"
  using assms by (induction H e l hs ks rule: suspended_chain.induct) (auto split: if_splits)

lemma suspended_chain_length: "suspended_chain H e l hs ks \<Longrightarrow> length hs = length ks"
  by (induction H e l hs ks rule: suspended_chain.induct) auto

lemma suspended_chain_frames:
  "suspended_chain H e l hs ks \<Longrightarrow> h \<in> set hs \<Longrightarrow> \<exists>fh c k. H h = Some fh \<and> status fh = AwTask c k"
  by (induction H e l hs ks rule: suspended_chain.induct) auto

section \<open>One call of \<open>run\<close>\<close>

definition started_frame :: "exec \<Rightarrow> hdl \<Rightarrow> ('p, 'r, 'v) frame" where
  "started_frame e h = \<lparr>status = Running, result = None, destroyOnDone = False,
     executor = Some e, parent = Some h\<rparr>"

definition call_world :: "hdl \<Rightarrow> ('p, 'r, 'v) frame \<Rightarrow> exec \<Rightarrow> ('p, 'v) kont
    \<Rightarrow> ('p, 'op, 'r, 'v, 's) world \<Rightarrow> ('p, 'op, 'r, 'v, 's) world" where
  "call_world h f e k w = w\<lparr>fresh := Suc (fresh w),
     heap := (heap w)(h \<mapsto> f\<lparr>status := AwTask (fresh w) k\<rparr>, fresh w \<mapsto> started_frame e h)\<rparr>"

lemmas body_defs = dispatch_def run_body_def resume_handle_body_def await_task_body_def

lemmas frame_defs = allocate_def new_frame_def on_frame_def set_status_def is_done_def

lemma fresh_above_less: "fresh_above w \<Longrightarrow> heap w h = Some f \<Longrightarrow> h < fresh w"
  by (metis fresh_above_def not_less option.distinct(1))

lemma run_call:
  assumes "fetch P pt = CoAwait p k" and "heap w h = Some f" and "executor f = Some e"
    and "fresh_above w"
  shows "exec_call P (Suc (Suc (Suc n))) (CRun h pt) w =
    obind (exec_call P n (CRun (fresh w) p) (call_world h f e k w)) (\<lambda>w2.
      obind (is_done (fresh w) w2) (\<lambda>d. if d
        then obind (take_result (fresh w) k w2)
               (\<lambda>(pt1, w3). exec_call P (Suc n) (CRun h pt1) (set_status h Running w3))
        else Ok w2))"
proof -
  have "h \<noteq> fresh w" using fresh_above_less [OF assms(4,2)] by simp
  then have "set_status (fresh w) Running (on_frame (fresh w) (\<lambda>fc. fc\<lparr>executor := executor f\<rparr>)
      (set_status h (AwTask (fresh w) k) (on_frame (fresh w) (\<lambda>fc. fc\<lparr>parent := Some h\<rparr>)
        (snd (allocate p w))))) = call_world h f e k w"
    using assms(2,3) by (auto simp: call_world_def started_frame_def frame_defs fun_eq_iff)
  with assms \<open>h \<noteq> fresh w\<close> show ?thesis
    unfolding exec_call.simps by (simp add: body_defs frame_defs)
qed

definition blocked_at :: "('p, 'op, 'r, 'v, 's) world \<Rightarrow> hdl \<Rightarrow> ('p, 'r, 'v) frame \<Rightarrow> exec
    \<Rightarrow> 'op \<Rightarrow> ('r \<Rightarrow> 'p) \<Rightarrow> ('p, 'v) kont list \<Rightarrow> ('p, 'op, 'r, 'v, 's) world \<Rightarrow> bool" where
  "blocked_at w h f e op kr ks w' \<longleftrightarrow> (\<exists>l hs.
     suspended_chain (heap w') e l hs ks \<and> distinct (l # hs) \<and> last (l # hs) = h \<and>
     (\<forall>x \<in> set (butlast (l # hs)). fresh w \<le> x) \<and>
     (\<exists>fl. heap w' l = Some fl \<and> status fl = AwOp None kr \<and> executor fl = Some e \<and> result fl = None) \<and>
     (\<exists>st. heap w' h = Some (f\<lparr>status := st\<rparr>) \<and> \<not> is_Final st) \<and>
     submitted (events w') = submitted (events w) @ [(l, op)])"

fun run_post :: "('p, 'op, 'r, 'v, 's) world \<Rightarrow> hdl \<Rightarrow> ('p, 'r, 'v) frame \<Rightarrow> exec
    \<Rightarrow> ('p, 'op, 'r, 'v) stop \<Rightarrow> ('p, 'op, 'r, 'v, 's) world \<Rightarrow> bool" where
  "run_post w h f e (Returned v) w' =
     (heap w' = (heap w)(h \<mapsto> f\<lparr>status := Final, result := v\<rparr>) \<and>
      submitted (events w') = submitted (events w))"
| "run_post w h f e (Blocked op kr ks) w' = blocked_at w h f e op kr ks w'"

definition run_ok :: "('pc, 'op, 'r, 'v, 's) prog \<Rightarrow> hdl \<Rightarrow> ('pc, 'v) point
    \<Rightarrow> (('pc, 'v) point, 'r, 'v) frame \<Rightarrow> exec \<Rightarrow> ('pc, 'op, 'r, 'v, 's) machine \<Rightarrow> 's
    \<Rightarrow> (('pc, 'v) point, 'op, 'r, 'v) stop \<Rightarrow> bool" where
  "run_ok P h pt f e w s' r \<longleftrightarrow> (\<exists>n w'. exec_call P n (CRun h pt) w = Ok w' \<and> shared w' = s' \<and>
     fresh_above w' \<and> same_below {h} w w' \<and> run_post w h f e r w')"

text \<open>The state of a frame about to run its body on executor \<open>e\<close>.\<close>

definition runnable :: "('p, 'op, 'r, 'v, 's) world \<Rightarrow> hdl \<Rightarrow> ('p, 'r, 'v) frame \<Rightarrow> exec \<Rightarrow> bool" where
  "runnable w h f e \<longleftrightarrow> heap w h = Some f \<and> status f = Running \<and> executor f = Some e \<and>
     result f = None \<and> fresh_above w"

lemma runnable_call_world:
  "runnable w h f e \<Longrightarrow> runnable (call_world h f e k w) (fresh w) (started_frame e h) e"
  by (auto simp: runnable_def call_world_def started_frame_def fresh_above_def)

lemma same_below_trans:
  "same_below X w w1 \<Longrightarrow> same_below X w1 w2 \<Longrightarrow> same_below X w w2"
  by (auto simp: same_below_def)

text \<open>
  The two worlds between the start of a call and its return: the frame of the callee is gone
  again, and what the caller sees is the world it called from.
\<close>

definition resumes_as :: "('p, 'op, 'r, 'v, 's) world \<Rightarrow> ('p, 'op, 'r, 'v, 's) world \<Rightarrow> bool" where
  "resumes_as w w' \<longleftrightarrow> heap w' = heap w \<and> ready w' = ready w \<and> fresh w \<le> fresh w' \<and>
     submitted (events w') = submitted (events w)"

lemma blocked_at_from:
  assumes "blocked_at w1 h f e op kr ks w'" and "resumes_as w w1"
  shows "blocked_at w h f e op kr ks w'"
proof -
  have "\<forall>x \<in> X. fresh w \<le> x" if "\<forall>x \<in> X. fresh w1 \<le> x" for X
    using that assms(2) by (meson order_trans resumes_as_def)
  moreover have "submitted (events w1) = submitted (events w)"
    using assms(2) by (simp add: resumes_as_def)
  ultimately show ?thesis
    using assms(1) unfolding blocked_at_def by metis
qed

lemma run_ok_from:
  assumes "run_ok P h pt f e w1 s' r" and "resumes_as w w1"
    and "\<And>n w'. exec_call P n (CRun h pt) w1 = Ok w' \<Longrightarrow> \<exists>m. exec_call P m (CRun h pt0) w = Ok w'"
  shows "run_ok P h pt0 f e w s' r"
proof -
  from assms(1) obtain n w' where w': "exec_call P n (CRun h pt) w1 = Ok w'" "shared w' = s'"
      "fresh_above w'" "same_below {h} w1 w'" "run_post w1 h f e r w'"
    by (auto simp: run_ok_def)
  have "same_below {h} w w'"
    using w'(4) assms(2) by (auto simp: same_below_def resumes_as_def)
  moreover have "run_post w h f e r w'"
  proof (cases r)
    case (Returned v)
    with w'(5) assms(2) show ?thesis by (simp add: resumes_as_def)
  next
    case (Blocked op kr ks)
    with w'(5) show ?thesis by (simp add: blocked_at_from [OF _ assms(2)])
  qed
  ultimately show ?thesis
    using assms(3) [OF w'(1)] w'(2,3) by (auto simp: run_ok_def)
qed

lemma run_ok_step:
  assumes "fetch P pt = CoStep g" and "g (shared w) = (s1, pt1)"
    and "run_ok P h pt1 f e (w\<lparr>shared := s1\<rparr>) s' r"
  shows "run_ok P h pt f e w s' r"
proof (rule run_ok_from [OF assms(3)])
  show "resumes_as w (w\<lparr>shared := s1\<rparr>)" by (simp add: resumes_as_def)
  fix n w'
  assume "exec_call P n (CRun h pt1) (w\<lparr>shared := s1\<rparr>) = Ok w'"
  then have "exec_call P (Suc n) (CRun h pt) w = Ok w'"
    using assms(1,2) by (simp add: body_defs)
  then show "\<exists>m. exec_call P m (CRun h pt) w = Ok w'" ..
qed

lemma run_ok_return:
  assumes "fetch P pt = CoReturn v' \<and> v = Some v' \<or> fetch P pt = CoReturnVoid \<and> v = None \<or>
      fetch P pt = CoThrow \<and> v = None" and "runnable w h f e"
  shows "run_ok P h pt f e w (shared w) (Returned v)"
proof -
  have "exec_call P (Suc 0) (CRun h pt) w = Ok (finish h v w)"
    using assms(1) by (auto simp: body_defs)
  moreover have "heap (finish h v w) = (heap w)(h \<mapsto> f\<lparr>status := Final, result := v\<rparr>)"
    using assms(2) by (auto simp: finish_def on_frame_def runnable_def)
  moreover have "fresh_above (finish h v w)"
    using assms(2) by (auto simp: finish_def on_frame_def runnable_def fresh_above_def)
  ultimately show ?thesis
    unfolding run_ok_def
    by (intro exI [of _ "Suc 0"] exI [of _ "finish h v w"])
      (auto simp: same_below_def finish_def on_frame_def)
qed

lemma run_ok_suspend:
  assumes "fetch P pt = CoSuspend op k" and "runnable w h f e"
  shows "run_ok P h pt f e w (shared w) (Blocked op k [])"
proof -
  let ?w = "(set_status h (AwOp None k) w)\<lparr>events := events w @ [Submitted h op]\<rparr>"
  have "exec_call P (Suc 0) (CRun h pt) w = Ok ?w"
    using assms(1) by (simp add: body_defs)
  moreover have "heap ?w = (heap w)(h \<mapsto> f\<lparr>status := AwOp None k\<rparr>)"
    using assms(2) by (simp add: frame_defs runnable_def)
  moreover have "fresh_above ?w"
    using assms(2) by (auto simp: frame_defs runnable_def fresh_above_def)
  moreover have "same_below {h} w ?w"
    by (auto simp: same_below_def frame_defs)
  moreover have "blocked_at w h f e op k [] ?w"
    unfolding blocked_at_def using assms(2) \<open>heap ?w = _\<close>
    by (intro exI [of _ h] exI [of _ "[]"]) (auto simp: runnable_def)
  ultimately show ?thesis
    unfolding run_ok_def
    by (intro exI [of _ "Suc 0"] exI [of _ ?w]) (simp add: set_status_def on_frame_def)
qed

lemma run_ok_call:
  assumes fetch: "fetch P pt = CoAwait p k" and run: "runnable w h f e"
    and callee: "run_ok P (fresh w) p (started_frame e h) e (call_world h f e k w) s1 (Returned v)"
    and kont: "apply_kont k v = Ok pt1"
    and rest: "\<And>w1. runnable w1 h f e \<Longrightarrow> shared w1 = s1 \<Longrightarrow> run_ok P h pt1 f e w1 s' r"
  shows "run_ok P h pt f e w s' r"
proof -
  let ?c = "fresh w" and ?cw = "call_world h f e k w"
  from run have h: "heap w h = Some f" "executor f = Some e" "fresh_above w" "heap w ?c = None"
      "h \<noteq> ?c" "status f = Running"
    using fresh_above_less by (auto simp: runnable_def fresh_above_def)
  from callee obtain n1 w1 where w1: "exec_call P n1 (CRun ?c p) ?cw = Ok w1" "shared w1 = s1"
      "fresh_above w1" "same_below {?c} ?cw w1"
      "heap w1 = (heap ?cw)(?c \<mapsto> (started_frame e h)\<lparr>status := Final, result := v\<rparr>)"
      "submitted (events w1) = submitted (events ?cw)"
    by (auto simp: run_ok_def)
  define w3 where "w3 = set_status h Running (destroy ?c w1)"
  have heap3: "heap w3 = heap w"
    using h w1(5) by (auto simp: w3_def frame_defs destroy_def call_world_def fun_eq_iff)
  have w3: "shared w3 = s1" "fresh w3 = fresh w1" "ready w3 = ready w1"
      "submitted (events w3) = submitted (events w1)"
    using w1(2) by (simp_all add: w3_def frame_defs destroy_def)
  have as: "resumes_as w w3"
    using w1(4,6) w3 heap3 by (auto simp: resumes_as_def same_below_def call_world_def)
  have "fresh_above w3"
    using w1(3,4) h(3) w3(2) heap3 by (auto simp: fresh_above_def same_below_def call_world_def)
  with h heap3 run have "runnable w3 h f e" by (simp add: runnable_def)
  then have "run_ok P h pt1 f e w3 s' r" using w3(1) by (rule rest)
  then show ?thesis using as
  proof (rule run_ok_from)
    fix n2 w' assume n2: "exec_call P n2 (CRun h pt1) w3 = Ok w'"
    define n where "n = max n1 n2"
    have "exec_call P n (CRun ?c p) ?cw = Ok w1"
      by (rule exec_call_Ok_mono [OF w1(1)]) (simp add: n_def)
    moreover have "exec_call P (Suc n) (CRun h pt1) w3 = Ok w'"
      by (rule exec_call_Ok_mono [OF n2]) (simp add: n_def)
    moreover have "take_result ?c k w1 = Ok (pt1, destroy ?c w1)"
      using w1(5) kont by (simp add: take_result_def)
    moreover have "is_done ?c w1 = Ok True"
      using w1(5) by (simp add: is_done_def)
    ultimately have "exec_call P (Suc (Suc (Suc n))) (CRun h pt) w = Ok w'"
      unfolding run_call [OF fetch h(1,2,3)] by (simp only: obind.simps w3_def) simp
    then show "\<exists>m. exec_call P m (CRun h pt) w = Ok w'" ..
  qed
qed

lemma run_ok_call_blocked:
  assumes fetch: "fetch P pt = CoAwait p k" and run: "runnable w h f e"
    and callee: "run_ok P (fresh w) p (started_frame e h) e (call_world h f e k w) s1 (Blocked op kr ks)"
  shows "run_ok P h pt f e w s1 (Blocked op kr (ks @ [k]))"
proof -
  let ?c = "fresh w" and ?cw = "call_world h f e k w"
  from run have h: "heap w h = Some f" "executor f = Some e" "fresh_above w"
      "h < ?c" "result f = None"
    using fresh_above_less by (auto simp: runnable_def)
  from callee obtain n w1 where w1: "exec_call P n (CRun ?c p) ?cw = Ok w1" "shared w1 = s1"
      "fresh_above w1" "same_below {?c} ?cw w1"
      "blocked_at ?cw ?c (started_frame e h) e op kr ks w1"
    by (auto simp: run_ok_def)
  from w1(5) obtain l hs fl st where chain: "suspended_chain (heap w1) e l hs ks"
      "distinct (l # hs)" "last (l # hs) = ?c" "\<forall>x \<in> set (butlast (l # hs)). fresh ?cw \<le> x"
    and leaf: "heap w1 l = Some fl" "status fl = AwOp None kr" "executor fl = Some e" "result fl = None"
    and cf: "heap w1 ?c = Some ((started_frame e h)\<lparr>status := st\<rparr>)" "\<not> is_Final st"
    and sub: "submitted (events w1) = submitted (events ?cw) @ [(l, op)]"
    unfolding blocked_at_def by blast
  have fh: "heap w1 h = Some (f\<lparr>status := AwTask ?c k\<rparr>)"
    using w1(4) h(4) by (auto simp: same_below_def call_world_def)
  have "set (l # hs) = insert ?c (set (butlast (l # hs)))"
    by (metis append_butlast_last_id chain(3) list.distinct(1) list.set(1,2) set_append
        sup_commute insert_is_Un)
  moreover have "fresh ?cw = Suc ?c" by (simp add: call_world_def)
  ultimately have above: "\<forall>x \<in> set (l # hs). ?c \<le> x"
    using chain(4) by (metis Suc_leD insert_iff order_refl)
  have chain': "suspended_chain (heap w1) e l (hs @ [h]) (ks @ [k])"
    using h(2,5)
    by (intro suspended_chain_snoc [OF chain(1,3) cf(1) _ _ fh]) (simp_all add: started_frame_def)
  have "blocked_at w h f e op kr (ks @ [k]) w1"
    unfolding blocked_at_def
  proof (intro exI [of _ l] exI [of _ "hs @ [h]"] conjI)
    show "distinct (l # hs @ [h])" using chain(2) above h(4) by fastforce
    show "\<forall>x \<in> set (butlast (l # hs @ [h])). fresh w \<le> x" using above by (simp add: butlast_append)
    show "\<exists>st. heap w1 h = Some (f\<lparr>status := st\<rparr>) \<and> \<not> is_Final st" using fh by auto
    show "submitted (events w1) = submitted (events w) @ [(l, op)]"
      using sub by (simp add: call_world_def)
  qed (use chain' leaf in auto)
  moreover have "exec_call P (Suc (Suc (Suc n))) (CRun h pt) w = Ok w1"
    unfolding run_call [OF fetch h(1,2,3)] using w1(1) cf by (simp add: is_done_def)
  moreover have "same_below {h} w w1"
    using w1(4) by (auto simp: same_below_def call_world_def)
  ultimately show ?thesis
    using w1(2,3) unfolding run_ok_def by (metis run_post.simps(2))
qed

theorem run_refines_eval:
  "eval P pt s s' r \<Longrightarrow> shared w = s \<Longrightarrow> runnable w h f e \<Longrightarrow> run_ok P h pt f e w s' r"
proof (induction arbitrary: w h f rule: eval.induct)
  case (eval_step pt g s s1 pt1 s2 r)
  have "runnable (w\<lparr>shared := s1\<rparr>) h f e"
    using eval_step.prems(2) by (simp add: runnable_def fresh_above_def)
  then have "run_ok P h pt1 f e (w\<lparr>shared := s1\<rparr>) s2 r" by (intro eval_step.IH) simp_all
  have "g (shared w) = (s1, pt1)" using eval_step.hyps(2) eval_step.prems(1) by simp
  with eval_step.hyps(1) show ?case
    using \<open>run_ok P h pt1 f e (w\<lparr>shared := s1\<rparr>) s2 r\<close> by (rule run_ok_step)
next
  case (eval_suspend pt op k s)
  then show ?case by (metis run_ok_suspend)
next
  case (eval_call pt p k s s1 v pt1 s2 r)
  have "run_ok P (fresh w) p (started_frame e h) e (call_world h f e k w) s1 (Returned v)"
    using eval_call.prems by (intro eval_call.IH(1) runnable_call_world) (simp add: call_world_def)
  then show ?case
    using eval_call.IH(2) by (rule run_ok_call [OF eval_call.hyps(1) eval_call.prems(2) _ eval_call.hyps(3)])
next
  case (eval_call_blocked pt p k s s1 op kr ks)
  have "run_ok P (fresh w) p (started_frame e h) e (call_world h f e k w) s1 (Blocked op kr ks)"
    using eval_call_blocked.prems
    by (intro eval_call_blocked.IH runnable_call_world) (simp add: call_world_def)
  then show ?case by (rule run_ok_call_blocked [OF eval_call_blocked.hyps(1) eval_call_blocked.prems(2)])
qed (metis run_ok_return)+

section \<open>Resuming a stack of frames\<close>

definition root_frame :: "(hdl \<Rightarrow> ('p, 'r, 'v) frame option) \<Rightarrow> hdl \<Rightarrow> bool" where
  "root_frame H x \<longleftrightarrow> (\<exists>fr. H x = Some fr \<and> parent fr = None \<and> destroyOnDone fr)"

text \<open>
  A spawned job blocked on an operation: its leaf \<open>l\<close> waits for the completion with \<open>kr\<close>, the
  frames \<open>hs\<close> above it wait with \<open>ks\<close>, and the topmost one was spawned.
\<close>

definition job_stack :: "('p, 'op, 'r, 'v, 's) world \<Rightarrow> exec \<Rightarrow> hdl \<Rightarrow> hdl list
    \<Rightarrow> ('r \<Rightarrow> 'p) \<Rightarrow> ('p, 'v) kont list \<Rightarrow> bool" where
  "job_stack w e l hs kr ks \<longleftrightarrow> suspended_chain (heap w) e l hs ks \<and> distinct (l # hs) \<and>
     fresh_above w \<and> root_frame (heap w) (last (l # hs)) \<and>
     (\<exists>fl. heap w l = Some fl \<and> status fl = AwOp None kr \<and> executor fl = Some e \<and> result fl = None)"

lemma suspended_chain_append:
  assumes "suspended_chain H e l hs ks" and "last (l # hs) = h" and "suspended_chain H e h hs' ks'"
  shows "suspended_chain H e l (hs @ hs') (ks @ ks')"
  using assms by (induction H e l hs ks rule: suspended_chain.induct) (auto split: if_splits)

lemma suspended_chain_leaf:
  assumes "suspended_chain H e l hs ks" and "H l = Some fl" and "H' l = Some fl'"
    and "parent fl' = parent fl" and "destroyOnDone fl' = destroyOnDone fl"
    and "\<And>x. x \<in> set hs \<Longrightarrow> H' x = H x"
  shows "suspended_chain H' e l hs ks"
proof (cases hs)
  case Nil
  with assms(1) show ?thesis by (cases ks) auto
next
  case (Cons h hs')
  with assms(1) obtain k ks' where ks: "ks = k # ks'" by (cases ks) auto
  have "suspended_chain H' e h hs' ks'"
    using assms(1,6) Cons ks by (auto intro: suspended_chain_cong [where H = H])
  then show ?thesis using assms Cons ks by auto
qed

lemma suspended_chain_below:
  assumes "suspended_chain H e l hs ks" and "x \<in> set hs"
  shows "H x \<noteq> None"
  using suspended_chain_frames [OF assms] by auto

fun resume_post :: "('p, 'op, 'r, 'v, 's) world \<Rightarrow> exec \<Rightarrow> hdl list
    \<Rightarrow> ('p, 'op, 'r, 'v) stop \<Rightarrow> ('p, 'op, 'r, 'v, 's) world \<Rightarrow> bool" where
  "resume_post w e hs (Returned v) w' =
     ((\<forall>x \<in> set hs. heap w' x = None) \<and> submitted (events w') = submitted (events w))"
| "resume_post w e hs (Blocked op kr ks) w' =
     (\<exists>l hs'. job_stack w' e l hs' kr ks \<and> last (l # hs') = last hs \<and>
        submitted (events w') = submitted (events w) @ [(l, op)])"

definition resume_ok :: "('pc, 'op, 'r, 'v, 's) prog \<Rightarrow> hdl \<Rightarrow> hdl list \<Rightarrow> ('pc, 'v) point \<Rightarrow> exec
    \<Rightarrow> ('pc, 'op, 'r, 'v, 's) machine \<Rightarrow> 's \<Rightarrow> (('pc, 'v) point, 'op, 'r, 'v) stop \<Rightarrow> bool" where
  "resume_ok P l hs pt e w s' r \<longleftrightarrow> (\<exists>w'. resumes P l pt w w' \<and> shared w' = s' \<and> fresh_above w' \<and>
     same_below (set (l # hs)) w w' \<and> resume_post w e (l # hs) r w')"

lemma blocked_chain:
  assumes eval: "eval P pt (shared w) s' (Blocked op kr ks')" and run: "runnable w l f e"
    and chain: "suspended_chain (heap w) e l hs ks" and dist: "distinct (l # hs)"
  obtains n w1 leaf hs' fl st where "exec_call P n (CRun l pt) w = Ok w1" "shared w1 = s'" "fresh_above w1"
    "same_below {l} w w1" "suspended_chain (heap w1) e leaf hs' (ks' @ ks)" "distinct (leaf # hs')"
    "last (leaf # hs') = last (l # hs)" "\<forall>x \<in> set (leaf # hs'). x \<in> set (l # hs) \<or> fresh w \<le> x"
    "heap w1 leaf = Some fl" "status fl = AwOp None kr" "executor fl = Some e" "result fl = None"
    "heap w1 l = Some (f\<lparr>status := st\<rparr>)" "\<not> is_Final st" "\<forall>x \<in> set hs. heap w1 x = heap w x"
    "submitted (events w1) = submitted (events w) @ [(leaf, op)]"
proof -
  from run_refines_eval [OF eval refl run] obtain n w1 where
    w1: "exec_call P n (CRun l pt) w = Ok w1" "shared w1 = s'" "fresh_above w1"
        "same_below {l} w w1" "blocked_at w l f e op kr ks' w1"
    by (auto simp: run_ok_def)
  from w1(5) obtain l' hs1 fl st where sub: "suspended_chain (heap w1) e l' hs1 ks'"
      "distinct (l' # hs1)" "last (l' # hs1) = l" "\<forall>x \<in> set (butlast (l' # hs1)). fresh w \<le> x"
    and leaf: "heap w1 l' = Some fl" "status fl = AwOp None kr" "executor fl = Some e" "result fl = None"
    and lf: "heap w1 l = Some (f\<lparr>status := st\<rparr>)" "\<not> is_Final st"
    and ev: "submitted (events w1) = submitted (events w) @ [(l', op)]"
    unfolding blocked_at_def by blast
  have below: "x < fresh w" if "x \<in> set (l # hs)" for x
    using that run suspended_chain_below [OF chain] fresh_above_less
    by (fastforce simp: runnable_def)
  have same: "heap w1 x = heap w x" if "x \<in> set hs" for x
    using that below [of x] dist w1(4) by (auto simp: same_below_def)
  have "suspended_chain (heap w1) e l hs ks"
    using run same lf(1)
    by (intro suspended_chain_leaf [OF chain, of f "heap w1" "f\<lparr>status := st\<rparr>"]) (auto simp: runnable_def)
  then have joined: "suspended_chain (heap w1) e l' (hs1 @ hs) (ks' @ ks)"
    by (rule suspended_chain_append [OF sub(1,3)])
  have eq: "l' # hs1 = butlast (l' # hs1) @ [l]"
    by (metis append_butlast_last_id list.distinct(1) sub(3))
  then have elems: "set (l' # hs1) = insert l (set (butlast (l' # hs1)))"
    by (metis list.set(1,2) set_append sup_commute insert_is_Un)
  have "set (butlast (l' # hs1)) \<inter> set hs = {}"
    using sub(4) below by (metis disjoint_iff leD list.set_intros(2))
  with elems dist have "set (l' # hs1) \<inter> set hs = {}" by simp
  with sub(2) dist have "distinct (l' # hs1 @ hs)" by auto
  moreover have "last (l' # hs1 @ hs) = last (l # hs)" using sub(3) by (cases hs) auto
  moreover have "\<forall>x \<in> set (l' # hs1 @ hs). x \<in> set (l # hs) \<or> fresh w \<le> x"
    using elems sub(4) by auto
  ultimately show ?thesis using that [OF w1(1-4) joined _ _ _ leaf lf _ ev] same by blast
qed

lemma resume_ok_blocked:
  assumes eval: "eval P pt (shared w) s' (Blocked op kr ks')" and run: "runnable w l f e"
    and chain: "suspended_chain (heap w) e l hs ks" and dist: "distinct (l # hs)"
    and root: "root_frame (heap w) (last (l # hs))"
  shows "resume_ok P l hs pt e w s' (Blocked op kr (ks' @ ks))"
proof -
  obtain n w1 leaf hs' fl st where
    w1: "exec_call P n (CRun l pt) w = Ok w1" "shared w1 = s'" "fresh_above w1" "same_below {l} w w1"
    and stack: "suspended_chain (heap w1) e leaf hs' (ks' @ ks)" "distinct (leaf # hs')" "last (leaf # hs') = last (l # hs)"
    and leaf: "heap w1 leaf = Some fl" "status fl = AwOp None kr" "executor fl = Some e" "result fl = None"
    and lf: "heap w1 l = Some (f\<lparr>status := st\<rparr>)" "\<not> is_Final st" and same: "\<forall>x \<in> set hs. heap w1 x = heap w x"
    and ev: "submitted (events w1) = submitted (events w) @ [(leaf, op)]"
    by (rule blocked_chain [OF eval run chain dist]) (rule that; assumption)
  have "root_frame (heap w1) (last (l # hs))"
  proof (cases "hs = []")
    case True
    with root lf(1) run show ?thesis by (auto simp: root_frame_def runnable_def)
  next
    case False
    then have "last (l # hs) \<in> set hs" by simp
    with root same show ?thesis by (auto simp: root_frame_def)
  qed
  then have "job_stack w1 e leaf hs' kr (ks' @ ks)"
    using w1(3) stack leaf by (simp add: job_stack_def)
  then have "resume_post w e (l # hs) (Blocked op kr (ks' @ ks)) w1"
    unfolding resume_post.simps using stack(3) ev by blast
  moreover have "resumes P l pt w w1"
    using w1(1) lf by (intro resumesI [of _ n]) (simp add: after_resume_def)
  moreover have "same_below (set (l # hs)) w w1"
    using w1(4) by (auto simp: same_below_def)
  ultimately show ?thesis
    using w1(2,3) unfolding resume_ok_def by blast
qed

lemma resume_ok_finished:
  assumes eval: "eval P pt (shared w) s' (Returned v)" and run: "runnable w l f e"
    and root: "root_frame (heap w) l"
  shows "resume_ok P l [] pt e w s' (Returned v)"
proof -
  from run_refines_eval [OF eval refl run] obtain n w1 where
    w1: "exec_call P n (CRun l pt) w = Ok w1" "shared w1 = s'" "fresh_above w1"
        "same_below {l} w w1" "heap w1 = (heap w)(l \<mapsto> f\<lparr>status := Final, result := v\<rparr>)"
        "submitted (events w1) = submitted (events w)"
    by (auto simp: run_ok_def)
  have "resumes P l pt w (destroy l w1)"
    using w1(1,5) root run
    by (intro resumesI [of _ n]) (auto simp: after_resume_def root_frame_def runnable_def)
  then show ?thesis
    using w1 unfolding resume_ok_def
    by (intro exI [of _ "destroy l w1"]) (auto simp: same_below_def destroy_def fresh_above_def)
qed

text \<open>A finished frame that is not the root hands over to its parent.\<close>

lemma ends_parent:
  assumes run: "exec_call P n (CRun l pt) w = Ok w1"
    and lf: "heap w1 l = Some fl" "status fl = Final" "\<not> destroyOnDone fl" "parent fl = Some h"
    and hf: "heap w1 h = Some fh" "status fh = AwTask l k" "h \<noteq> l"
    and rest: "\<And>m m'. n2 \<le> m \<Longrightarrow> n2 \<le> m' \<Longrightarrow> obind (apply_kont k (result fl))
        (\<lambda>pt1. obind (exec_call P m (CRun h pt1) (set_status h Running (destroy l w1))) (after_resume (exec_call P m') h)) = r"
  shows "ends P l pt w r"
proof -
  have "obind (exec_call P i (CRun l pt) w) (after_resume (exec_call P j) l) = r"
    if "n \<le> i" "Suc (Suc n2) \<le> j" for i j
  proof -
    from that(2) obtain m where m: "j = Suc (Suc m)" "n2 \<le> m" by (metis Suc_le_D Suc_le_mono)
    have "exec_call P (Suc m) (CResumeHandle h) w1 = obind (apply_kont k (result fl))
        (\<lambda>pt1. exec_call P m (CRun h pt1) (set_status h Running (destroy l w1)))"
      using lf hf by (cases "apply_kont k (result fl)")
        (simp_all add: dispatch_def resume_handle_body_def is_done_def take_result_def)
    moreover have "exec_call P (Suc (Suc m)) (CResume h) w1 =
        obind (exec_call P (Suc m) (CResumeHandle h) w1) (after_resume (exec_call P (Suc m)) h)"
      by (simp add: dispatch_def Resume_body_def)
    ultimately have "exec_call P (Suc (Suc m)) (CResume h) w1 = r"
      using rest [of m "Suc m"] m(2) by (cases "apply_kont k (result fl)") (simp_all del: exec_call.simps)
    then have "after_resume (exec_call P j) l w1 = r"
      using lf by (simp add: after_resume_def m(1))
    then show ?thesis using exec_call_Ok_mono [OF run that(1)] by simp
  qed
  then show ?thesis unfolding ends_def by (intro exI [of _ "max n (Suc (Suc n2))"]) simp
qed

text \<open>A frame that has returned, and the frame that awaits it.\<close>

lemma returned_leaf:
  assumes eval: "eval P pt (shared w) s1 (Returned v)" and run: "runnable w l f e"
    and chain: "suspended_chain (heap w) e l (h # hs) (k # ks)" and dist: "distinct (l # h # hs)"
  obtains n w1 fl fh where "exec_call P n (CRun l pt) w = Ok w1"
    "heap w1 l = Some fl" "status fl = Final" "\<not> destroyOnDone fl" "parent fl = Some h" "result fl = v"
    "heap w1 h = Some fh" "status fh = AwTask l k" "h \<noteq> l"
    "heap w h = Some fh" "executor fh = Some e" "result fh = None" "suspended_chain (heap w) e h hs ks"
    "heap w1 = (heap w)(l \<mapsto> fl)" "shared w1 = s1" "fresh_above w1" "same_below {l} w w1"
    "submitted (events w1) = submitted (events w)"
proof -
  from run_refines_eval [OF eval refl run] obtain n w1 where
    w1: "exec_call P n (CRun l pt) w = Ok w1" "shared w1 = s1" "fresh_above w1"
        "same_below {l} w w1" "heap w1 = (heap w)(l \<mapsto> f\<lparr>status := Final, result := v\<rparr>)"
        "submitted (events w1) = submitted (events w)"
    by (auto simp: run_ok_def)
  from chain run obtain fh where fl: "parent f = Some h" "\<not> destroyOnDone f"
    and fh: "heap w h = Some fh" "status fh = AwTask l k" "executor fh = Some e" "result fh = None"
    and chain1: "suspended_chain (heap w) e h hs ks"
    by (auto simp: runnable_def)
  show ?thesis
    by (rule that [OF w1(1) _ _ _ _ _ _ fh(2) _ fh(1,3,4) chain1 w1(5,2,3,4,6)]) (use w1(5) fl fh(1) dist in auto)
qed

lemma return_to_parent:
  assumes eval: "eval P pt (shared w) s1 (Returned v)" and run: "runnable w l f e"
    and chain: "suspended_chain (heap w) e l (h # hs) (k # ks)" and dist: "distinct (l # h # hs)"
    and kont: "apply_kont k v = Ok pt1"
  obtains w2 fh where "heap w h = Some fh" "shared w2 = s1" "runnable w2 h (fh\<lparr>status := Running\<rparr>) e"
    "heap w2 = (heap w)(l := None, h \<mapsto> fh\<lparr>status := Running\<rparr>)" "suspended_chain (heap w2) e h hs ks"
    "fresh w \<le> fresh w2" "ready w2 = ready w" "submitted (events w2) = submitted (events w)"
    "\<And>w'. resumes P h pt1 w2 w' \<Longrightarrow> resumes P l pt w w'" "\<And>r. ends P h pt1 w2 r \<Longrightarrow> ends P l pt w r"
proof -
  from returned_leaf [OF eval run chain dist] obtain n w1 fl fh where
    call: "exec_call P n (CRun l pt) w = Ok w1"
    and lf: "heap w1 l = Some fl" "status fl = Final" "\<not> destroyOnDone fl" "parent fl = Some h" "result fl = v"
    and hf: "heap w1 h = Some fh" "status fh = AwTask l k" "h \<noteq> l"
    and fh: "heap w h = Some fh" "executor fh = Some e" "result fh = None"
    and chain1: "suspended_chain (heap w) e h hs ks"
    and heap1: "heap w1 = (heap w)(l \<mapsto> fl)"
    and w1: "shared w1 = s1" "fresh_above w1" "same_below {l} w w1" "submitted (events w1) = submitted (events w)" by metis
  let ?w2 = "set_status h Running (destroy l w1)"
  have heap2: "heap ?w2 = (heap w)(l := None, h \<mapsto> fh\<lparr>status := Running\<rparr>)"
    using heap1 fh(1) dist run by (auto simp: frame_defs destroy_def fun_eq_iff)
  have fresh2: "fresh ?w2 = fresh w1" "shared ?w2 = s1" "ready ?w2 = ready w"
      "submitted (events ?w2) = submitted (events w)"
    using w1 by (auto simp: frame_defs destroy_def same_below_def)
  have "fresh w \<le> fresh ?w2" using w1(3) fresh2(1) by (simp add: same_below_def)
  moreover have "runnable ?w2 h (fh\<lparr>status := Running\<rparr>) e"
    using heap2 fh w1(2) heap1 fresh2(1) by (auto simp: runnable_def fresh_above_def split: if_splits)
  moreover have "suspended_chain (heap ?w2) e h hs ks"
    using heap2 dist fh(1)
    by (intro suspended_chain_leaf [OF chain1, of fh "heap ?w2" "fh\<lparr>status := Running\<rparr>"]) auto
  moreover have ends: "ends P l pt w r" if "ends P h pt1 ?w2 r" for r
  proof -
    from that obtain n2 where "\<forall>m \<ge> n2. \<forall>m' \<ge> n2.
        obind (exec_call P m (CRun h pt1) ?w2) (after_resume (exec_call P m') h) = r" unfolding ends_def by blast
    then show ?thesis using kont lf(5) by (intro ends_parent [OF call lf(1-4) hf, where ?n2.0 = n2]) simp
  qed
  ultimately show ?thesis using that [OF fh(1) fresh2(2) _ heap2] fresh2(3,4) unfolding resumes_ends by blast
qed

lemma resume_ok_return:
  assumes eval: "eval P pt (shared w) s1 (Returned v)" and run: "runnable w l f e"
    and chain: "suspended_chain (heap w) e l (h # hs) (k # ks)" and dist: "distinct (l # h # hs)"
    and root: "root_frame (heap w) (last (h # hs))" and kont: "apply_kont k v = Ok pt1"
    and rest: "\<And>w1 fh. shared w1 = s1 \<Longrightarrow> runnable w1 h fh e \<Longrightarrow>
        suspended_chain (heap w1) e h hs ks \<Longrightarrow> root_frame (heap w1) (last (h # hs)) \<Longrightarrow>
        resume_ok P h hs pt1 e w1 s2 r"
  shows "resume_ok P l (h # hs) pt e w s2 r"
proof -
  from return_to_parent [OF eval run chain dist kont] obtain w2 fh where
    w2: "heap w h = Some fh" "shared w2 = s1" "runnable w2 h (fh\<lparr>status := Running\<rparr>) e"
      "heap w2 = (heap w)(l := None, h \<mapsto> fh\<lparr>status := Running\<rparr>)" "suspended_chain (heap w2) e h hs ks"
      "fresh w \<le> fresh w2" "ready w2 = ready w" "submitted (events w2) = submitted (events w)"
    and resumes: "\<And>w'. resumes P h pt1 w2 w' \<Longrightarrow> resumes P l pt w w'" by blast
  have "root_frame (heap w2) (last (h # hs))"
    using root w2(1,4) dist by (cases "hs = []") (auto simp: root_frame_def)
  with w2 have "resume_ok P h hs pt1 e w2 s2 r" by (intro rest)
  then obtain w' where w': "resumes P h pt1 w2 w'" "shared w' = s2" "fresh_above w'"
      "same_below (set (h # hs)) w2 w'" "resume_post w2 e (h # hs) r w'"
    by (auto simp: resume_ok_def)
  have "same_below (set (l # h # hs)) w w'"
    using w'(4) w2(4,6,7) by (auto simp: same_below_def)
  moreover have "resume_post w e (l # h # hs) r w'"
  proof (cases r)
    case (Returned v')
    have "heap w' l = None"
      using w'(4) dist w2(4,6) run fresh_above_less [of w l]
      by (auto simp: same_below_def runnable_def)
    with Returned w'(5) w2(8) show ?thesis by simp
  next
    case (Blocked op kr ks')
    with w'(5) w2(8) show ?thesis by simp
  qed
  ultimately show ?thesis using resumes [OF w'(1)] w'(2,3) by (auto simp: resume_ok_def)
qed

lemma resume_refines_unwind:
  fixes P :: "('pc, 'op, 'r, 'v, 's) prog"
  shows "unwind P pt ks s s' r \<Longrightarrow> shared w = s \<Longrightarrow> runnable w l f e \<Longrightarrow>
     suspended_chain (heap w) e l hs ks \<Longrightarrow> distinct (l # hs) \<Longrightarrow>
     root_frame (heap w) (last (l # hs)) \<Longrightarrow> resume_ok P l hs pt e w s' r"
proof (induction arbitrary: w l f hs rule: unwind.induct)
  case (unwind_blocked pt s s1 op kr ks' ks)
  then show ?case by (auto intro: resume_ok_blocked)
next
  case (unwind_finished pt s s1 v)
  then have "hs = []" using suspended_chain_length by fastforce
  with unwind_finished show ?case by (auto intro: resume_ok_finished)
next
  case (unwind_return pt s s1 v k pt1 ks s2 r)
  then obtain h hs' where hs: "hs = h # hs'" by (cases hs) auto
  show ?case unfolding hs
  proof (rule resume_ok_return)
    show "eval P pt (shared w) s1 (Returned v)" using unwind_return by simp
    show "root_frame (heap w) (last (h # hs'))" using unwind_return.prems hs by simp
    fix w1 :: "('pc, 'op, 'r, 'v, 's) machine" and fh
    assume "shared w1 = s1" "runnable w1 h fh e" "suspended_chain (heap w1) e h hs' ks"
      "root_frame (heap w1) (last (h # hs'))"
    then show "resume_ok P h hs' pt1 e w1 s2 r"
      using unwind_return.prems(4) hs by (intro unwind_return.IH) auto
  qed (use unwind_return.prems unwind_return.hyps hs in simp_all)
qed

section \<open>Spawning a job and completing its operations\<close>

definition ends_in :: "('pc, 'op, 'r, 'v, 's) machine \<Rightarrow> exec \<Rightarrow> hdl list \<Rightarrow> 's
    \<Rightarrow> (('pc, 'v) point, 'op, 'r, 'v) stop \<Rightarrow> ('pc, 'op, 'r, 'v, 's) machine \<Rightarrow> bool" where
  "ends_in w e hs s' r w' \<longleftrightarrow> shared w' = s' \<and> fresh_above w' \<and> same_below (set hs) w w' \<and>
     resume_post w e hs r w'"

lemma Resume_ends:
  assumes "ends P l pt w0 r"
    and "\<And>n. exec_call P (Suc n) (CResumeHandle l) w = exec_call P n (CRun l pt) w0"
  shows "\<exists>n. \<forall>m \<ge> n. Resume P m l w = r"
proof -
  from assms(1) obtain n where n: "\<And>m m'. n \<le> m \<Longrightarrow> n \<le> m' \<Longrightarrow>
      obind (exec_call P m (CRun l pt) w0) (after_resume (exec_call P m') l) = r"
    unfolding ends_def by metis
  have "Resume P m l w = r" if "Suc (Suc n) \<le> m" for m
  proof -
    from that obtain m1 where m1: "m = Suc (Suc m1)" "n \<le> m1"
      by (metis Suc_le_D Suc_le_mono)
    have "Resume P m l w = obind (exec_call P (Suc m1) (CResumeHandle l) w)
        (after_resume (exec_call P (Suc m1)) l)"
      by (simp add: m1(1) dispatch_def Resume_body_def)
    also have "\<dots> = r" unfolding assms(2) using n [of m1 "Suc m1"] m1(2) by simp
    finally show ?thesis .
  qed
  then show ?thesis by blast
qed

lemmas Resume_from_resumes = Resume_ends [OF resumes_ends [THEN iffD1]]

lemma leaf_runs:
  assumes fl: "heap w l = Some fl" "status fl = AwOp None kr" "executor fl = Some e" "result fl = None"
    and st: "fresh_above w" "suspended_chain (heap w) e l hs ks" "distinct (l # hs)"
  obtains w0 where "runnable w0 l (fl\<lparr>status := Running\<rparr>) e" "shared w0 = shared w"
    "heap w0 = (heap w)(l \<mapsto> fl\<lparr>status := Running\<rparr>)" "suspended_chain (heap w0) e l hs ks"
    "fresh w0 = fresh w" "ready w0 = ready w" "events w0 = events w"
    "\<And>n. exec_call P (Suc n) (CResumeHandle l) (complete l x w) = exec_call P n (CRun l (kr x)) w0"
proof -
  let ?wc = "complete l x w"
  let ?w0 = "set_status l Running ?wc"
  have heap0: "heap ?w0 = (heap w)(l \<mapsto> fl\<lparr>status := Running\<rparr>)"
    using fl by (simp add: complete_def frame_defs fun_eq_iff)
  have rest0: "shared ?w0 = shared w" "fresh ?w0 = fresh w" "ready ?w0 = ready w" "events ?w0 = events w"
    by (simp_all add: complete_def frame_defs)
  have "runnable ?w0 l (fl\<lparr>status := Running\<rparr>) e"
    using heap0 fl st(1) rest0(2) fresh_above_less [OF st(1) fl(1)]
    by (auto simp: runnable_def fresh_above_def)
  moreover have "suspended_chain (heap ?w0) e l hs ks"
    using heap0 fl(1) st(3)
    by (intro suspended_chain_leaf [OF st(2), of fl "heap ?w0" "fl\<lparr>status := Running\<rparr>"]) auto
  moreover have "exec_call P (Suc n) (CResumeHandle l) ?wc = exec_call P n (CRun l (kr x)) ?w0" for n
    using fl by (simp add: dispatch_def resume_handle_body_def complete_def on_frame_def)
  ultimately show ?thesis using that [OF _ rest0(1) heap0 _ rest0(2-4)] by blast
qed

lemma complete_runs:
  assumes stack: "job_stack w e l hs kr ks"
  obtains w0 f where "runnable w0 l f e" "shared w0 = shared w" "suspended_chain (heap w0) e l hs ks"
    "root_frame (heap w0) (last (l # hs))" "fresh w0 = fresh w" "ready w0 = ready w" "events w0 = events w"
    "\<And>x. x \<noteq> l \<Longrightarrow> heap w0 x = heap w x"
    "\<And>n. exec_call P (Suc n) (CResumeHandle l) (complete l x w) = exec_call P n (CRun l (kr x)) w0"
proof -
  from stack obtain fl where fl: "heap w l = Some fl" "status fl = AwOp None kr"
      "executor fl = Some e" "result fl = None"
    and st: "fresh_above w" "suspended_chain (heap w) e l hs ks" "distinct (l # hs)"
    and root: "root_frame (heap w) (last (l # hs))"
    by (auto simp: job_stack_def)
  from leaf_runs [OF fl st] obtain w0 where
    w0: "runnable w0 l (fl\<lparr>status := Running\<rparr>) e" "shared w0 = shared w"
      "heap w0 = (heap w)(l \<mapsto> fl\<lparr>status := Running\<rparr>)" "suspended_chain (heap w0) e l hs ks"
      "fresh w0 = fresh w" "ready w0 = ready w" "events w0 = events w"
      "\<And>n. exec_call P (Suc n) (CResumeHandle l) (complete l x w) = exec_call P n (CRun l (kr x)) w0" by blast
  moreover have "root_frame (heap w0) (last (l # hs))"
    using st(3) root w0(3) fl(1) by (auto simp: root_frame_def)
  ultimately show ?thesis using that [OF w0(1,2,4) _ w0(5-7) _ w0(8)] by simp
qed

lemma complete_refines:
  assumes stack: "job_stack w e l hs kr ks" and unwind: "unwind P (kr x) ks (shared w) s' r"
  shows "\<exists>n w'. (\<forall>m \<ge> n. Resume P m l (complete l x w) = Ok w') \<and> ends_in w e (l # hs) s' r w'"
proof -
  from complete_runs [OF stack] obtain w0 f where
    w0: "runnable w0 l f e" "shared w0 = shared w" "suspended_chain (heap w0) e l hs ks"
      "root_frame (heap w0) (last (l # hs))" "fresh w0 = fresh w" "ready w0 = ready w" "events w0 = events w"
    and same: "\<And>x. x \<noteq> l \<Longrightarrow> heap w0 x = heap w x"
    and calls: "\<And>n. exec_call P (Suc n) (CResumeHandle l) (complete l x w) = exec_call P n (CRun l (kr x)) w0"
    by blast
  have "distinct (l # hs)" using stack by (simp add: job_stack_def)
  from resume_refines_unwind [OF unwind w0(2,1,3) this w0(4)] obtain w' where
    w': "resumes P l (kr x) w0 w'" "shared w' = s'" "fresh_above w'"
      "same_below (set (l # hs)) w0 w'" "resume_post w0 e (l # hs) r w'"
    by (auto simp: resume_ok_def)
  have "\<exists>n. \<forall>m \<ge> n. Resume P m l (complete l x w) = Ok w'"
    by (rule Resume_from_resumes [OF w'(1) calls])
  moreover have "same_below (set (l # hs)) w w'"
    using w'(4) same w0(5,6) by (auto simp: same_below_def)
  moreover have "resume_post w e (l # hs) r w'"
    using w'(5) w0(7) by (cases r) simp_all
  ultimately show ?thesis using w'(2,3) by (auto simp: ends_in_def)
qed

lemma eval_unwind: "eval P pt s s' r \<Longrightarrow> unwind P pt [] s s' r"
  by (cases r) (use unwind_finished unwind_blocked [where ks = "[]"] in fastforce)+

lemma spawn_refines:
  assumes mode: "mode P e = Immediate" and fresh: "fresh_above w"
    and eval: "eval P (Body pc) (shared w) s' r"
  shows "\<exists>n w'. (\<forall>m \<ge> n. Spawn P m e pc w = Ok w') \<and> ends_in w e [fresh w] s' r w'"
proof -
  let ?c = "fresh w"
  let ?f = "\<lparr>status = Initial (Body pc), result = None, destroyOnDone = True,
     executor = Some e, parent = None\<rparr>"
  let ?w1 = "w\<lparr>fresh := Suc ?c, heap := (heap w)(?c \<mapsto> ?f)\<rparr>"
  let ?w0 = "set_status ?c Running ?w1"
  have run: "runnable ?w0 ?c (?f\<lparr>status := Running\<rparr>) e"
    using fresh by (auto simp: runnable_def fresh_above_def frame_defs)
  then have "root_frame (heap ?w0) ?c" by (auto simp: runnable_def root_frame_def)
  then have "resume_ok P ?c [] (Body pc) e ?w0 s' r"
    using run by (intro resume_refines_unwind [OF eval_unwind [OF eval]]) (simp_all add: frame_defs)
  then obtain w' where w': "resumes P ?c (Body pc) ?w0 w'" "shared w' = s'" "fresh_above w'"
      "same_below (set [?c]) ?w0 w'" "resume_post ?w0 e [?c] r w'"
    by (auto simp: resume_ok_def)
  have "exec_call P (Suc n) (CResumeHandle ?c) ?w1 = exec_call P n (CRun ?c (Body pc)) ?w0" for n
    by (simp add: dispatch_def resume_handle_body_def)
  then obtain n where n: "\<And>m. n \<le> m \<Longrightarrow> Resume P m ?c ?w1 = Ok w'"
    using Resume_from_resumes [OF w'(1)] by metis
  have "Spawn P m e pc w = Ok w'" if "Suc (Suc n) \<le> m" for m
  proof -
    from that obtain m1 where m1: "m = Suc (Suc m1)" "n \<le> m1"
      by (metis Suc_le_D Suc_le_mono)
    have "Spawn P m e pc w = Resume P m1 ?c ?w1"
      using mode by (simp add: m1(1) Spawn_def allocate_def new_frame_def dispatch_def Spawn_body_def
          spawn_job_body_def on_frame_def)
    then show ?thesis using n m1(2) by simp
  qed
  moreover have "same_below (set [?c]) w w'"
    using w'(4) by (auto simp: same_below_def frame_defs)
  moreover have "resume_post w e [?c] r w'"
    using w'(5) by (cases r) (simp_all add: frame_defs)
  ultimately show ?thesis using w'(2,3) by (auto simp: ends_in_def)
qed

section \<open>Whole conversations\<close>

text \<open>
  \<open>conversation P s r xs s' r' ops\<close>: a call stack stopped at \<open>r\<close> is given the completions \<open>xs\<close>
  one after the other; it issues the operations \<open>ops\<close> and stops at \<open>r'\<close>.  \<open>serves\<close> is what a
  thread of the program does: it completes the operation submitted last and resumes its job.
\<close>

fun pending :: "('p, 'op, 'r, 'v) stop \<Rightarrow> 'op list" where
  "pending (Returned v) = []"
| "pending (Blocked op kr ks) = [op]"

inductive conversation :: "('pc, 'op, 'r, 'v, 's) prog \<Rightarrow> 's \<Rightarrow> (('pc, 'v) point, 'op, 'r, 'v) stop
    \<Rightarrow> 'r list \<Rightarrow> 's \<Rightarrow> (('pc, 'v) point, 'op, 'r, 'v) stop \<Rightarrow> 'op list \<Rightarrow> bool" for P where
  converse_stop: "conversation P s r [] s r []"
| converse_complete: "unwind P (kr x) ks s s1 r1 \<Longrightarrow> conversation P s1 r1 xs s2 r2 ops \<Longrightarrow>
     conversation P s (Blocked op kr ks) (x # xs) s2 r2 (pending r1 @ ops)"

inductive serves :: "('pc, 'op, 'r, 'v, 's) prog \<Rightarrow> ('pc, 'op, 'r, 'v, 's) machine \<Rightarrow> 'r list
    \<Rightarrow> ('pc, 'op, 'r, 'v, 's) machine \<Rightarrow> bool" for P where
  serves_stop: "serves P w [] w"
| serves_complete: "submitted (events w) = es @ [(l, op)] \<Longrightarrow>
     Resume P n l (complete l x w) = Ok w1 \<Longrightarrow> serves P w1 xs w2 \<Longrightarrow> serves P w (x # xs) w2"

definition represents :: "('pc, 'op, 'r, 'v, 's) machine \<Rightarrow> exec \<Rightarrow> hdl
    \<Rightarrow> (('pc, 'v) point, 'op, 'r, 'v) stop \<Rightarrow> bool" where
  "represents w e root r \<longleftrightarrow> (case r of
      Returned v \<Rightarrow> heap w root = None
    | Blocked op kr ks \<Rightarrow> (\<exists>l hs es. job_stack w e l hs kr ks \<and> last (l # hs) = root \<and>
        submitted (events w) = es @ [(l, op)]))"

definition ops_of :: "('p, 'op, 'r, 'v, 's) world \<Rightarrow> 'op list" where
  "ops_of w = map snd (submitted (events w))"

lemma ends_in_represents:
  "ends_in w e hs s' r w' \<Longrightarrow> hs \<noteq> [] \<Longrightarrow>
     represents w' e (last hs) r \<and> ops_of w' = ops_of w @ pending r \<and> shared w' = s'"
proof (cases r)
  case (Returned v)
  assume "ends_in w e hs s' r w'" "hs \<noteq> []"
  with Returned show ?thesis by (simp add: ends_in_def represents_def ops_of_def)
next
  case (Blocked op kr ks)
  assume "ends_in w e hs s' r w'"
  then have "shared w' = s'" and "resume_post w e hs r w'" by (simp_all add: ends_in_def)
  moreover from this(2) Blocked obtain l hs' where "job_stack w' e l hs' kr ks"
      "last (l # hs') = last hs" "submitted (events w') = submitted (events w) @ [(l, op)]"
    by auto
  ultimately show ?thesis using Blocked by (auto simp: represents_def ops_of_def simp del: last.simps)
qed

lemma serves_refines_converse:
  "conversation P s r xs s' r' ops \<Longrightarrow> shared w = s \<Longrightarrow> represents w e root r \<Longrightarrow>
     \<exists>w'. serves P w xs w' \<and> shared w' = s' \<and> represents w' e root r' \<and> ops_of w' = ops_of w @ ops"
proof (induction arbitrary: w rule: conversation.induct)
  case (converse_stop s r)
  then show ?case by (auto intro: serves_stop)
next
  case (converse_complete kr x ks s s1 r1 xs s2 r2 ops op)
  from converse_complete.prems(2) obtain l hs es where
    l: "job_stack w e l hs kr ks" "last (l # hs) = root" "submitted (events w) = es @ [(l, op)]"
    by (auto simp: represents_def)
  from complete_refines [OF l(1)] converse_complete.hyps(1) converse_complete.prems(1)
  obtain n w1 where n: "Resume P n l (complete l x w) = Ok w1" "ends_in w e (l # hs) s1 r1 w1"
    by blast
  from ends_in_represents [OF n(2)] l(2)
  have w1: "represents w1 e root r1" "ops_of w1 = ops_of w @ pending r1" "shared w1 = s1" by auto
  from converse_complete.IH [OF w1(3,1)] obtain w' where
    w': "serves P w1 xs w'" "shared w' = s2" "represents w' e root r2" "ops_of w' = ops_of w1 @ ops"
    by blast
  from serves_complete [OF l(3) n(1) w'(1)] w' w1(2) show ?case by auto
qed

text \<open>A spawned job and its completions against the call stack.\<close>

lemma spawned_job_refines:
  assumes "mode P e = Immediate" and "fresh_above w"
    and "eval P (Body pc) (shared w) s1 r1" and "conversation P s1 r1 xs s2 r2 ops"
  shows "\<exists>n w1 w2. (\<forall>m \<ge> n. Spawn P m e pc w = Ok w1) \<and> serves P w1 xs w2 \<and> shared w2 = s2 \<and>
     ops_of w2 = ops_of w @ pending r1 @ ops \<and> represents w2 e (fresh w) r2"
proof -
  from spawn_refines [OF assms(1-3)] obtain n w1 where
    n: "\<forall>m \<ge> n. Spawn P m e pc w = Ok w1" "ends_in w e [fresh w] s1 r1 w1" by blast
  from ends_in_represents [OF n(2)] serves_refines_converse [OF assms(4), of w1 e "fresh w"]
  obtain w2 where "serves P w1 xs w2" "shared w2 = s2" "represents w2 e (fresh w) r2"
    "ops_of w2 = ops_of w @ pending r1 @ ops"
    by auto
  with n(1) show ?thesis by blast
qed

section \<open>Properties\<close>

text \<open>
  C1. Awaiting tasks is calling functions.  If the abstract call stack, started at \<open>pc\<close> and
  given the completions \<open>xs\<close>, issues certain operations and stops in state \<open>s2\<close>, then the job
  spawned on an executor that starts jobs at once does the same, however deep its tasks await
  one another: \<open>Spawn\<close> and the successive \<open>Resume\<close> of whichever frame submitted the last
  operation succeed, submit the same operations in the same order and reach the same state, and
  a job that returned has been destroyed.
\<close>

theorem job_refines_call_stack:
  assumes "mode P e = Immediate" and "fresh_above w"
    and "eval P (Body pc) (shared w) s1 r1" and "conversation P s1 r1 xs s2 r2 ops"
  shows "\<exists>n w1 w2. (\<forall>m \<ge> n. Spawn P m e pc w = Ok w1) \<and> serves P w1 xs w2 \<and> shared w2 = s2 \<and>
     ops_of w2 = ops_of w @ pending r1 @ ops \<and> represents w2 e (fresh w) r2"
  by (rule spawned_job_refines [OF assms])

text \<open>A task that awaits another one, which awaits an operation and returns what it was given.\<close>

datatype nested_point = Outer | Inner | InnerDone nat | OuterDone nat

definition nested_prog :: "(nested_point, string, nat, nat, nat list) prog" where
  "nested_prog = \<lparr>code = (\<lambda>p. case p of
       Outer \<Rightarrow> CoAwait Inner (KVal OuterDone)
     | Inner \<Rightarrow> CoSuspend ''rpc'' InnerDone
     | InnerDone n \<Rightarrow> CoReturn (n + 1)
     | OuterDone n \<Rightarrow> CoReturn n), mode = (\<lambda>_. Immediate)\<rparr>"

theorem job_refines_call_stack_witness:
  "\<exists>n w1 w2. (\<forall>m \<ge> n. Spawn nested_prog m 0 Outer (empty_world []) = Ok w1) \<and> serves nested_prog w1 [41] w2 \<and>
     ops_of w2 = [''rpc''] \<and> heap w2 0 = None"
proof -
  let ?kr = "\<lambda>x. Body (InnerDone x) :: (nested_point, nat) point" and ?k = "KVal (\<lambda>v. Body (OuterDone v))"
  have f: "fetch nested_prog (Body Outer) = CoAwait (Body Inner) ?k"
      "fetch nested_prog (Body Inner) = CoSuspend ''rpc'' ?kr"
      "fetch nested_prog (Body (InnerDone n)) = CoReturn (n + 1)"
      "fetch nested_prog (Body (OuterDone n)) = CoReturn n" for n
    by (simp_all add: nested_prog_def comp_def)
  have inner: "eval nested_prog (Body Inner) [] [] (Blocked ''rpc'' ?kr [])" by (rule eval_suspend [OF f(2)])
  from eval_call_blocked [OF f(1) inner]
  have outer: "eval nested_prog (Body Outer) [] [] (Blocked ''rpc'' ?kr [?k])" by simp
  have "eval nested_prog (?kr 41) [] [] (Returned (Some 42))" using eval_return [OF f(3), of 41] by simp
  moreover have "unwind nested_prog (Body (OuterDone 42)) [] [] [] (Returned (Some 42))"
    by (rule unwind_finished) (rule eval_return [OF f(4)])
  ultimately have u: "unwind nested_prog (?kr 41) [?k] [] [] (Returned (Some 42))"
    by (auto intro: unwind_return)
  have conv: "conversation nested_prog [] (Blocked ''rpc'' ?kr [?k]) [41] [] (Returned (Some 42)) []"
    using converse_complete [where kr = ?kr and x = 41 and op = "''rpc''", OF u converse_stop] by simp
  have m: "mode nested_prog 0 = Immediate" by (simp add: nested_prog_def)
  have fa: "fresh_above (empty_world [])" by (simp add: fresh_above_def empty_world_def)
  have "shared (empty_world []) = []" by (simp add: empty_world_def)
  from job_refines_call_stack [OF m fa _ conv, of Outer, unfolded this, OF outer] obtain n w1 w2 where
    "\<forall>m \<ge> n. Spawn nested_prog m 0 Outer (empty_world []) = Ok w1" "serves nested_prog w1 [41] w2"
    "ops_of w2 = ops_of (empty_world [] :: (nested_point, string, nat, nat, nat list) machine) @ [''rpc'']"
    "represents w2 0 (fresh (empty_world [] :: (nested_point, string, nat, nat, nat list) machine)) (Returned (Some 42))"
    by auto
  moreover from this(3,4) have "ops_of w2 = [''rpc'']" "heap w2 0 = None"
    by (simp_all add: represents_def empty_world_def ops_of_def)
  ultimately show ?thesis by blast
qed

end
