(* ===== verification/CompletionQueue.thy ===== *)
theory CompletionQueue
  imports AsyncCalls
begin

text \<open>
  The executor over a gRPC completion queue: \<^verbatim>\<open>async_grpc/async_grpc/async_grpc.hpp\<close> and
  \<^verbatim>\<open>async_grpc.cpp\<close>.

  The completion queue itself belongs to gRPC; what \<open>Next\<close> returns is a parameter of the
  model.  Here are \<open>Tick\<close> and the loop of an executor thread on the coroutine machine, the
  awaitable that hands an operation to the queue, the alarm, and who owns and shuts down a
  queue.  Threads that share a queue are in \<open>TickRace\<close>.
\<close>

section \<open>Tick\<close>

text \<open>What \<open>CompletionQueue::Next\<close> returns: a tag with its result, or false after shutdown.\<close>

datatype 'r next_event = NextEvent hdl 'r | NextShutdown

text \<open>The tag is the \<open>SuspendedJob\<close> inside the awaiter of the frame; \<open>ok\<close> is stored in it.\<close>

definition Tick :: "('pc, 'op, 'r, 'v, 's) prog \<Rightarrow> nat \<Rightarrow> 'r next_event
    \<Rightarrow> ('pc, 'op, 'r, 'v, 's) machine \<Rightarrow> (bool \<times> ('pc, 'op, 'r, 'v, 's) machine) outcome" where
  "Tick P n nx w = (case nx of
      NextShutdown \<Rightarrow> Ok (False, w)
    | NextEvent job ok \<Rightarrow> obind (Resume P n job (complete job ok w)) (\<lambda>w'. Ok (True, w')))"

text \<open>
  \<open>while (Tick(cq)) {}\<close>, over the results of the successive calls of \<open>Next\<close>; at the end of the
  list the thread is blocked in \<open>Next\<close>.
\<close>

fun executor_thread :: "('pc, 'op, 'r, 'v, 's) prog \<Rightarrow> nat \<Rightarrow> 'r next_event list
    \<Rightarrow> ('pc, 'op, 'r, 'v, 's) machine \<Rightarrow> ('pc, 'op, 'r, 'v, 's) machine outcome" where
  "executor_thread P n [] w = Ok w"
| "executor_thread P n (nx # nxs) w = obind (Tick P n nx w)
     (\<lambda>(continue, w'). if continue then executor_thread P n nxs w' else Ok w')"

lemma executor_thread_mono:
  "executor_thread P n nxs w = Ok w' \<Longrightarrow> n \<le> m \<Longrightarrow> executor_thread P m nxs w = Ok w'"
proof (induction nxs arbitrary: w)
  case (Cons nx nxs)
  show ?case
  proof (cases nx)
    case (NextEvent job ok)
    with Cons.prems obtain w1 where "Resume P n job (complete job ok w) = Ok w1"
        "executor_thread P n nxs w1 = Ok w'"
      by (auto simp: Tick_def obind_eq_Ok_iff)
    moreover from this(1) have "Resume P m job (complete job ok w) = Ok w1"
      using Cons.prems(2) by (rule exec_call_Ok_mono)
    ultimately show ?thesis
      using Cons.IH Cons.prems(2) NextEvent by (simp add: Tick_def)
  qed (use Cons.prems in \<open>simp add: Tick_def\<close>)
qed simp

text \<open>A thread that dequeues the completions of a job serves it.\<close>

lemma serves_executor_thread:
  "serves P w xs w' \<Longrightarrow> \<exists>n hs. length hs = length xs \<and>
     executor_thread P n (map2 NextEvent hs xs) w = Ok w'"
proof (induction rule: serves.induct)
  case (serves_stop w)
  show ?case by simp
next
  case (serves_complete w es l op n x w1 xs w2)
  then obtain m hs where m: "length hs = length xs"
      "executor_thread P m (map2 NextEvent hs xs) w1 = Ok w2" by blast
  have "Resume P (max n m) l (complete l x w) = Ok w1"
    by (rule exec_call_Ok_mono [OF serves_complete.hyps(2)]) simp
  moreover have "executor_thread P (max n m) (map2 NextEvent hs xs) w1 = Ok w2"
    by (rule executor_thread_mono [OF m(2)]) simp
  ultimately have "executor_thread P (max n m) (map2 NextEvent (l # hs) (x # xs)) w = Ok w2"
    by (simp add: Tick_def)
  with m(1) show ?case by (metis length_Cons)
qed

text \<open>After shutdown the thread leaves its loop; what \<open>Next\<close> would return later is not read.\<close>

lemma executor_thread_shutdown:
  "executor_thread P n (NextShutdown # nxs) w = Ok w"
  by (simp add: Tick_def)

section \<open>Jobs do not disturb each other\<close>

lemma job_stack_frame:
  assumes stack: "job_stack w e l hs kr ks" and same: "same_below X w w'" and "fresh_above w'"
    and disj: "set (l # hs) \<inter> X = {}"
  shows "job_stack w' e l hs kr ks"
proof -
  from stack have chain: "suspended_chain (heap w) e l hs ks" and "fresh_above w"
    by (auto simp: job_stack_def)
  have "heap w c \<noteq> None" if "c \<in> set (l # hs)" for c
    using that stack suspended_chain_below [OF chain] by (auto simp: job_stack_def)
  then have below: "c < fresh w" if "c \<in> set (l # hs)" for c
    using that fresh_above_less [OF \<open>fresh_above w\<close>] by blast
  have eq: "heap w' c = heap w c" if "c \<in> set (l # hs)" for c
  proof -
    from that disj have "c \<notin> X" by blast
    with below [OF that] same show ?thesis by (simp add: same_below_def)
  qed
  have "suspended_chain (heap w') e l hs ks"
    by (rule suspended_chain_cong [OF eq chain])
  moreover have "heap w' (last (l # hs)) = heap w (last (l # hs))"
    by (rule eq) (rule last_in_set, simp)
  moreover have "heap w' l = heap w l" by (rule eq) simp
  ultimately show ?thesis
    using stack assms(3) unfolding job_stack_def root_frame_def by metis
qed

section \<open>CompletionQueueAwaitable\<close>

text \<open>
  The awaitable: \<open>m_suspended\<close>, \<open>m_job.ok\<close> and \<open>m_result\<close>.  Its function is a parameter: it
  starts an operation on the queue, and for a non-void one its result \<open>r\<close> is stored.
\<close>

record 'a awaitable =
  aw_suspended :: bool
  aw_ok :: bool
  aw_result :: "'a option"

definition awaitable_new :: "'a awaitable" where
  "awaitable_new = \<lparr>aw_suspended = False, aw_ok = False, aw_result = None\<rparr>"

definition await_ready :: "'a awaitable \<Rightarrow> bool" where
  "await_ready a = False"

definition await_suspend_void :: "'a awaitable \<Rightarrow> 'a awaitable" where
  "await_suspend_void a = a\<lparr>aw_suspended := True\<rparr>"

definition await_suspend_value :: "'a \<Rightarrow> 'a awaitable \<Rightarrow> 'a awaitable" where
  "await_suspend_value r a = a\<lparr>aw_suspended := True, aw_result := Some r\<rparr>"

definition deliver :: "bool \<Rightarrow> 'a awaitable \<Rightarrow> 'a awaitable" where
  "deliver ok a = a\<lparr>aw_ok := ok\<rparr>"

definition await_resume_void :: "'a awaitable \<Rightarrow> bool \<times> 'a awaitable" where
  "await_resume_void a = (aw_ok a, a\<lparr>aw_suspended := False\<rparr>)"

definition await_resume_value :: "'a awaitable \<Rightarrow> 'a option \<times> 'a awaitable" where
  "await_resume_value a = (if aw_ok a then aw_result a else None, a\<lparr>aw_suspended := False\<rparr>)"

definition awaitable_destroy :: "'a awaitable \<Rightarrow> unit outcome" where
  "awaitable_destroy a = (if aw_suspended a then Fault AssertFailed else Ok ())"

section \<open>Alarm\<close>

text \<open>
  \<open>Alarm\<close> keeps a deadline and a gRPC alarm; \<open>Start\<close> sets the alarm with the deadline kept
  at the time the awaitable suspends, \<open>SetDeadline\<close> replaces it and \<open>Cancel\<close> cancels.
\<close>

datatype 'd alarm_op = AlarmSet 'd | AlarmCancel

record 'd alarm =
  m_deadline :: 'd

definition Alarm_new :: "'d \<Rightarrow> 'd alarm" where
  "Alarm_new deadline = \<lparr>m_deadline = deadline\<rparr>"

definition Alarm_SetDeadline :: "'d \<Rightarrow> 'd alarm \<Rightarrow> 'd alarm" where
  "Alarm_SetDeadline deadline a = a\<lparr>m_deadline := deadline\<rparr>"

definition Alarm_Start :: "'d alarm \<Rightarrow> 'd alarm_op" where
  "Alarm_Start a = AlarmSet (m_deadline a)"

definition Alarm_Cancel :: "'d alarm \<Rightarrow> 'd alarm_op" where
  "Alarm_Cancel a = AlarmCancel"

section \<open>Owning a queue\<close>

text \<open>
  \<open>CompletionQueueExecutor\<close> owns a queue through a \<open>unique_ptr\<close>; \<open>shut\<close> is the set of queues
  that were shut down.  Moving leaves a null pointer behind, and \<open>Shutdown\<close>, which the
  destructors call, skips it.
\<close>

type_synonym cq = nat

record executor_obj =
  m_cq :: "cq option"

definition GetCq :: "executor_obj \<Rightarrow> cq option" where
  "GetCq ex = m_cq ex"

definition Executor_move :: "executor_obj \<Rightarrow> executor_obj \<times> executor_obj" where
  "Executor_move ex = (\<lparr>m_cq = m_cq ex\<rparr>, \<lparr>m_cq = None\<rparr>)"

definition Executor_Shutdown :: "executor_obj \<Rightarrow> cq set \<Rightarrow> cq set" where
  "Executor_Shutdown ex shut = (case m_cq ex of None \<Rightarrow> shut | Some q \<Rightarrow> insert q shut)"

definition Executor_destroy :: "executor_obj \<Rightarrow> cq set \<Rightarrow> cq set" where
  "Executor_destroy ex shut = Executor_Shutdown ex shut"

text \<open>
  \<open>ExecutorThreads\<close>: an executor with its threads, each looping on the executor's queue.
  \<open>threads\<close> lists the queue of each thread (\<open>None\<close> stands for a null pointer).
\<close>

record executor_threads =
  m_executor :: executor_obj
  m_threads :: "cq option list"

definition ExecutorThreads_new :: "executor_obj \<Rightarrow> nat \<Rightarrow> executor_threads" where
  "ExecutorThreads_new ex threadCounts =
     \<lparr>m_executor = ex, m_threads = map (\<lambda>i. GetCq ex) [0..<threadCounts]\<rparr>"

definition ExecutorThreads_move :: "executor_threads \<Rightarrow> executor_threads \<times> executor_threads" where
  "ExecutorThreads_move et = (case Executor_move (m_executor et) of (new, old) \<Rightarrow>
     (\<lparr>m_executor = new, m_threads = m_threads et\<rparr>, \<lparr>m_executor = old, m_threads = []\<rparr>))"

definition ExecutorThreads_Shutdown :: "executor_threads \<Rightarrow> cq set \<Rightarrow> cq set" where
  "ExecutorThreads_Shutdown et shut = Executor_Shutdown (m_executor et) shut"

text \<open>
  The destructor shuts the queue down, joins the threads and destroys the executor.  A thread
  returns when \<open>Next\<close> gives false, which it does once the queue is shut down and every operation
  that was started on it has been delivered; \<open>busy\<close> are the queues that still have one when
  the destructor waits, and \<open>None\<close> means that it goes on waiting.
\<close>

definition ExecutorThreads_destroy :: "executor_threads \<Rightarrow> (cq \<Rightarrow> bool) \<Rightarrow> cq set \<Rightarrow> cq set option" where
  "ExecutorThreads_destroy et busy shut = (let shut1 = ExecutorThreads_Shutdown et shut in
     if \<forall>t \<in> set (m_threads et). \<exists>q. t = Some q \<and> q \<in> shut1 \<and> \<not> busy q
     then Some (Executor_destroy (m_executor et) shut1) else None)"

end
