(* ===== verification/TickRace.thy ===== *)
theory TickRace
  imports CompletionQueue
begin

text \<open>
  The threads that touch one job of a completion queue.

  \<open>ExecutorThreads\<close> starts threads that all loop on the same queue, and \<open>Spawn\<close> runs the first
  \<open>Resume\<close> of a job on the thread that calls it, so the steps of several \<open>Resume\<close> of one job
  interleave.  Once a coroutine has submitted an operation it counts as suspended, and the
  completion may be dequeued by another thread before the first one has come back from
  \<open>handle.resume()\<close> and looked at \<open>handle.done()\<close>.  The relation below follows one job, with the
  tasks it awaits, through those steps.
\<close>

section \<open>One job\<close>

datatype frame_state = Suspended | Executing | AtFinal | Gone

text \<open>What the coroutines of the job do, one after the other: the running one awaits an operation, calls a task, or ends.\<close>

datatype act = AwaitOp | CallTask | EndTask

text \<open>
  Where a thread is, at the handle of a frame: about to call \<open>resume()\<close> (for a parent, with the
  child whose \<open>TaskAwait\<close> is destroyed first), in the body, in \<open>await_suspend\<close> about to ask
  \<open>!cur.done()\<close> of the child it has started, and in \<open>Resume\<close> about to ask \<open>done()\<close>, to read
  \<open>promise->parent\<close>, to read \<open>promise->destroyOnDone\<close>, and to call \<open>destroy()\<close>, with the parent
  it has read.
\<close>

datatype tick_point =
    AtResume nat "nat option"
  | InBody nat
  | AtStarted nat
  | AtDone nat
  | AtParent nat
  | AtFlag nat "nat option"
  | AtDestroy nat "nat option"

text \<open>
  Frame 0 is the coroutine that was spawned; \<open>frames\<close> is the number of the next frame.  The call
  stack of a thread is empty while it is in \<open>Next\<close>.  \<open>in_queue\<close> is the frame whose completion is
  in the queue, \<open>misuse\<close> says that a destroyed frame was used, \<open>double_resume\<close> that one was
  resumed which is not suspended.
\<close>

record race =
  frame_state :: "nat \<Rightarrow> frame_state"
  parent_of :: "nat \<Rightarrow> nat option"
  frames :: nat
  acts :: "act list"
  in_queue :: "nat option"
  points :: "nat \<Rightarrow> tick_point list"
  misuse :: bool
  double_resume :: bool

definition race_job :: "nat option \<Rightarrow> act list \<Rightarrow> (nat \<Rightarrow> tick_point list) \<Rightarrow> race" where
  "race_job q todo pts = \<lparr>frame_state = (\<lambda>_. Suspended), parent_of = Map.empty, frames = 1, acts = todo,
     in_queue = q, points = pts, misuse = False, double_resume = False\<rparr>"

text \<open>\<open>Spawn\<close> on thread \<open>t\<close>; and a job that was started, with the completion it waits for in the queue.\<close>

definition race_spawned :: "nat \<Rightarrow> act list \<Rightarrow> race" where
  "race_spawned t todo = race_job None todo ((\<lambda>_. [])(t := [AtResume 0 None]))"

definition race_queued :: "act list \<Rightarrow> race" where
  "race_queued todo = race_job (Some 0) todo (\<lambda>_. [])"

definition goto :: "nat \<Rightarrow> tick_point list \<Rightarrow> race \<Rightarrow> race" where
  "goto t ps s = s\<lparr>points := (points s)(t := ps)\<rparr>"

definition set_frame :: "nat \<Rightarrow> frame_state \<Rightarrow> race \<Rightarrow> race" where
  "set_frame h st s = s\<lparr>frame_state := (frame_state s)(h := st)\<rparr>"

text \<open>Using a frame: a destroyed one is a misuse.\<close>

definition using_frame :: "nat \<Rightarrow> nat \<Rightarrow> race \<Rightarrow> race \<Rightarrow> race" where
  "using_frame t h s s' = (if frame_state s h = Gone then goto t [] (s\<lparr>misuse := True\<rparr>) else s')"

text \<open>The body of \<open>h\<close> goes on, if it is suspended; \<open>~TaskAwait\<close> destroys the frame of its child.\<close>

definition enter_body :: "nat \<Rightarrow> nat \<Rightarrow> nat option \<Rightarrow> tick_point list \<Rightarrow> race \<Rightarrow> race" where
  "enter_body t h child ps s = using_frame t h s (if frame_state s h \<noteq> Suspended then goto t [] (s\<lparr>double_resume := True\<rparr>)
     else case child of
       None \<Rightarrow> goto t (InBody h # ps) (set_frame h Executing s)
     | Some c \<Rightarrow> using_frame t c s (goto t (InBody h # ps) (set_frame h Executing (set_frame c Gone s))))"

definition if_parent :: "nat \<Rightarrow> nat option \<Rightarrow> tick_point list" where
  "if_parent h up = (case up of None \<Rightarrow> [] | Some p \<Rightarrow> [AtResume p (Some h)])"

inductive tick_step :: "nat \<Rightarrow> race \<Rightarrow> race \<Rightarrow> bool" for t where
  tick_next: "points s t = [] \<Longrightarrow> in_queue s = Some h \<Longrightarrow>
     tick_step t s (goto t [AtResume h None] (s\<lparr>in_queue := None\<rparr>))"
| tick_resume: "points s t = AtResume h child # ps \<Longrightarrow>
     tick_step t s (enter_body t h child (AtDone h # ps) s)"
| tick_await: "points s t = InBody h # ps \<Longrightarrow> acts s = AwaitOp # todo \<Longrightarrow>
     tick_step t s (goto t ps (set_frame h Suspended (s\<lparr>in_queue := Some h, acts := todo\<rparr>)))"
| tick_call: "points s t = InBody h # ps \<Longrightarrow> acts s = CallTask # todo \<Longrightarrow> c = frames s \<Longrightarrow>
     tick_step t s (goto t (InBody c # AtStarted c # ps) (set_frame c Executing (set_frame h Suspended
       (s\<lparr>parent_of := (parent_of s)(c \<mapsto> h), frames := Suc c, acts := todo\<rparr>))))"
| tick_end: "points s t = InBody h # ps \<Longrightarrow> acts s = [] \<or> acts s = EndTask # todo \<Longrightarrow>
     tick_step t s (goto t ps (set_frame h AtFinal (s\<lparr>acts := tl (acts s)\<rparr>)))"
| tick_started: "points s t = AtStarted c # ps \<Longrightarrow> parent_of s c = Some h \<Longrightarrow>
     tick_step t s (using_frame t c s (if frame_state s c = AtFinal then enter_body t h (Some c) ps s else goto t ps s))"
| tick_done: "points s t = AtDone h # ps \<Longrightarrow>
     tick_step t s (using_frame t h s (goto t (if frame_state s h = AtFinal then AtParent h # ps else ps) s))"
| tick_parent: "points s t = AtParent h # ps \<Longrightarrow>
     tick_step t s (using_frame t h s (goto t (AtFlag h (parent_of s h) # ps) s))"
| tick_flag: "points s t = AtFlag h up # ps \<Longrightarrow>
     tick_step t s (using_frame t h s (goto t (if h = 0 then AtDestroy h up # ps else if_parent h up @ ps) s))"
| tick_destroy: "points s t = AtDestroy h up # ps \<Longrightarrow>
     tick_step t s (using_frame t h s (goto t (if_parent h up @ ps) (set_frame h Gone s)))"

inductive_cases tick_stepE: "tick_step t s s'"

text \<open>The queue has \<open>threads\<close> threads, numbered from 0; any other thread only finishes what it has begun.\<close>

inductive race_reachable :: "nat \<Rightarrow> race \<Rightarrow> race \<Rightarrow> bool" for threads s0 where
  race_start: "race_reachable threads s0 s0"
| race_next: "race_reachable threads s0 s \<Longrightarrow> t < threads \<or> points s t \<noteq> [] \<Longrightarrow> tick_step t s s' \<Longrightarrow>
     race_reachable threads s0 s'"

section \<open>Where it is safe\<close>

text \<open>
  While only one thread is at the job: the frames above the current one are suspended, each waits
  for the one below, and the call stack of the thread asks each frame it has entered once.
\<close>

inductive waiting :: "(nat \<Rightarrow> frame_state) \<Rightarrow> (nat \<Rightarrow> nat option) \<Rightarrow> nat \<Rightarrow> bool" for fs par where
  waiting_root: "par 0 = None \<Longrightarrow> waiting fs par 0"
| waiting_up: "par h = Some p \<Longrightarrow> p < h \<Longrightarrow> fs p = Suspended \<Longrightarrow> waiting fs par p \<Longrightarrow> waiting fs par h"

inductive asks :: "(nat \<Rightarrow> nat option) \<Rightarrow> nat \<Rightarrow> tick_point list \<Rightarrow> bool" for par where
  asks_done: "asks par h [AtDone h]"
| asks_started: "par h = Some p \<Longrightarrow> asks par p ps \<Longrightarrow> asks par h (AtStarted h # ps)"

lemma waiting_cong: "waiting fs par h \<Longrightarrow> (\<And>x. x < h \<Longrightarrow> fs' x = fs x) \<Longrightarrow> (\<And>x. x \<le> h \<Longrightarrow> par' x = par x) \<Longrightarrow> waiting fs' par' h"
  by (induction rule: waiting.induct) (auto intro: waiting.intros)

lemma asks_cong: "asks par h ps \<Longrightarrow> waiting fs par h \<Longrightarrow> (\<And>x. x \<le> h \<Longrightarrow> par' x = par x) \<Longrightarrow> asks par' h ps"
proof (induction rule: asks.induct)
  case (asks_started h p ps)
  from asks_started.prems(1) asks_started.hyps(1) have "p < h" "waiting fs par p" by (auto elim: waiting.cases)
  with asks_started show ?case by (auto intro: asks.intros)
qed (auto intro: asks.intros)

lemma waiting_parent: "waiting fs par h \<Longrightarrow> par h = Some p \<Longrightarrow> p < h \<and> fs p = Suspended \<and> waiting fs par p"
  by (auto elim: waiting.cases)

lemma waiting_None: "waiting fs par h \<Longrightarrow> par h = None \<longleftrightarrow> h = 0"
  by (auto elim: waiting.cases)

text \<open>The states of the job, by where its one thread is.\<close>

inductive shape :: "(nat \<Rightarrow> frame_state) \<Rightarrow> (nat \<Rightarrow> nat option) \<Rightarrow> nat \<Rightarrow> nat option \<Rightarrow> tick_point list \<Rightarrow> bool" for fs par new where
  shape_over: "shape fs par new None []"
| shape_queued: "fs h = Suspended \<Longrightarrow> h < new \<Longrightarrow> waiting fs par h \<Longrightarrow> shape fs par new (Some h) []"
| shape_resume: "fs h = Suspended \<Longrightarrow> h < new \<Longrightarrow> waiting fs par h \<Longrightarrow> (\<And>c. child = Some c \<Longrightarrow> fs c = AtFinal \<and> h < c) \<Longrightarrow>
     shape fs par new None [AtResume h child]"
| shape_body: "fs h = Executing \<Longrightarrow> h < new \<Longrightarrow> waiting fs par h \<Longrightarrow> asks par h ps \<Longrightarrow> shape fs par new None (InBody h # ps)"
| shape_left: "fs h = Suspended \<Longrightarrow> h < new \<Longrightarrow> waiting fs par h \<Longrightarrow> fs a = Suspended \<Longrightarrow> waiting fs par a \<Longrightarrow> asks par a ps \<Longrightarrow>
     shape fs par new (Some h) ps"
| shape_ended: "fs h = AtFinal \<Longrightarrow> h < new \<Longrightarrow> waiting fs par h \<Longrightarrow> asks par h ps \<Longrightarrow> shape fs par new None ps"
| shape_parent: "fs h = AtFinal \<Longrightarrow> h < new \<Longrightarrow> waiting fs par h \<Longrightarrow> shape fs par new None [AtParent h]"
| shape_flag: "fs h = AtFinal \<Longrightarrow> h < new \<Longrightarrow> waiting fs par h \<Longrightarrow> up = par h \<Longrightarrow> shape fs par new None [AtFlag h up]"
| shape_destroy: "fs 0 = AtFinal \<Longrightarrow> shape fs par new None [AtDestroy 0 None]"

inductive_cases shapeE: "shape fs par new q ps"
inductive_cases asksE: "asks par h (p # ps)"

definition solo :: "nat \<Rightarrow> race \<Rightarrow> bool" where
  "solo t s \<longleftrightarrow> \<not> misuse s \<and> \<not> double_resume s \<and> (\<forall>u. u \<noteq> t \<longrightarrow> points s u = []) \<and>
     shape (frame_state s) (parent_of s) (frames s) (in_queue s) (points s t)"

lemmas race_updates = goto_def set_frame_def using_frame_def

lemma asks_not_empty: "\<not> asks par h []"
  by (auto elim: asks.cases)

text \<open>A body that goes on after its child.\<close>

lemma enter_body_solo:
  assumes "\<not> misuse s" "\<not> double_resume s" "\<forall>u. u \<noteq> t \<longrightarrow> points s u = []" "in_queue s = None"
    and "frame_state s h = Suspended" "h < frames s" "waiting (frame_state s) (parent_of s) h" "asks (parent_of s) h ps"
    and "\<And>c. child = Some c \<Longrightarrow> frame_state s c = AtFinal \<and> h < c"
  shows "solo t (enter_body t h child ps s)"
proof -
  have w: "waiting fs (parent_of s) h" if "\<And>x. x < h \<Longrightarrow> fs x = frame_state s x" for fs
    using assms(7) by (rule waiting_cong) (simp_all add: that)
  show ?thesis
  proof (cases child)
    case None
    have "shape ((frame_state s)(h := Executing)) (parent_of s) (frames s) None (InBody h # ps)"
      using assms(6,8) by (intro shape_body w) simp_all
    with assms None show ?thesis by (simp add: solo_def enter_body_def race_updates)
  next
    case (Some c)
    with assms(9) have c: "frame_state s c = AtFinal" "h < c" by simp_all
    then have "shape ((frame_state s)(c := Gone, h := Executing)) (parent_of s) (frames s) None (InBody h # ps)"
      using assms(6,8) by (intro shape_body w) simp_all
    with assms Some c show ?thesis by (simp add: solo_def enter_body_def race_updates)
  qed
qed

lemma solo_step:
  assumes "tick_step t s s'" and "solo t s"
  shows "solo t s'"
proof -
  let ?shape = "shape (frame_state s) (parent_of s) (frames s) (in_queue s) (points s t)"
  have ok: "\<not> misuse s" "\<not> double_resume s" "\<forall>u. u \<noteq> t \<longrightarrow> points s u = []" and sh: ?shape
    using assms(2) by (auto simp: solo_def)

  from assms(1) show ?thesis
  proof cases
    case (tick_next h)
    with sh have "frame_state s h = Suspended \<and> h < frames s \<and> waiting (frame_state s) (parent_of s) h"
      by (auto elim: shapeE simp: asks_not_empty)
    then have "shape (frame_state s) (parent_of s) (frames s) None [AtResume h None]" by (intro shape_resume) auto
    with ok show ?thesis unfolding tick_next by (simp add: solo_def goto_def)
  next
    case (tick_resume h child ps)
    with sh have "frame_state s h = Suspended" "h < frames s" "waiting (frame_state s) (parent_of s) h" "in_queue s = None" "ps = []"
        "\<And>c. child = Some c \<Longrightarrow> frame_state s c = AtFinal \<and> h < c"
      by (auto elim: shapeE asksE)
    with ok show ?thesis unfolding tick_resume by (intro enter_body_solo) (auto intro: asks_done)
  next
    case (tick_await h ps todo)
    with sh have h: "h < frames s" "waiting (frame_state s) (parent_of s) h" "asks (parent_of s) h ps"
      by (auto elim: shapeE asksE)
    have "waiting ((frame_state s)(h := Suspended)) (parent_of s) h" using h(2) by (rule waiting_cong) auto
    then have "shape ((frame_state s)(h := Suspended)) (parent_of s) (frames s) (Some h) ps"
      using h by (intro shape_left [where a = h]) simp_all
    with ok show ?thesis unfolding tick_await by (simp add: solo_def race_updates)
  next
    case (tick_call h ps todo c)
    with sh have h: "h < frames s" "waiting (frame_state s) (parent_of s) h" "asks (parent_of s) h ps" "in_queue s = None"
      by (auto elim: shapeE asksE)
    let ?fs = "(frame_state s)(h := Suspended, c := Executing)" and ?par = "(parent_of s)(c \<mapsto> h)"
    have c: "h < c" using h(1) tick_call by simp
    have wh: "waiting ?fs ?par h" by (rule waiting_cong [OF h(2)]) (use c in simp_all)
    have "waiting ?fs ?par c" by (rule waiting_up [OF _ c _ wh]) (use c in simp_all)
    moreover have "asks ?par h ps" by (rule asks_cong [OF h(3,2)]) (use c in simp)
    then have "asks ?par c (AtStarted c # ps)" by (intro asks_started [of _ c h]) simp_all
    ultimately have "shape ?fs ?par (Suc c) None (InBody c # AtStarted c # ps)" by (intro shape_body) simp_all
    with ok h(4) show ?thesis unfolding tick_call by (simp add: solo_def race_updates)
  next
    case (tick_end h ps todo)
    with sh have h: "h < frames s" "waiting (frame_state s) (parent_of s) h" "asks (parent_of s) h ps" "in_queue s = None"
      by (auto elim: shapeE asksE)
    have "waiting ((frame_state s)(h := AtFinal)) (parent_of s) h" using h(2) by (rule waiting_cong) auto
    then have "shape ((frame_state s)(h := AtFinal)) (parent_of s) (frames s) None ps"
      using h by (intro shape_ended [where h = h]) simp_all
    with ok h(4) show ?thesis unfolding tick_end by (simp add: solo_def race_updates)
  next
    case (tick_started c ps h)
    from sh tick_started(2) consider (left) x where "in_queue s = Some x" "frame_state s x = Suspended" "x < frames s"
        "waiting (frame_state s) (parent_of s) x" "frame_state s c = Suspended" "waiting (frame_state s) (parent_of s) c" "asks (parent_of s) c (AtStarted c # ps)"
      | (ended) "in_queue s = None" "frame_state s c = AtFinal" "c < frames s" "waiting (frame_state s) (parent_of s) c"
        "asks (parent_of s) c (AtStarted c # ps)"
      by (auto elim!: shapeE) (auto elim: asksE)
    then show ?thesis
    proof cases
      case left
      then have h: "asks (parent_of s) h ps" using tick_started(3) by (auto elim: asksE)
      have "frame_state s h = Suspended" "waiting (frame_state s) (parent_of s) h"
        using waiting_parent [OF left(6) tick_started(3)] by simp_all
      then have "shape (frame_state s) (parent_of s) (frames s) (in_queue s) ps"
        using left h unfolding left(1) by (intro shape_left [where a = h])
      with ok left show ?thesis unfolding tick_started(1) by (simp add: solo_def race_updates)
    next
      case ended
      then have h: "asks (parent_of s) h ps" using tick_started(3) by (auto elim: asksE)
      have p: "frame_state s h = Suspended" "waiting (frame_state s) (parent_of s) h" "h < c"
        using waiting_parent [OF ended(4) tick_started(3)] by simp_all
      then have "h < frames s" using ended(3) by simp
      from enter_body_solo [OF ok ended(1) p(1) this p(2) h, of "Some c"] ended(2) p(3)
      show ?thesis unfolding tick_started(1) by (simp add: using_frame_def)
    qed
  next
    case (tick_done h ps)
    from sh tick_done(2) consider (left) x where "in_queue s = Some x" "frame_state s x = Suspended" "x < frames s"
        "waiting (frame_state s) (parent_of s) x" "frame_state s h = Suspended" "ps = []"
      | (ended) "in_queue s = None" "frame_state s h = AtFinal" "h < frames s" "waiting (frame_state s) (parent_of s) h" "ps = []"
      by (auto elim!: shapeE) (auto elim: asksE)
    then show ?thesis
    proof cases
      case left
      then have "shape (frame_state s) (parent_of s) (frames s) (in_queue s) ps" by (auto intro: shape_queued)
      with ok left show ?thesis unfolding tick_done(1) by (simp add: solo_def race_updates)
    next
      case ended
      then have "shape (frame_state s) (parent_of s) (frames s) (in_queue s) (AtParent h # ps)" by (auto intro: shape_parent)
      with ok ended show ?thesis unfolding tick_done(1) by (simp add: solo_def race_updates)
    qed
  next
    case (tick_parent h ps)
    with sh have h: "in_queue s = None" "frame_state s h = AtFinal" "h < frames s" "waiting (frame_state s) (parent_of s) h" "ps = []"
      by (auto elim: shapeE asksE)
    then have "shape (frame_state s) (parent_of s) (frames s) None (AtFlag h (parent_of s h) # ps)" by (auto intro: shape_flag)
    with ok h show ?thesis unfolding tick_parent(1) by (simp add: solo_def race_updates)
  next
    case (tick_flag h up ps)
    with sh have h: "in_queue s = None" "frame_state s h = AtFinal" "h < frames s" "waiting (frame_state s) (parent_of s) h" "ps = []"
        "up = parent_of s h"
      by (auto elim: shapeE asksE)
    have "shape (frame_state s) (parent_of s) (frames s) None (if h = 0 then AtDestroy h up # ps else if_parent h up @ ps)"
    proof (cases up)
      case None
      with h waiting_None [OF h(4)] show ?thesis by (auto intro: shape_destroy)
    next
      case (Some p)
      with h(6) waiting_parent [OF h(4)] waiting_None [OF h(4)] have "p < h" "frame_state s p = Suspended" "h \<noteq> 0"
        "waiting (frame_state s) (parent_of s) p" by auto
      with Some h show ?thesis by (auto simp: if_parent_def intro!: shape_resume)
    qed
    with ok h show ?thesis unfolding tick_flag(1) by (simp add: solo_def race_updates)
  next
    case (tick_destroy h up ps)
    with sh have "in_queue s = None" "frame_state s h = AtFinal" "up = None" "ps = []"
      by (auto elim: shapeE asksE)
    with ok show ?thesis unfolding tick_destroy(1) by (auto simp: solo_def race_updates if_parent_def intro: shape_over)
  qed
qed

lemma race_job_solo:
  "solo t (race_spawned t todo)" "solo t (race_queued todo)"
  by (auto simp: solo_def race_spawned_def race_queued_def race_job_def intro: shape_resume shape_queued waiting_root)

text \<open>With one thread on the queue, which is also the one that spawned the job, only that thread is ever at it.\<close>

lemma one_thread:
  assumes "race_reachable 1 s0 s" and "solo 0 s0"
  shows "solo 0 s"
  using assms
proof (induction rule: race_reachable.induct)
  case (race_next s t s')
  then have "solo 0 s" by blast
  with race_next.hyps(2) have "t = 0" by (auto simp: solo_def)
  with solo_step race_next.hyps(3) \<open>solo 0 s\<close> show ?case by blast
qed simp

text \<open>
  A job that awaits nothing more is only ever touched by the thread that dequeued its completion:
  the queue holds nothing more for it.
\<close>

definition last_run :: "race \<Rightarrow> bool" where
  "last_run s \<longleftrightarrow> (\<exists>t. solo t s) \<and> AwaitOp \<notin> set (acts s) \<and> (in_queue s \<noteq> None \<longrightarrow> (\<forall>t. points s t = []))"

lemma last_run_step:
  assumes "tick_step t s s'" and "last_run s"
  shows "last_run s'"
proof -
  from assms(2) obtain u where u: "solo u s" by (auto simp: last_run_def)
  have t: "solo t s"
  proof (cases "points s t = []")
    case True
    with assms(1) have "in_queue s \<noteq> None" by cases auto
    with assms(2) have "\<forall>t. points s t = []" by (simp add: last_run_def)
    with u show ?thesis by (simp add: solo_def)
  next
    case False
    with u have "u = t" by (auto simp: solo_def)
    with u show ?thesis by simp
  qed
  from solo_step [OF assms(1) t] have "solo t s'" .
  moreover from assms(1) have "acts s' = acts s \<or> (\<exists>a. acts s = a # acts s') \<or> acts s = [] \<and> acts s' = []"
    by cases (auto simp: enter_body_def race_updates neq_Nil_conv split: option.splits)
  moreover from assms have "in_queue s' = None"
    by cases (auto simp: last_run_def enter_body_def race_updates split: option.splits)
  ultimately show ?thesis using assms(2) by (auto simp: last_run_def)
qed

lemma last_run_reachable: "race_reachable threads s0 s \<Longrightarrow> last_run s0 \<Longrightarrow> last_run s"
  by (induction rule: race_reachable.induct) (auto intro: last_run_step)

section \<open>Where it is not\<close>

text \<open>The step of a thread as a function, to compute schedules.\<close>

definition tick_fun :: "nat \<Rightarrow> race \<Rightarrow> race" where
  "tick_fun t s = (case points s t of
      [] \<Rightarrow> (case in_queue s of None \<Rightarrow> s | Some h \<Rightarrow> goto t [AtResume h None] (s\<lparr>in_queue := None\<rparr>))
    | AtResume h child # ps \<Rightarrow> enter_body t h child (AtDone h # ps) s
    | InBody h # ps \<Rightarrow> (case acts s of
          AwaitOp # todo \<Rightarrow> goto t ps (set_frame h Suspended (s\<lparr>in_queue := Some h, acts := todo\<rparr>))
        | CallTask # todo \<Rightarrow> goto t (InBody (frames s) # AtStarted (frames s) # ps) (set_frame (frames s) Executing (set_frame h Suspended
            (s\<lparr>parent_of := (parent_of s)(frames s \<mapsto> h), frames := Suc (frames s), acts := todo\<rparr>)))
        | _ \<Rightarrow> goto t ps (set_frame h AtFinal (s\<lparr>acts := tl (acts s)\<rparr>)))
    | AtStarted c # ps \<Rightarrow> (case parent_of s c of None \<Rightarrow> s
        | Some h \<Rightarrow> using_frame t c s (if frame_state s c = AtFinal then enter_body t h (Some c) ps s else goto t ps s))
    | AtDone h # ps \<Rightarrow> using_frame t h s (goto t (if frame_state s h = AtFinal then AtParent h # ps else ps) s)
    | AtParent h # ps \<Rightarrow> using_frame t h s (goto t (AtFlag h (parent_of s h) # ps) s)
    | AtFlag h up # ps \<Rightarrow> using_frame t h s (goto t (if h = 0 then AtDestroy h up # ps else if_parent h up @ ps) s)
    | AtDestroy h up # ps \<Rightarrow> using_frame t h s (goto t (if_parent h up @ ps) (set_frame h Gone s)))"

lemma tick_fun_step: "tick_fun t s = s \<or> tick_step t s (tick_fun t s)"
proof (cases "points s t")
  case Nil
  then show ?thesis by (cases "in_queue s") (auto simp: tick_fun_def intro: tick_next)
next
  case (Cons p ps)
  show ?thesis
  proof (cases p)
    case (InBody h)
    with Cons have run: "points s t = InBody h # ps" by simp
    show ?thesis
    proof (cases "acts s")
      case Nil
      with tick_end [OF run, of "[]"] run show ?thesis by (simp add: tick_fun_def)
    next
      case (Cons a todo)
      with tick_await [OF run] tick_call [OF run _ refl] tick_end [OF run] run show ?thesis
        by (cases a) (simp_all add: tick_fun_def)
    qed
  next
    case (AtStarted c)
    with Cons have run: "points s t = AtStarted c # ps" by simp
    show ?thesis
    proof (cases "parent_of s c")
      case None
      with run show ?thesis by (simp add: tick_fun_def)
    next
      case (Some h)
      with tick_started [OF run Some] run show ?thesis by (simp add: tick_fun_def)
    qed
  next
    case (AtDone h)
    with tick_done [of s t h ps] Cons show ?thesis by (simp add: tick_fun_def)
  next
    case (AtFlag h up)
    with tick_flag [of s t h up ps] Cons show ?thesis by (simp add: tick_fun_def)
  qed (use Cons in \<open>auto simp: tick_fun_def intro: tick_step.intros\<close>)
qed

lemma race_reachable_fun:
  "race_reachable threads s0 s \<Longrightarrow> t < threads \<or> points s t \<noteq> [] \<Longrightarrow> race_reachable threads s0 (tick_fun t s)"
  using tick_fun_step [of t s] race_next by metis

lemma race_reachable_schedule:
  "race_reachable threads s0 s \<Longrightarrow> \<forall>t \<in> set ts. t < threads \<Longrightarrow> race_reachable threads s0 (fold tick_fun ts s)"
  by (induction ts arbitrary: s) (auto intro: race_reachable_fun)

text \<open>A thread that loops on the queue alone brings a job down to its last awaits, then to its end.\<close>

lemmas tick_compute = tick_fun_def race_job_def enter_body_def race_updates if_parent_def

lemma awaits_down:
  "pts t = [] \<Longrightarrow> fold tick_fun (concat (replicate k [t, t, t, t])) (race_job (Some 0) (replicate (k + m) AwaitOp) pts) =
     race_job (Some 0) (replicate m AwaitOp) pts"
proof (induction k)
  case (Suc k)
  have "fold tick_fun [t, t, t, t] (race_job (Some 0) (AwaitOp # replicate (k + m) AwaitOp) pts) =
      race_job (Some 0) (replicate (k + m) AwaitOp) pts"
    using Suc.prems by (simp add: tick_compute fun_eq_iff)
  with Suc show ?case by simp
qed simp

definition race_gone :: "(nat \<Rightarrow> tick_point list) \<Rightarrow> race" where
  "race_gone pts = (race_job None [] pts)\<lparr>frame_state := (\<lambda>_. Suspended)(0 := Gone)\<rparr>"

lemma runs_to_end:
  "pts t = [] \<Longrightarrow> fold tick_fun [t, t, t, t, t, t, t] (race_job (Some 0) [] pts) = race_gone pts"
  by (simp add: tick_compute race_gone_def fun_eq_iff)

lemma asks_gone: "pts t = [AtDone 0] \<Longrightarrow> misuse (tick_fun t (race_gone pts))"
  by (simp add: tick_compute race_gone_def)

text \<open>A thread that comes back from \<open>resume()\<close> after another one has taken the job to its end.\<close>

lemma comes_back_late:
  assumes "race_reachable threads s0 (race_job (Some 0) (replicate k AwaitOp) pts)" "pts u = [AtDone 0]" "pts t = []" "t < threads"
  shows "\<exists>s. race_reachable threads s0 s \<and> misuse s"
proof -
  let ?ts = "concat (replicate k [t, t, t, t]) @ [t, t, t, t, t, t, t]"
  have "\<forall>x \<in> set ?ts. x < threads" using assms(4) by auto
  from race_reachable_schedule [OF assms(1) this] have "race_reachable threads s0 (race_gone pts)"
    using awaits_down [of pts t k 0] runs_to_end [of pts t] assms(3) by simp
  then have "race_reachable threads s0 (tick_fun u (race_gone pts))"
    by (rule race_reachable_fun) (use assms(2) in \<open>simp add: race_gone_def race_job_def\<close>)
  with asks_gone [of pts u] assms(2) show ?thesis by blast
qed

section \<open>The result of starting an operation\<close>

text \<open>
  \<open>await_suspend\<close> of an awaitable with a value runs \<open>m_result = m_func(data)\<close>: the operation is
  on the queue before its result is stored.  Another thread may deliver the completion and
  resume the job in between.
\<close>

datatype start_step = StoreResult | Deliver bool | ResumeJob

text \<open>The awaitable after a step, and what \<open>await_resume\<close> gave, once it ran.\<close>

fun start_apply :: "'a \<Rightarrow> start_step \<Rightarrow> 'a awaitable \<times> 'a option option \<Rightarrow> 'a awaitable \<times> 'a option option" where
  "start_apply r StoreResult (a, out) = (a\<lparr>aw_result := Some r\<rparr>, out)"
| "start_apply r (Deliver ok) (a, out) = (deliver ok a, out)"
| "start_apply r ResumeJob (a, out) = (case await_resume_value a of (v, a') \<Rightarrow> (a', Some v))"

definition start_outcome :: "'a \<Rightarrow> start_step list \<Rightarrow> 'a option option" where
  "start_outcome r steps = snd (fold (start_apply r) steps (awaitable_new\<lparr>aw_suspended := True\<rparr>, None))"

section \<open>Properties\<close>

text \<open>
  C11. One thread is not enough.  A job is safe with a single thread on its queue when it is spawned
  on that very thread, as the handlers of a server are, or was started before: whatever the job and
  the tasks it awaits do, no frame is used after it was destroyed, and none is resumed while it is
  not suspended.  But \<open>Spawn\<close> runs the job on the thread that calls it: when another one does, as
  the main threads of client and server do, and the job awaits any operation, then it may ask
  \<open>done()\<close> of a job that the thread of the queue has taken to its end.
\<close>

theorem one_thread_safe:
  "(\<forall>s. race_reachable 1 (race_spawned 0 todo) s \<or> race_reachable 1 (race_queued todo) s \<longrightarrow> \<not> misuse s \<and> \<not> double_resume s) \<and>
   (\<exists>s. race_reachable 1 (race_spawned 1 (replicate (Suc n) AwaitOp)) s \<and> misuse s)"
proof
  show "\<forall>s. race_reachable 1 (race_spawned 0 todo) s \<or> race_reachable 1 (race_queued todo) s \<longrightarrow> \<not> misuse s \<and> \<not> double_resume s"
    using one_thread race_job_solo by (metis solo_def)
next
  let ?s0 = "race_spawned 1 (replicate (Suc n) AwaitOp)"
  let ?pts = "(\<lambda>_. [])(1 := [AtDone 0])"
  have "race_reachable 1 ?s0 (tick_fun 1 ?s0)"
    by (rule race_reachable_fun [OF race_start]) (simp add: race_spawned_def race_job_def)
  then have "race_reachable 1 ?s0 (tick_fun 1 (tick_fun 1 ?s0))"
    by (rule race_reachable_fun) (simp add: tick_compute race_spawned_def)
  moreover have "tick_fun 1 (tick_fun 1 ?s0) = race_job (Some 0) (replicate n AwaitOp) ?pts"
    by (simp add: tick_compute race_spawned_def fun_eq_iff)
  ultimately have "race_reachable 1 ?s0 (race_job (Some 0) (replicate n AwaitOp) ?pts)" by simp
  then show "\<exists>s. race_reachable 1 ?s0 s \<and> misuse s"
    by (rule comes_back_late [where u = 1 and t = 0]) simp_all
qed

text \<open>A job that calls a task, which awaits an operation; both end on the thread of the queue.\<close>

theorem one_thread_safe_witness:
  "\<exists>s. race_reachable 1 (race_spawned 0 [CallTask, AwaitOp, EndTask]) s \<and> frame_state s 0 = Gone \<and> frame_state s 1 = Gone \<and>
     \<not> misuse s \<and> \<not> double_resume s"
proof -
  let ?new = "race_spawned 0 [CallTask, AwaitOp, EndTask]"
  let ?s = "fold tick_fun (replicate 18 0) ?new"
  have r: "race_reachable 1 ?new ?s" by (rule race_reachable_schedule [OF race_start]) simp
  have "frame_state ?s 0 = Gone \<and> frame_state ?s 1 = Gone"
    by (simp add: tick_compute race_spawned_def numeral_eq_Suc)
  with one_thread_safe [of "[CallTask, AwaitOp, EndTask]" 0] r show ?thesis by blast
qed

text \<open>
  Any number of threads is safe for a job that runs to its end without another await: only the
  thread that dequeued its completion touches it.
\<close>

theorem last_run_safe:
  assumes "race_reachable threads (race_queued todo) s" and "AwaitOp \<notin> set todo"
  shows "\<not> misuse s \<and> \<not> double_resume s"
proof -
  have "last_run (race_queued todo)"
    using assms(2) race_job_solo(2) by (auto simp: last_run_def race_queued_def race_job_def)
  from last_run_reachable [OF assms(1) this] show ?thesis by (auto simp: last_run_def solo_def)
qed

theorem last_run_safe_witness:
  "race_reachable 4 (race_queued [CallTask]) (tick_fun 3 (race_queued [CallTask])) \<and> \<not> misuse (tick_fun 3 (race_queued [CallTask]))"
proof -
  have r: "race_reachable 4 (race_queued [CallTask]) (tick_fun 3 (race_queued [CallTask]))"
    by (rule race_reachable_fun [OF race_start]) simp
  show ?thesis using r last_run_safe [OF r] by simp
qed

text \<open>
  C14. With two or more threads on the queue and a job that awaits once more, there is a
  schedule in which a thread uses the handle of a job that another thread has already
  destroyed: \<open>Resume\<close> asks \<open>done()\<close> after \<open>resume()\<close> gave the job away.
\<close>

theorem shared_queue_misuse:
  assumes "2 \<le> threads" and "0 < n"
  shows "\<exists>s. race_reachable threads (race_queued (replicate n AwaitOp)) s \<and> misuse s"
proof -
  let ?s0 = "race_queued (replicate n AwaitOp)" and ?pts = "(\<lambda>_. [])(0 := [AtDone 0])"
  obtain k where n: "n = Suc k" using assms(2) by (cases n) auto
  have "race_reachable threads ?s0 (fold tick_fun [0, 0, 0] ?s0)"
    by (rule race_reachable_schedule [OF race_start]) (use assms(1) in auto)
  moreover have "fold tick_fun [0, 0, 0] ?s0 = race_job (Some 0) (replicate k AwaitOp) ?pts"
    by (simp add: n tick_compute race_queued_def fun_eq_iff)
  ultimately have "race_reachable threads ?s0 (race_job (Some 0) (replicate k AwaitOp) ?pts)" by simp
  then show ?thesis by (rule comes_back_late [where u = 0 and t = 1]) (use assms(1) in simp_all)
qed

theorem shared_queue_misuse_witness: "\<exists>s. race_reachable 2 (race_queued [AwaitOp]) s \<and> misuse s"
  using shared_queue_misuse [of 2 1] by simp

text \<open>
  The value of a started call is lost when the job is resumed before it was stored: of the
  three orders of the steps of two threads, the last one reports a call that was started
  successfully as cancelled.
\<close>

theorem started_call_outcomes:
  "start_outcome r [StoreResult, Deliver ok, ResumeJob] = Some (if ok then Some r else None) \<and>
   start_outcome r [Deliver ok, StoreResult, ResumeJob] = Some (if ok then Some r else None) \<and>
   start_outcome r [Deliver ok, ResumeJob, StoreResult] = Some None"
  by (simp add: start_outcome_def await_resume_value_def deliver_def awaitable_new_def)

end
