(* ===== verification/RoundRobin.thy ===== *)
theory RoundRobin
  imports Prelude "HOL-Library.Word"
begin

text \<open>
  The interface \<open>round_robin\<close> of the two places that spread work over a list of targets with
  an atomic counter: \<open>Server::SelectNextExecutor\<close> and \<open>ChannelProvider::SelectNextChannel\<close>.
  The counter is a \<open>size_t\<close>, 64 bits that wrap around, and the index is its remainder; without
  targets the remainder is a division by zero.
\<close>

primrec select_many :: "('s \<Rightarrow> (nat \<times> 's) outcome) \<Rightarrow> nat \<Rightarrow> 's \<Rightarrow> (nat list \<times> 's) outcome" where
  "select_many select 0 s = Ok ([], s)"
| "select_many select (Suc n) s = obind (select s) (\<lambda>(i, s').
     obind (select_many select n s') (\<lambda>(js, s''). Ok (i # js, s'')))"

locale round_robin =
  fixes select :: "'s \<Rightarrow> (nat \<times> 's) outcome"
    and counter :: "'s \<Rightarrow> 64 word"
    and targets :: "'s \<Rightarrow> nat"
  assumes select_next: "0 < targets s \<Longrightarrow> \<exists>s'. select s = Ok (unat (counter s) mod targets s, s') \<and>
            counter s' = counter s + 1 \<and> targets s' = targets s"
    and select_none: "targets s = 0 \<Longrightarrow> select s = Fault DivisionByZero"
begin

lemma select_many_total:
  "0 < targets s \<Longrightarrow> \<exists>js s'. select_many select n s = Ok (js, s') \<and> length js = n \<and>
     (\<forall>i \<in> set js. i < targets s)"
proof (induction n arbitrary: s)
  case (Suc n)
  from select_next [OF Suc.prems] obtain s1 where s1: "select s = Ok (unat (counter s) mod targets s, s1)"
    "targets s1 = targets s" by blast
  with Suc obtain js s2 where "select_many select n s1 = Ok (js, s2)" "length js = n"
    "\<forall>i \<in> set js. i < targets s" by metis
  with s1 Suc.prems show ?case by simp
qed simp

lemma select_many_indexes:
  "0 < targets s \<Longrightarrow> unat (counter s) + n \<le> 2 ^ 64 \<Longrightarrow>
     \<exists>s'. select_many select n s =
       Ok (map (\<lambda>i. i mod targets s) [unat (counter s)..<unat (counter s) + n], s')"
proof (induction n arbitrary: s)
  case (Suc n)
  from select_next [OF Suc.prems(1)] obtain s1 where
    s1: "select s = Ok (unat (counter s) mod targets s, s1)" "counter s1 = counter s + 1"
        "targets s1 = targets s" by blast
  show ?case
  proof (cases n)
    case 0
    with s1 show ?thesis by (simp add: upt_rec)
  next
    case (Suc k)
    then have "unat (counter s) + 1 < 2 ^ 64" using Suc.prems(2) by simp
    then have c1: "unat (counter s1) = Suc (unat (counter s))"
      by (simp add: s1(2) unat_word_ariths)
    then obtain s2 where "select_many select n s1 = Ok
        (map (\<lambda>i. i mod targets s1) [unat (counter s1)..<unat (counter s1) + n], s2)"
      using Suc.IH [of s1] Suc.prems s1(3) by auto
    with s1 c1 show ?thesis by (simp add: upt_rec [of "unat (counter s)"])
  qed
qed simp

text \<open>As long as the counter does not wrap, the load of any two targets differs by at most one.\<close>

lemma balanced:
  assumes "i < targets s" and "unat (counter s) + n \<le> 2 ^ 64"
  shows "\<exists>js s'. select_many select n s = Ok (js, s') \<and> length js = n \<and>
     count_list js i \<in> {n div targets s, n div targets s + 1}"
proof -
  from assms(1) have "0 < targets s" by simp
  from select_many_indexes [OF this assms(2)] obtain s' where
    "select_many select n s = Ok (map (\<lambda>i. i mod targets s) [unat (counter s)..<unat (counter s) + n], s')"
    by blast
  with count_residues [OF assms(1), of "unat (counter s)" n] show ?thesis by (metis add_diff_cancel_left' length_map length_upt)
qed

lemma fair_window:
  assumes "0 < targets s" and "unat (counter s) + targets s \<le> 2 ^ 64"
  shows "\<exists>js s'. select_many select (targets s) s = Ok (js, s') \<and> distinct js \<and> set js = {..<targets s}"
proof -
  define js where "js = map (\<lambda>i. i mod targets s) [unat (counter s)..<unat (counter s) + targets s]"
  from select_many_indexes [OF assms] obtain s' where "select_many select (targets s) s = Ok (js, s')"
    unfolding js_def by blast
  moreover have "distinct js"
    unfolding js_def distinct_map using inj_on_residue_window [OF assms(1)] by simp
  moreover have "set js = {..<targets s}"
    unfolding js_def set_map set_upt by (rule residue_window [OF assms(1)])
  ultimately show ?thesis by blast
qed

lemma wrap_repeats:
  assumes "counter s = - 1" and "targets s = 3"
  shows "\<exists>s'. select_many select 2 s = Ok ([0, 0], s')"
proof -
  from select_next [of s] assms(2) obtain s1 where
    s1: "select s = Ok (unat (counter s) mod 3, s1)" "counter s1 = counter s + 1" "targets s1 = 3" by auto
  from select_next [of s1] s1(3) obtain s2 where
    s2: "select s1 = Ok (unat (counter s1) mod 3, s2)" by auto
  have "unat (- 1 :: 64 word) mod 3 = 0" by (simp add: unsigned_minus_1_eq_mask mask_eq_exp_minus_1)
  moreover have "unat (counter s1) = 0" using s1(2) assms(1) by simp
  ultimately show ?thesis using s1(1) s2 assms(1) by (simp add: numeral_2_eq_2)
qed

end

end
