(* ===== verification/Status.thy ===== *)
theory Status
  imports Prelude
begin

text \<open>
  gRPC statuses as the program uses them, and their printing
  (\<^verbatim>\<open>async_grpc/async_grpc/iostream.cpp\<close>).

  \<open>StatusCode\<close> is an enumeration of gRPC; a value outside its enumerators is \<open>OtherCode\<close>.
  The number of an enumerator is gRPC's, and is the parameter \<open>number\<close> of the printing.
\<close>

datatype status_code =
    OK | CANCELLED | UNKNOWN | INVALID_ARGUMENT | DEADLINE_EXCEEDED | NOT_FOUND
  | ALREADY_EXISTS | PERMISSION_DENIED | UNAUTHENTICATED | RESOURCE_EXHAUSTED
  | FAILED_PRECONDITION | ABORTED | OUT_OF_RANGE | UNIMPLEMENTED | INTERNAL
  | UNAVAILABLE | DATA_LOSS | DO_NOT_USE | OtherCode int

record status =
  error_code :: status_code
  error_message :: string

definition status_ok :: "status \<Rightarrow> bool" where
  "status_ok st \<longleftrightarrow> error_code st = OK"

definition Status_OK :: status where
  "Status_OK = \<lparr>error_code = OK, error_message = []\<rparr>"

definition Status_CANCELLED :: status where
  "Status_CANCELLED = \<lparr>error_code = CANCELLED, error_message = []\<rparr>"

definition Status :: "status_code \<Rightarrow> string \<Rightarrow> status" where
  "Status c msg = \<lparr>error_code = c, error_message = msg\<rparr>"

lemma status_ok_simps [simp]:
  "status_ok Status_OK" "\<not> status_ok Status_CANCELLED"
  "status_ok (Status c m) \<longleftrightarrow> c = OK"
  "error_code (Status c m) = c" "error_message (Status c m) = m"
  "error_code Status_CANCELLED = CANCELLED"
  by (simp_all add: status_ok_def Status_OK_def Status_CANCELLED_def Status_def)

text \<open>The \<open>default\<close> label of the switch asserts.\<close>

fun to_string :: "status_code \<Rightarrow> string outcome" where
  "to_string OK = Ok ''OK''"
| "to_string CANCELLED = Ok ''CANCELLED''"
| "to_string UNKNOWN = Ok ''UNKNOWN''"
| "to_string INVALID_ARGUMENT = Ok ''INVALID_ARGUMENT''"
| "to_string DEADLINE_EXCEEDED = Ok ''DEADLINE_EXCEEDED''"
| "to_string NOT_FOUND = Ok ''NOT_FOUND''"
| "to_string ALREADY_EXISTS = Ok ''ALREADY_EXISTS''"
| "to_string PERMISSION_DENIED = Ok ''PERMISSION_DENIED''"
| "to_string UNAUTHENTICATED = Ok ''UNAUTHENTICATED''"
| "to_string RESOURCE_EXHAUSTED = Ok ''RESOURCE_EXHAUSTED''"
| "to_string FAILED_PRECONDITION = Ok ''FAILED_PRECONDITION''"
| "to_string ABORTED = Ok ''ABORTED''"
| "to_string OUT_OF_RANGE = Ok ''OUT_OF_RANGE''"
| "to_string UNIMPLEMENTED = Ok ''UNIMPLEMENTED''"
| "to_string INTERNAL = Ok ''INTERNAL''"
| "to_string UNAVAILABLE = Ok ''UNAVAILABLE''"
| "to_string DATA_LOSS = Ok ''DATA_LOSS''"
| "to_string DO_NOT_USE = Ok ''DO_NOT_USE''"
| "to_string (OtherCode n) = Fault AssertFailed"

definition code_int :: "(status_code \<Rightarrow> int) \<Rightarrow> status_code \<Rightarrow> int" where
  "code_int number c = (case c of OtherCode n \<Rightarrow> n | _ \<Rightarrow> number c)"

definition print_code :: "(status_code \<Rightarrow> int) \<Rightarrow> status_code \<Rightarrow> string outcome" where
  "print_code number c = obind (to_string c)
     (\<lambda>name. Ok (name @ ''('' @ show_int (code_int number c) @ '')''))"

definition print_status :: "(status_code \<Rightarrow> int) \<Rightarrow> status \<Rightarrow> string outcome" where
  "print_status number st = obind (print_code number (error_code st))
     (\<lambda>out. Ok (if status_ok st then out else out @ '': '' @ error_message st))"

text \<open>Reading a printed status back: the name up to the bracket, the message after the colon.\<close>

definition enumerators :: "status_code list" where
  "enumerators = [OK, CANCELLED, UNKNOWN, INVALID_ARGUMENT, DEADLINE_EXCEEDED, NOT_FOUND,
     ALREADY_EXISTS, PERMISSION_DENIED, UNAUTHENTICATED, RESOURCE_EXHAUSTED,
     FAILED_PRECONDITION, ABORTED, OUT_OF_RANGE, UNIMPLEMENTED, INTERNAL, UNAVAILABLE,
     DATA_LOSS, DO_NOT_USE]"

definition read_code :: "string \<Rightarrow> status_code option" where
  "read_code s = find (\<lambda>c. to_string c = Ok (takeWhile (\<lambda>x. x \<noteq> CHR ''('') s)) enumerators"

definition read_message :: "string \<Rightarrow> string" where
  "read_message s = drop 3 (dropWhile (\<lambda>x. x \<noteq> CHR '')'') s)"

lemma find_enumerator:
  "to_string c \<noteq> Fault AssertFailed \<Longrightarrow> find (\<lambda>c'. to_string c' = to_string c) enumerators = Some c"
  by (cases c) (simp_all add: enumerators_def)

lemma to_string_no_bracket: "to_string c = Ok name \<Longrightarrow> CHR '')'' \<notin> set name \<and> CHR ''('' \<notin> set name"
  by (cases c) auto

lemma takeWhile_to_bracket:
  "x \<notin> set xs \<Longrightarrow> takeWhile (\<lambda>y. y \<noteq> x) (xs @ x # ys) = xs"
  by (induction xs) auto

lemma digit_not_bracket:
  assumes "d < 10"
  shows "digit d \<noteq> CHR '')''"
proof
  assume "digit d = CHR '')''"
  then have "(of_char (digit d) :: nat) = of_char (CHR '')'')" by simp
  with assms show False by (simp add: digit_def)
qed

lemma show_nat_no_bracket: "CHR '')'' \<notin> set (show_nat n)"
proof (induction n rule: show_nat.induct)
  case (1 n)
  then show ?case
    using digit_not_bracket [of n] digit_not_bracket [of "n mod 10"]
    by (subst show_nat.simps) auto
qed

lemma show_int_no_bracket: "CHR '')'' \<notin> set (show_int i)"
  by (simp add: show_int_def show_nat_no_bracket)

lemma dropWhile_to_bracket:
  "x \<notin> set xs \<Longrightarrow> dropWhile (\<lambda>y. y \<noteq> x) (xs @ x # ys) = x # ys"
  by (induction xs) auto

text \<open>
  C40. A printed status can be read back: the text names the status code, and for an error it
  ends with the error message.
\<close>

theorem print_status_roundtrip:
  assumes "print_status number st = Ok out"
  shows "read_code out = Some (error_code st) \<and> (\<not> status_ok st \<longrightarrow> read_message out = error_message st)"
proof -
  from assms obtain name where name: "to_string (error_code st) = Ok name"
    and eq: "out = name @ CHR ''('' # (show_int (code_int number (error_code st)) @
      CHR '')'' # (if status_ok st then [] else '': '' @ error_message st))"
    by (cases "status_ok st") (auto simp: print_status_def print_code_def obind_eq_Ok_iff)
  from to_string_no_bracket [OF name]
  have free: "CHR '')'' \<notin> set name" "CHR ''('' \<notin> set name" by blast+
  have "read_code out = Some (error_code st)"
    using find_enumerator [of "error_code st"] takeWhile_to_bracket [OF free(2)] name
    by (simp add: read_code_def eq)
  moreover have "read_message out = error_message st" if "\<not> status_ok st"
  proof -
    let ?pre = "name @ CHR ''('' # show_int (code_int number (error_code st))"
    have "CHR '')'' \<notin> set ?pre" using free(1) show_int_no_bracket by simp
    from dropWhile_to_bracket [OF this] that show ?thesis by (simp add: read_message_def eq)
  qed
  ultimately show ?thesis by blast
qed

theorem print_status_roundtrip_witness:
  "\<exists>out. print_status (\<lambda>_. 5) (Status NOT_FOUND ''gone'') = Ok out \<and>
     read_code out = Some NOT_FOUND \<and> read_message out = ''gone''"
proof -
  have h: "print_status (\<lambda>_. 5) (Status NOT_FOUND ''gone'') =
      Ok (''NOT_FOUND('' @ show_int 5 @ ''): gone'')"
    by (simp add: print_status_def print_code_def code_int_def)
  from print_status_roundtrip [OF h] h show ?thesis by simp
qed

end
