(* ===== verification/Expected.thy ===== *)
theory Expected
  imports Prelude
begin

text \<open>
  \<^verbatim>\<open>utils/expected.hpp\<close>: a variant of a value (index 0) and an error (index 1).  The
  overloads for references and moves read the same alternative.
\<close>

datatype 'e unexpected = Unexpected 'e

fun unexpected_error :: "'e unexpected \<Rightarrow> 'e" where
  "unexpected_error (Unexpected e) = e"

datatype ('t, 'e) expected = Value 't | Error 'e

text \<open>Construction: from nothing (a value-initialised \<open>T\<close>), a value or an \<open>unexpected\<close>.\<close>

definition expected_default :: "'t \<Rightarrow> ('t, 'e) expected" where
  "expected_default value_init = Value value_init"

definition expected_value :: "'t \<Rightarrow> ('t, 'e) expected" where
  "expected_value t = Value t"

definition expected_unexpected :: "('u \<Rightarrow> 'e) \<Rightarrow> 'u unexpected \<Rightarrow> ('t, 'e) expected" where
  "expected_unexpected convert e = Error (convert (unexpected_error e))"

fun has_value :: "('t, 'e) expected \<Rightarrow> bool" where
  "has_value (Value t) \<longleftrightarrow> True"
| "has_value (Error e) \<longleftrightarrow> False"

text \<open>\<open>std::get\<close> throws when the variant holds the other alternative.\<close>

fun expected_get :: "('t, 'e) expected \<Rightarrow> 't outcome" where
  "expected_get (Value t) = Ok t"
| "expected_get (Error e) = Fault BadVariantAccess"

fun expected_error :: "('t, 'e) expected \<Rightarrow> 'e outcome" where
  "expected_error (Value t) = Fault BadVariantAccess"
| "expected_error (Error e) = Ok e"

definition value_or :: "('t, 'e) expected \<Rightarrow> 't \<Rightarrow> 't" where
  "value_or x default_value = (case x of Value t \<Rightarrow> t | Error e \<Rightarrow> default_value)"

text \<open>\<open>std::optional::value_or\<close>, which the program applies to the value it got.\<close>

definition optional_value_or :: "'t option \<Rightarrow> 't \<Rightarrow> 't" where
  "optional_value_or x default_value = (case x of Some t \<Rightarrow> t | None \<Rightarrow> default_value)"

lemma has_value_iff: "has_value x \<longleftrightarrow> (\<exists>t. x = Value t)"
  by (cases x) auto

lemma value_or_simps [simp]:
  "value_or (Value t) d = t" "value_or (Error e) d = d"
  "optional_value_or (Some t) d = t" "optional_value_or None d = d"
  by (simp_all add: value_or_def optional_value_or_def)

text \<open>
  An \<open>expected\<close> is a value or an error, never both: exactly one of the two accessors
  succeeds, \<open>has_value\<close> says which, and \<open>value_or\<close> is the guarded access.
\<close>

theorem expected_access:
  "(\<exists>t. expected_get x = Ok t \<and> expected_error x = Fault BadVariantAccess \<and> has_value x \<and> value_or x d = t) \<or>
   (\<exists>e. expected_error x = Ok e \<and> expected_get x = Fault BadVariantAccess \<and> \<not> has_value x \<and> value_or x d = d)"
  by (cases x) simp_all

end
