(* ===== verification/Logs.thy ===== *)
theory Logs
  imports Prelude "HOL-Library.Multiset"
begin

text \<open>
  \<^verbatim>\<open>utils/logs.hpp\<close> and \<^verbatim>\<open>utils/logs.cpp\<close>: a \<open>Log\<close> collects a line in a string stream
  and prints it when it is destroyed.  Logs are moved (\<open>auto log = Log() << \<dots>\<close>,
  \<open>return Log() << \<dots>\<close>); a moved-from one has its \<open>badbit\<close> set and prints nothing.

  The thread identifier and the formatted time are the environment's, and parameters.
\<close>

record log =
  out_text :: string
  out_good :: bool

text \<open>\<open>setfill('0') << setw(3)\<close>.\<close>

definition pad3 :: "string \<Rightarrow> string" where
  "pad3 s = replicate (3 - length s) (CHR ''0'') @ s"

definition Log_header :: "string \<Rightarrow> string \<Rightarrow> nat \<Rightarrow> string" where
  "Log_header thread_id time ms =
     ''['' @ thread_id @ ''] <'' @ time @ ''.'' @ pad3 (show_nat (ms mod 1000)) @ ''> ''"

definition Log_new :: "string \<Rightarrow> string \<Rightarrow> nat \<Rightarrow> log" where
  "Log_new thread_id time ms = \<lparr>out_text = Log_header thread_id time ms, out_good = True\<rparr>"

text \<open>Output to a stream that is not good is dropped.\<close>

definition Log_append :: "string \<Rightarrow> log \<Rightarrow> log" where
  "Log_append t l = (if out_good l then l\<lparr>out_text := out_text l @ t\<rparr> else l)"

definition Log_move :: "log \<Rightarrow> log \<times> log" where
  "Log_move other = (other, \<lparr>out_text = [], out_good = False\<rparr>)"

text \<open>The destructor prints the line to standard output, a list of lines.\<close>

definition Log_destroy :: "log \<Rightarrow> string list \<Rightarrow> string list" where
  "Log_destroy l stdout = (if out_good l then stdout @ [out_text l] else stdout)"

text \<open>
  A life of a log: pieces appended and moves to a new object, in any order; each move leaves
  the old object to be destroyed at some later time.
\<close>

datatype log_use = Append string | Move

fun log_life :: "log_use list \<Rightarrow> log \<times> log list \<Rightarrow> log \<times> log list" where
  "log_life [] (l, old) = (l, old)"
| "log_life (Append t # us) (l, old) = log_life us (Log_append t l, old)"
| "log_life (Move # us) (l, old) = (case Log_move l of (new, l') \<Rightarrow> log_life us (new, l' # old))"

fun pieces :: "log_use list \<Rightarrow> string" where
  "pieces [] = []"
| "pieces (Append t # us) = t @ pieces us"
| "pieces (Move # us) = pieces us"

lemma pad3_length: "n < 1000 \<Longrightarrow> length (pad3 (show_nat n)) = 3"
  using show_nat_length [of n] by (simp add: pad3_def)

lemma log_life_good:
  "out_good l \<Longrightarrow> \<forall>o' \<in> set old. \<not> out_good o' \<Longrightarrow> log_life us (l, old) = (l', old') \<Longrightarrow>
     out_good l' \<and> out_text l' = out_text l @ pieces us \<and> (\<forall>o' \<in> set old'. \<not> out_good o')"
proof (induction us "(l, old)" arbitrary: l old rule: log_life.induct)
  case (2 t us l old)
  then show ?case by (force simp: Log_append_def)
next
  case (3 us l old)
  then show ?case by (auto simp: Log_move_def)
qed simp

lemma fold_Log_destroy: "fold Log_destroy ls stdout = stdout @ map out_text (filter out_good ls)"
  by (induction ls arbitrary: stdout) (auto simp: Log_destroy_def)

text \<open>
  A log prints its line once.  However it is passed on while it is written, and in
  whatever order the objects are destroyed, the output is the header followed by everything
  appended, as one line.
\<close>

theorem log_prints_once:
  assumes "log_life us (Log_new tid time ms, []) = (l, old)" and "mset objects = mset (l # old)"
  shows "fold Log_destroy objects stdout = stdout @ [Log_header tid time ms @ pieces us]"
proof -
  from log_life_good [OF _ _ assms(1)] have l: "out_good l" "\<forall>x \<in> set old. \<not> out_good x"
    "out_text l = Log_header tid time ms @ pieces us"
    by (auto simp: Log_new_def)
  have "mset (filter out_good objects) = mset (filter out_good (l # old))"
    using assms(2) by (simp only: mset_filter)
  also have "filter out_good (l # old) = [l]" using l(1,2) by simp
  finally have "mset (filter out_good objects) = {#l#}" by simp
  then have "filter out_good objects = [l]" by (simp only: mset_single_iff)
  with l(3) show ?thesis by (simp add: fold_Log_destroy)
qed

theorem log_prints_once_witness:
  "\<exists>l old. log_life [Append ''a'', Move, Append ''b''] (Log_new ''7'' ''noon'' 5, []) = (l, old) \<and>
     fold Log_destroy (old @ [l]) [] = [Log_header ''7'' ''noon'' 5 @ ''ab'']"
proof -
  let ?l = "\<lparr>out_text = Log_header ''7'' ''noon'' 5 @ ''ab'', out_good = True\<rparr>"
  let ?o = "\<lparr>out_text = [], out_good = False\<rparr>"
  have h: "log_life [Append ''a'', Move, Append ''b''] (Log_new ''7'' ''noon'' 5, []) = (?l, [?o])"
    by (simp add: Log_new_def Log_append_def Log_move_def)
  have "mset [?o, ?l] = mset [?l, ?o]" by simp
  from log_prints_once [OF h this, of "[]"] h show ?thesis by simp
qed

end
