(* ===== verification/AsyncTypes.thy ===== *)
theory AsyncTypes
  imports AsyncCalls
begin

text \<open>
  Well-formed worlds of \<open>AsyncLib\<close>: what the code relies on when it follows a pointer.  Every
  function of the library keeps them, for any program, so they hold of every world a program
  makes from the empty one.
\<close>

section \<open>Well-formed worlds\<close>

text \<open>\<open>started w h\<close>: the frame was allocated, and while it exists it has an executor.\<close>

definition started :: "('p, 'op, 'r, 'v, 's) world \<Rightarrow> hdl \<Rightarrow> bool" where
  "started w h \<longleftrightarrow> h < fresh w \<and> (\<forall>f. heap w h = Some f \<longrightarrow> executor f \<noteq> None)"

text \<open>
  A frame that has left its initial suspension has an executor, a parent was started, and an
  awaited frame was allocated.
\<close>

definition frame_ok :: "('p, 'op, 'r, 'v, 's) world \<Rightarrow> ('p, 'r, 'v) frame \<Rightarrow> bool" where
  "frame_ok w f \<longleftrightarrow> ((\<exists>pt. status f = Initial pt) \<or> executor f \<noteq> None) \<and>
     (\<forall>p. parent f = Some p \<longrightarrow> started w p) \<and> (\<forall>t k. status f = AwTask t k \<longrightarrow> t < fresh w)"

definition wf_world :: "('p, 'op, 'r, 'v, 's) world \<Rightarrow> bool" where
  "wf_world w \<longleftrightarrow> fresh_above w \<and> (\<forall>e. \<forall>h \<in> set (ready w e). started w h) \<and>
     (\<forall>h f. heap w h = Some f \<longrightarrow> frame_ok w f)"

definition grows :: "('p, 'op, 'r, 'v, 's) world \<Rightarrow> ('p, 'op, 'r, 'v, 's) world \<Rightarrow> bool" where
  "grows w w' \<longleftrightarrow> wf_world w' \<and> fresh w \<le> fresh w' \<and> (\<forall>h. started w h \<longrightarrow> started w' h)"

lemma grows_refl: "wf_world w \<Longrightarrow> grows w w"
  by (simp add: grows_def)

lemma grows_trans: "grows w w1 \<Longrightarrow> grows w1 w2 \<Longrightarrow> grows w w2"
  by (auto simp: grows_def)

lemma growsD: "grows w w' \<Longrightarrow> wf_world w'" "grows w w' \<Longrightarrow> started w h \<Longrightarrow> started w' h"
  "grows w w' \<Longrightarrow> h < fresh w \<Longrightarrow> h < fresh w'"
  by (auto simp: grows_def)

lemma frame_ok_mono:
  "frame_ok w f \<Longrightarrow> fresh w \<le> fresh w' \<Longrightarrow> (\<And>h. started w h \<Longrightarrow> started w' h) \<Longrightarrow> frame_ok w' f"
  unfolding frame_ok_def by (meson less_le_trans)

lemma wf_below: "wf_world w \<Longrightarrow> heap w h = Some f \<Longrightarrow> h < fresh w"
  by (auto simp: wf_world_def intro: fresh_above_less)

lemma wf_frame: "wf_world w \<Longrightarrow> heap w h = Some f \<Longrightarrow> frame_ok w f"
  by (simp add: wf_world_def)

section \<open>The changes of a world\<close>

lemma grows_on_frame:
  assumes "wf_world w"
    and g: "\<And>f. heap w h = Some f \<Longrightarrow> frame_ok w (g f) \<and> (executor f \<noteq> None \<longrightarrow> executor (g f) \<noteq> None)"
  shows "grows w (on_frame h g w)"
proof -
  let ?w = "on_frame h g w"
  have st: "started ?w x" if "started w x" for x
    using that g by (auto simp: started_def on_frame_def)
  have fr: "fresh ?w = fresh w" "ready ?w = ready w" by (simp_all add: on_frame_def)
  have "frame_ok ?w f" if "heap ?w x = Some f" for x f
  proof (rule frame_ok_mono [OF _ _ st])
    show "frame_ok w f" using that g assms(1) by (auto simp: on_frame_def wf_world_def split: if_splits)
  qed (simp add: fr)
  moreover have "fresh_above ?w" using assms(1) by (auto simp: wf_world_def fresh_above_def on_frame_def)
  ultimately show ?thesis
    using assms(1) st fr by (auto simp: grows_def wf_world_def)
qed

lemma grows_set_status:
  assumes "wf_world w" "started w h" "\<And>t k. st = AwTask t k \<Longrightarrow> t < fresh w"
  shows "grows w (set_status h st w)"
  unfolding set_status_def
  using assms by (intro grows_on_frame) (auto simp: frame_ok_def started_def dest: wf_frame)

lemma grows_finish: "wf_world w \<Longrightarrow> started w h \<Longrightarrow> grows w (finish h v w)"
  unfolding finish_def by (intro grows_on_frame) (auto simp: frame_ok_def started_def dest: wf_frame)

lemma grows_set_executor: "wf_world w \<Longrightarrow> e \<noteq> None \<Longrightarrow> grows w (on_frame h (\<lambda>f. f\<lparr>executor := e\<rparr>) w)"
  by (intro grows_on_frame) (auto simp: frame_ok_def dest: wf_frame)

lemma started_set_executor:
  "h < fresh w \<Longrightarrow> e \<noteq> None \<Longrightarrow> started (on_frame h (\<lambda>f. f\<lparr>executor := e\<rparr>) w) h"
  by (auto simp: started_def on_frame_def)

lemma grows_set_parent:
  "wf_world w \<Longrightarrow> started w p \<Longrightarrow> grows w (on_frame h (\<lambda>f. f\<lparr>parent := Some p\<rparr>) w)"
  by (intro grows_on_frame) (auto simp: frame_ok_def dest: wf_frame)

lemma grows_allocate:
  assumes "wf_world w" "allocate p w = (c, w1)"
  shows "grows w w1" "c < fresh w1"
proof -
  have w1: "w1 = w\<lparr>heap := (heap w)(fresh w \<mapsto> new_frame p), fresh := Suc (fresh w)\<rparr>" "c = fresh w"
    using assms(2) by (auto simp: allocate_def)
  have st: "started w1 x" if "started w x" for x using that by (auto simp: started_def w1)
  have "frame_ok w1 f" if "heap w1 x = Some f" for x f
  proof (cases "x = fresh w")
    case True
    with that have "f = new_frame p" by (simp add: w1)
    then show ?thesis by (simp add: new_frame_def frame_ok_def)
  next
    case False
    with that have "frame_ok w f" using assms(1) by (simp add: w1 wf_world_def)
    then show ?thesis by (rule frame_ok_mono [OF _ _ st]) (simp_all add: w1)
  qed
  moreover have "fresh_above w1" using assms(1) by (auto simp: w1 wf_world_def fresh_above_def)
  ultimately show "grows w w1" using assms(1) st by (auto simp: grows_def wf_world_def w1)
  show "c < fresh w1" by (simp add: w1)
qed

lemma grows_fields:
  assumes "wf_world w" "fresh w' = fresh w" "\<And>x f. heap w' x = Some f \<Longrightarrow> heap w x = Some f"
    and "\<And>e h. h \<in> set (ready w' e) \<Longrightarrow> started w h"
  shows "grows w w'"
proof -
  have st: "started w' x" if "started w x" for x using that assms(2,3) by (auto simp: started_def)
  have "frame_ok w' f" if "heap w' x = Some f" for x f
    using wf_frame [OF assms(1) assms(3) [OF that]] by (rule frame_ok_mono [OF _ _ st]) (simp_all add: assms(2))
  moreover have "fresh_above w'" using assms(1-3) unfolding wf_world_def fresh_above_def by (metis option.exhaust option.distinct(1))
  ultimately show ?thesis using st assms(2,4) by (auto simp: grows_def wf_world_def)
qed

lemma grows_destroy: "wf_world w \<Longrightarrow> grows w (destroy h w)"
  by (rule grows_fields) (auto simp: destroy_def wf_world_def split: if_splits)

lemma grows_mark_ready: "wf_world w \<Longrightarrow> started w h \<Longrightarrow> grows w (mark_ready e h w)"
  by (rule grows_fields) (auto simp: mark_ready_def wf_world_def split: if_splits)

lemma grows_shared: "wf_world w \<Longrightarrow> grows w (w\<lparr>shared := s\<rparr>)"
  and grows_events: "wf_world w \<Longrightarrow> grows w (w\<lparr>events := es\<rparr>)"
  by (rule grows_fields, auto simp: wf_world_def)+

section \<open>The functions of the library\<close>

fun call_ok :: "('p, 'op, 'r, 'v, 's) world \<Rightarrow> ('p, 'v) call \<Rightarrow> bool" where
  "call_ok w (CRun h pt) = started w h"
| "call_ok w (CResumeHandle h) = started w h"
| "call_ok w (CResume h) = started w h"
| "call_ok w (CSpawnJob e h) = started w h"
| "call_ok w (CSpawn e c) = (c < fresh w)"
| "call_ok w (CAwaitTask h c k) = started w h"
| "call_ok w (CStartTask h c) = (started w h \<and> c < fresh w)"
| "call_ok w (CCrossTask h e c k) = started w h"

definition good_self :: "('pc, 'op, 'r, 'v, 's) self \<Rightarrow> bool" where
  "good_self self \<longleftrightarrow> (\<forall>c w w'. wf_world w \<longrightarrow> call_ok w c \<longrightarrow> self c w = Ok w' \<longrightarrow> grows w w')"

lemma good_call:
  "good_self self \<Longrightarrow> self c w1 = Ok w' \<Longrightarrow> grows w w1 \<Longrightarrow> call_ok w1 c \<Longrightarrow> grows w w'"
  unfolding good_self_def by (meson grows_trans growsD(1))

lemma take_result_grows:
  assumes "grows w0 w" "take_result c k w = Ok (pt, w1)"
  shows "grows w0 w1"
proof -
  have "w1 = destroy c w" using assms(2) by (auto simp: take_result_def obind_eq_Ok_iff split: option.splits)
  with assms(1) show ?thesis using grows_destroy grows_trans growsD(1) by blast
qed

lemma status_grows:
  assumes "grows w0 w" "started w0 h" "\<And>t k. st = AwTask t k \<Longrightarrow> t < fresh w"
  shows "grows w0 (set_status h st w)"
  using assms grows_set_status grows_trans growsD by metis

lemma notify_parent_grows:
  assumes "good_self self" "wf_world w" "notify_parent self p v w = Ok w'"
  shows "grows w w'"
proof -
  from assms(3) obtain f e u k where f: "heap w p = Some f" "executor f = Some e" "status f = AwCross u k"
    and call: "self (CSpawnJob e p) (set_status p (AwCross v k) w) = Ok w'"
    by (auto simp: notify_parent_def split: option.splits suspension.splits)
  have "started w p" using f(1,2) wf_below [OF assms(2) f(1)] by (simp add: started_def)
  then have "grows w (set_status p (AwCross v k) w)" using assms(2) by (intro grows_set_status) simp_all
  with \<open>started w p\<close> show ?thesis by (intro good_call [OF assms(1) call]) (auto dest: growsD)
qed

lemma resume_handle_grows:
  assumes "good_self self" "wf_world w" "started w h" "resume_handle_body self h w = Ok w'"
  shows "grows w w'"
proof -
  have running: "grows w w'" if "self (CRun h pt) (set_status h Running w1) = Ok w'" "grows w w1" for pt w1
  proof (rule good_call [OF assms(1) that(1)])
    show "grows w (set_status h Running w1)" by (rule status_grows [OF that(2) assms(3)]) simp
    then show "call_ok (set_status h Running w1) (CRun h pt)" using assms(3) by (simp add: growsD(2))
  qed
  show ?thesis
    using assms(4) running take_result_grows [OF grows_refl [OF assms(2)]] grows_refl [OF assms(2)]
    by (auto simp: resume_handle_body_def obind_eq_Ok_iff split: option.splits suspension.splits if_splits)
qed

lemma after_resume_grows:
  assumes "good_self self" "wf_world w" "after_resume self h w = Ok w'"
  shows "grows w w'"
proof -
  from assms(3) obtain f where f: "heap w h = Some f"
    by (auto simp: after_resume_def split: option.splits)
  define w1 where "w1 = (if destroyOnDone f then destroy h w else w)"
  have w1: "grows w w1" using assms(2) by (simp add: w1_def grows_destroy grows_refl)
  have "started w p" if "parent f = Some p" for p
    using wf_frame [OF assms(2) f] that by (simp add: frame_ok_def)
  then have "grows w w'" if "parent f = Some p" "self (CResume p) w1 = Ok w'" for p
    using good_call [OF assms(1) that(2) w1] that(1) growsD(2) [OF w1] by simp
  with w1 assms(2,3) f show ?thesis
    by (auto simp: after_resume_def w1_def [symmetric] Let_def grows_refl split: if_splits option.splits)
qed

lemma Resume_body_grows:
  assumes "good_self self" "wf_world w" "started w h" "Resume_body self h w = Ok w'"
  shows "grows w w'"
proof -
  from assms(4) obtain w1 where w1: "self (CResumeHandle h) w = Ok w1" "after_resume self h w1 = Ok w'"
    by (auto simp: Resume_body_def obind_eq_Ok_iff)
  have "grows w w1" using good_call [OF assms(1) w1(1) grows_refl [OF assms(2)]] assms(3) by simp
  then show ?thesis using after_resume_grows [OF assms(1) _ w1(2)] growsD(1) grows_trans by blast
qed

lemma spawn_job_grows:
  assumes "good_self self" "wf_world w" "started w h" "spawn_job_body P self e h w = Ok w'"
  shows "grows w w'"
proof (cases "mode P e")
  case Immediate
  with assms(4) have "self (CResume h) w = Ok w'" by (simp add: spawn_job_body_def)
  from good_call [OF assms(1) this grows_refl [OF assms(2)]] assms(3) show ?thesis by simp
qed (use assms in \<open>auto simp: spawn_job_body_def grows_mark_ready\<close>)

lemma Spawn_body_grows:
  assumes "good_self self" "wf_world w" "c < fresh w" "Spawn_body self e c w = Ok w'"
  shows "grows w w'"
proof -
  let ?w = "on_frame c (\<lambda>f. f\<lparr>executor := Some e, destroyOnDone := True\<rparr>) w"
  have "grows w ?w" using assms(2) by (intro grows_on_frame) (auto simp: frame_ok_def dest: wf_frame)
  moreover have "started ?w c" using assms(3) by (auto simp: started_def on_frame_def)
  moreover have "self (CSpawnJob e c) ?w = Ok w'" using assms(4) by (simp add: Spawn_body_def)
  ultimately show ?thesis using good_call [OF assms(1)] by fastforce
qed

lemma start_task_grows:
  assumes "good_self self" "wf_world w" "started w h" "c < fresh w" "start_task_body self h c w = Ok w'"
  shows "grows w w'"
proof -
  from assms(5) obtain f where f: "heap w h = Some f"
    and call: "self (CResumeHandle c) (on_frame c (\<lambda>g. g\<lparr>executor := executor f\<rparr>) w) = Ok w'"
    by (auto simp: start_task_body_def split: option.splits)
  have ex: "executor f \<noteq> None" using assms(3) f by (simp add: started_def)
  show ?thesis
    using good_call [OF assms(1) call grows_set_executor [OF assms(2) ex]] started_set_executor [OF assms(4) ex] by simp
qed

lemma await_task_grows:
  assumes "good_self self" "wf_world w" "started w h" "await_task_body self h c k w = Ok w'"
  shows "grows w w'"
proof -
  have run: "grows w w'" if "self (CRun h pt) w1 = Ok w'" "grows w w1" for pt w1
    using good_call [OF assms(1) that] growsD(2) [OF that(2) assms(3)] by simp
  from assms(4) obtain d where d: "is_done c w = Ok d"
    by (auto simp: await_task_body_def obind_eq_Ok_iff)
  then have c: "c < fresh w" using wf_below [OF assms(2)] by (auto simp: is_done_def split: option.splits)
  show ?thesis
  proof (cases d)
    case True
    with assms(4) d run take_result_grows [OF grows_refl [OF assms(2)]] show ?thesis
      by (auto simp: await_task_body_def obind_eq_Ok_iff)
  next
    case False
    define w1 where "w1 = set_status h (AwTask c k) (on_frame c (\<lambda>f. f\<lparr>parent := Some h\<rparr>) w)"
    have p: "grows w (on_frame c (\<lambda>f. f\<lparr>parent := Some h\<rparr>) w)" by (rule grows_set_parent [OF assms(2,3)])
    have w1: "grows w w1" unfolding w1_def
      by (rule status_grows [OF p assms(3)]) (use c in \<open>simp add: on_frame_def\<close>)
    from assms(4) d False obtain fh fc where f: "heap w1 h = Some fh" "heap w1 c = Some fc"
      and rest: "(if executor fc = None
        then obind (self (CResumeHandle c) (on_frame c (\<lambda>f. f\<lparr>executor := executor fh\<rparr>) w1)) (\<lambda>w2.
             obind (is_done c w2) (\<lambda>d. if d
               then obind (take_result c k w2) (\<lambda>(pt, w3). self (CRun h pt) (set_status h Running w3))
               else Ok w2))
        else if executor fc = executor fh then Ok w1 else Fault AssertFailed) = Ok w'"
      by (auto simp: await_task_body_def w1_def [symmetric] Let_def split: option.splits)
    show ?thesis
    proof (cases "executor fc = None")
      case True
      let ?w2 = "on_frame c (\<lambda>f. f\<lparr>executor := executor fh\<rparr>) w1"
      have ex: "executor fh \<noteq> None" using growsD(2) [OF w1 assms(3)] f(1) by (simp add: started_def)
      have "grows w ?w2" using grows_trans [OF w1 grows_set_executor [OF growsD(1) [OF w1] ex]] .
      moreover have "started ?w2 c" using growsD(3) [OF w1 c] ex by (rule started_set_executor)
      ultimately have w2: "grows w w2" if "self (CResumeHandle c) ?w2 = Ok w2" for w2
        using good_call [OF assms(1) that] by simp
      from rest True obtain w2 d2 where call: "self (CResumeHandle c) ?w2 = Ok w2" "is_done c w2 = Ok d2"
        and rest2: "(if d2 then obind (take_result c k w2) (\<lambda>(pt, w3). self (CRun h pt) (set_status h Running w3))
          else Ok w2) = Ok w'"
        by (auto simp: obind_eq_Ok_iff)
      show ?thesis
      proof (cases d2)
        case True
        with rest2 obtain pt w3 where w3: "take_result c k w2 = Ok (pt, w3)" "self (CRun h pt) (set_status h Running w3) = Ok w'"
          by (auto simp: obind_eq_Ok_iff)
        have "grows w (set_status h Running w3)"
          by (rule status_grows [OF take_result_grows [OF w2 [OF call(1)] w3(1)] assms(3)]) simp
        with w3(2) show ?thesis by (rule run)
      qed (use rest2 w2 [OF call(1)] in simp)
    qed (use rest w1 in \<open>simp split: if_splits\<close>)
  qed
qed

lemma cross_task_grows:
  assumes "good_self self" "wf_world w" "started w h" "cross_task_body self h e c k w = Ok w'"
  shows "grows w w'"
proof -
  let ?pt = "LaunchChild h c (case k of KVoid _ \<Rightarrow> True | KVal _ \<Rightarrow> False)" and ?w = "set_status h (AwCross None k) w"
  obtain l w1 where l: "allocate ?pt ?w = (l, w1)" by fastforce
  have w: "grows w ?w" by (rule grows_set_status [OF assms(2,3)]) simp
  have "grows w w1" using grows_trans [OF w grows_allocate(1) [OF growsD(1) [OF w] l]] .
  with good_call [OF assms(1)] grows_allocate(2) [OF growsD(1) [OF w] l] assms(4) l
  show ?thesis by (fastforce simp: cross_task_body_def)
qed

lemma run_body_grows:
  assumes "good_self self" "wf_world w" "started w h" "run_body P self h pt w = Ok w'"
  shows "grows w w'"
proof -
  have run: "grows w w'" if "self (CRun h pt') w1 = Ok w'" "grows w w1" for pt' w1
    using good_call [OF assms(1) that] growsD(2) [OF that(2) assms(3)] by simp
  have call: "grows w w2" if "self cl w1 = Ok w2" "grows w w1" "call_ok w1 cl" for cl w1 w2
    using good_call [OF assms(1) that] .
  have new: "grows w (snd (allocate p w))" "fst (allocate p w) < fresh (snd (allocate p w))" for p
    using grows_allocate [OF assms(2), of p] by (cases "allocate p w"; simp)+
  note st = growsD(2) [OF new(1) assms(3)]
  show ?thesis
  proof (cases "fetch P pt")
    case (CoStep f)
    with assms(4) run [OF _ grows_shared [OF assms(2)]] show ?thesis
      by (auto simp: run_body_def split: prod.splits)
  next
    case (CoAwait p k)
    with assms(4) have "self (CAwaitTask h (fst (allocate p w)) k) (snd (allocate p w)) = Ok w'"
      by (simp add: run_body_def split: prod.splits)
    from call [OF this new(1)] st show ?thesis by simp
  next
    case (CoAwaitTask c k)
    with assms(4) have "self (CAwaitTask h c k) w = Ok w'" by (simp add: run_body_def)
    from call [OF this grows_refl [OF assms(2)]] assms(3) show ?thesis by simp
  next
    case (CoStart p k)
    with assms(4) obtain w1 where "self (CStartTask h (fst (allocate p w))) (snd (allocate p w)) = Ok w1"
      "self (CRun h (k (fst (allocate p w)))) w1 = Ok w'"
      by (auto simp: run_body_def obind_eq_Ok_iff split: prod.splits)
    with call [OF this(1) new(1)] run [OF this(2)] st new(2) show ?thesis by simp
  next
    case (CoSuspend op k)
    have "grows w (set_status h (AwOp None k) w)" by (rule grows_set_status [OF assms(2,3)]) simp
    with CoSuspend assms(4) grows_events grows_trans growsD(1) show ?thesis
      by (fastforce simp: run_body_def)
  next
    case (CoSpawn e p pt')
    with assms(4) obtain w1 where "self (CSpawn e (fst (allocate p w))) (snd (allocate p w)) = Ok w1"
      "self (CRun h pt') w1 = Ok w'"
      by (auto simp: run_body_def obind_eq_Ok_iff split: prod.splits)
    with call [OF this(1) new(1)] run [OF this(2)] new(2) show ?thesis by simp
  next
    case (CoCross e p k)
    with assms(4) have "self (CCrossTask h e (fst (allocate p w)) k) (snd (allocate p w)) = Ok w'"
      by (simp add: run_body_def split: prod.splits)
    from call [OF this new(1)] st show ?thesis by simp
  next
    case (CoNotify p v pt')
    with assms(4) notify_parent_grows [OF assms(1,2)] run show ?thesis by (auto simp: run_body_def obind_eq_Ok_iff)
  qed (use assms in \<open>auto simp: run_body_def grows_finish\<close>)
qed

lemma good_exec_call: "good_self (exec_call P n)"
proof (induction n)
  case (Suc n)
  note self = Suc.IH
  show ?case unfolding good_self_def
  proof (intro allI impI)
    fix c w w'
    assume w: "wf_world w" "call_ok w c" "exec_call P (Suc n) c w = Ok w'"
    then show "grows w w'"
      by (cases c)
         (auto simp: exec_call_unfold simp del: exec_call.simps intro: run_body_grows [OF self] resume_handle_grows [OF self]
           Resume_body_grows [OF self] spawn_job_grows [OF self] Spawn_body_grows [OF self] await_task_grows [OF self]
           start_task_grows [OF self] cross_task_grows [OF self])
  qed
qed (simp add: good_self_def)

section \<open>Runs of a program\<close>

text \<open>
  What the threads of a program do with the library: spawn a task on an executor, resume the job
  whose operation has completed, and resume the first job that is ready on an executor.
\<close>

inductive runs :: "('pc, 'op, 'r, 'v, 's) prog \<Rightarrow> ('pc, 'op, 'r, 'v, 's) machine \<Rightarrow> bool" for P where
  runs_start: "runs P (empty_world s)"
| runs_spawn: "runs P w \<Longrightarrow> Spawn P n e pc w = Ok w' \<Longrightarrow> runs P w'"
| runs_complete: "runs P w \<Longrightarrow> heap w h = Some f \<Longrightarrow> status f = AwOp None k \<Longrightarrow>
     Resume P n h (complete h x w) = Ok w' \<Longrightarrow> runs P w'"
| runs_ready: "runs P w \<Longrightarrow> ready w e = h # hs \<Longrightarrow>
     Resume P n h (w\<lparr>ready := (ready w)(e := hs)\<rparr>) = Ok w' \<Longrightarrow> runs P w'"

lemma Resume_grows:
  assumes "Resume P n h w1 = Ok w'" "grows w w1" "started w h"
  shows "wf_world w'"
proof -
  have "call_ok w1 (CResume h)" using growsD(2) [OF assms(2,3)] by simp
  from good_call [OF good_exec_call assms(1,2) this] show ?thesis by (rule growsD(1))
qed

lemma runs_wf: "runs P w \<Longrightarrow> wf_world w"
proof (induction rule: runs.induct)
  case (runs_start s)
  show ?case by (simp add: wf_world_def empty_world_def fresh_above_def)
next
  case (runs_spawn w n e pc w')
  obtain c w1 where a: "allocate (Body pc) w = (c, w1)" by fastforce
  with runs_spawn.hyps(2) have call: "exec_call P n (CSpawn e c) w1 = Ok w'" by (simp add: Spawn_def)
  have "call_ok w1 (CSpawn e c)" using grows_allocate(2) [OF runs_spawn.IH a] by simp
  from good_call [OF good_exec_call call grows_allocate(1) [OF runs_spawn.IH a] this] show ?case by (rule growsD(1))
next
  case (runs_complete w h f k n x w')
  have ok: "frame_ok w f" by (rule wf_frame [OF runs_complete.IH runs_complete.hyps(2)])
  then have "started w h"
    using runs_complete.hyps(2,3) wf_below [OF runs_complete.IH runs_complete.hyps(2)]
    by (auto simp: started_def frame_ok_def)
  moreover have "grows w (complete h x w)"
    unfolding complete_def using ok runs_complete.hyps(2,3)
    by (intro grows_on_frame [OF runs_complete.IH]) (auto simp: frame_ok_def)
  ultimately show ?case using Resume_grows [OF runs_complete.hyps(4)] by blast
next
  case (runs_ready w e h hs n w')
  let ?w = "w\<lparr>ready := (ready w)(e := hs)\<rparr>"
  have st: "started w x" if "x \<in> set (ready w e')" for x e' using runs_ready.IH that by (auto simp: wf_world_def)
  from st [of h e] have "started w h" using runs_ready.hyps(2) by simp
  moreover have "grows w ?w"
  proof (rule grows_fields [OF runs_ready.IH])
    show "started w x" if "x \<in> set (ready ?w e')" for e' x
      using st [of x e'] that runs_ready.hyps(2) by (cases "e' = e") simp_all
  qed simp_all
  ultimately show ?case using Resume_grows [OF runs_ready.hyps(3)] by blast
qed

section \<open>Properties\<close>

text \<open>
  C13. Pointers are good.  In every world a program can make, the queues and the parent pointers only
  hold coroutines that were started, every coroutine that has started has an executor (which the
  awaitables dereference), and every awaited task was allocated.
\<close>

theorem runs_well_formed:
  assumes "runs P w"
  shows "wf_world w"
  using runs_wf [OF assms] .

definition waiting_prog :: "(bool, unit, unit, unit, unit) prog" where
  "waiting_prog = \<lparr>code = (\<lambda>inner. if inner then CoSuspend () (\<lambda>r. True) else CoAwait True (KVoid False)), mode = (\<lambda>_. Immediate)\<rparr>"

theorem runs_well_formed_witness:
  "\<exists>w f. runs waiting_prog w \<and> heap w 1 = Some f \<and> parent f = Some 0 \<and> started w 0 \<and> executor f = Some 3"
proof -
  have "\<exists>w f. Spawn waiting_prog 20 3 False (empty_world ()) = Ok w \<and> heap w 1 = Some f \<and> parent f = Some 0 \<and> executor f = Some 3"
    by (simp add: Spawn_def world_defs eval_nat_numeral exec_call_unfold call_defs waiting_prog_def del: exec_call.simps)
  then obtain w f where w: "Spawn waiting_prog 20 3 False (empty_world ()) = Ok w" "heap w 1 = Some f"
    "parent f = Some 0" "executor f = Some 3" by blast
  have r: "runs waiting_prog w" by (rule runs_spawn [OF runs_start w(1)])
  from runs_well_formed [OF r] w(2,3) have "started w 0" unfolding wf_world_def frame_ok_def by blast
  with r w show ?thesis by blast
qed

end
