(* ===== verification/CrossTask.thy ===== *)
theory CrossTask
  imports AsyncCalls
begin

text \<open>
  \<open>SpawnCrossTask\<close> of \<^verbatim>\<open>async_lib/async_lib.hpp\<close>: a job of one executor awaits a task that runs
  as a job of another one.  The lemmas follow the two library frames it makes, the child and
  \<open>LaunchChild\<close>, from the \<open>co_await\<close> to the moment the parent is given back to its executor.
  At the end: what becomes of an exception that leaves the body of an awaited task.
\<close>

section \<open>Returning out of the child\<close>

lemma unwind_append:
  "unwind P pt ks s s1 r \<Longrightarrow> r = Blocked op kr ks1 \<Longrightarrow> unwind P pt (ks @ ks2) s s1 (Blocked op kr (ks1 @ ks2))"
proof (induction rule: unwind.induct)
  case (unwind_blocked pt s s1 op' kr' ks' ks)
  then show ?case using unwind.unwind_blocked [where ks = "ks @ ks2"] by fastforce
qed (auto intro: unwind_return)

text \<open>When the child returns, with all its callers, the coroutine that awaits it goes on.\<close>

lemma unwind_to_parent:
  fixes P :: "('pc, 'op, 'r, 'v, 's) prog"
  shows "unwind P pt ks s s1 r \<Longrightarrow> r = Returned v \<Longrightarrow> shared w = s \<Longrightarrow> runnable w leaf f e \<Longrightarrow>
     suspended_chain (heap w) e leaf (hs @ [l]) (ks @ [k]) \<Longrightarrow> distinct (leaf # hs @ [l]) \<Longrightarrow>
     apply_kont k v = Ok pt' \<Longrightarrow>
     \<exists>w3. shared w3 = s1 \<and> fresh_above w3 \<and> same_below (set (leaf # hs @ [l])) w w3 \<and>
       submitted (events w3) = submitted (events w) \<and>
       heap w3 l = map_option (\<lambda>f. f\<lparr>status := Running\<rparr>) (heap w l) \<and>
       (\<forall>w'. resumes P l pt' w3 w' \<longrightarrow> resumes P leaf pt w w')"
proof (induction arbitrary: w leaf f hs rule: unwind.induct)
  case (unwind_finished pt s s1 v')
  then have hs: "hs = []" using suspended_chain_length by fastforce
  have "eval P pt (shared w) s1 (Returned v)" using unwind_finished by simp
  from return_to_parent [OF this unwind_finished.prems(3)] unwind_finished.prems(4-6) hs
  obtain w2 fh where w2: "heap w l = Some fh" "shared w2 = s1" "runnable w2 l (fh\<lparr>status := Running\<rparr>) e"
    "heap w2 = (heap w)(leaf := None, l \<mapsto> fh\<lparr>status := Running\<rparr>)"
    "fresh w \<le> fresh w2" "ready w2 = ready w" "submitted (events w2) = submitted (events w)"
    "\<And>w'. resumes P l pt' w2 w' \<Longrightarrow> resumes P leaf pt w w'"
    by (metis append_Nil)
  from w2(4-6) have "same_below (set (leaf # hs @ [l])) w w2" by (auto simp: same_below_def)
  with w2 show ?case by (intro exI [of _ w2]) (auto simp: runnable_def)
next
  case (unwind_return pt s s1 v' k1 pt1 ks s2 r)
  then obtain h hs' where hs: "hs = h # hs'" by (cases hs) (auto dest: suspended_chain_length)
  have "eval P pt (shared w) s1 (Returned v')" using unwind_return by simp
  moreover have "suspended_chain (heap w) e leaf (h # hs' @ [l]) (k1 # ks @ [k])" "distinct (leaf # h # hs' @ [l])"
    using unwind_return.prems hs by simp_all
  ultimately obtain w2 fh where w2: "heap w h = Some fh" "shared w2 = s1" "runnable w2 h (fh\<lparr>status := Running\<rparr>) e"
    "heap w2 = (heap w)(leaf := None, h \<mapsto> fh\<lparr>status := Running\<rparr>)" "suspended_chain (heap w2) e h (hs' @ [l]) (ks @ [k])"
    "fresh w \<le> fresh w2" "ready w2 = ready w" "submitted (events w2) = submitted (events w)"
    and run: "\<And>w'. resumes P h pt1 w2 w' \<Longrightarrow> resumes P leaf pt w w'"
    using return_to_parent [OF _ unwind_return.prems(3) _ _ unwind_return.hyps(2)] by metis
  have dist: "distinct (h # hs' @ [l])" using unwind_return.prems(5) hs by simp
  from unwind_return.IH [OF unwind_return.prems(1) w2(2,3,5) dist unwind_return.prems(6)] obtain w3 where
    w3: "shared w3 = s2" "fresh_above w3" "same_below (set (h # hs' @ [l])) w2 w3"
      "submitted (events w3) = submitted (events w2)" "heap w3 l = map_option (\<lambda>f. f\<lparr>status := Running\<rparr>) (heap w2 l)"
    and run3: "\<And>w'. resumes P l pt' w3 w' \<Longrightarrow> resumes P h pt1 w2 w'" by blast
  have "same_below (set (leaf # hs @ [l])) w w3"
    using w3(3) w2(4,6,7) hs by (auto simp: same_below_def)
  moreover have "heap w2 l = heap w l" using w2(4) unwind_return.prems(5) hs by simp
  ultimately show ?case using w3 w2(8) run run3 by (intro exI [of _ w3]) auto
qed simp

section \<open>\<open>LaunchChild\<close>\<close>

definition launch_kont :: "hdl \<Rightarrow> (('pc, 'v) point, 'v) kont \<Rightarrow> (('pc, 'v) point, 'v) kont" where
  "launch_kont h k = (case k of KVoid _ \<Rightarrow> KVoid (Launched h None) | KVal _ \<Rightarrow> KVal (\<lambda>v. Launched h (Some v)))"

text \<open>What the awaiter holds for the parent: nothing for a \<open>Task<void>\<close>.\<close>

definition cross_result :: "('p, 'v) kont \<Rightarrow> 'v option \<Rightarrow> 'v option" where
  "cross_result k v = (case k of KVoid _ \<Rightarrow> None | KVal _ \<Rightarrow> v)"

lemma apply_launch_kont:
  "apply_kont k v = Ok pt \<Longrightarrow> apply_kont (launch_kont h k) v = Ok (Launched h (cross_result k v))"
  by (cases k; cases v) (simp_all add: launch_kont_def cross_result_def)

lemma fetch_launch:
  "fetch P (LaunchChild h c (case k of KVoid _ \<Rightarrow> True | KVal _ \<Rightarrow> False)) = CoAwaitTask c (launch_kont h k)"
  by (cases k) (simp_all add: launch_kont_def)

text \<open>The parent's frame once its result is stored, and the world after \<open>LaunchChild\<close> has ended.\<close>

definition launch_ends :: "hdl \<Rightarrow> exec \<Rightarrow> (('pc, 'v) point, 'v) kont \<Rightarrow> 'v option \<Rightarrow> hdl
    \<Rightarrow> ('pc, 'op, 'r, 'v, 's) machine \<Rightarrow> ('pc, 'op, 'r, 'v, 's) machine" where
  "launch_ends h ep k v l w = destroy l (finish l None (mark_ready ep h (set_status h (AwCross v k) w)))"

lemma launched_notifies:
  assumes "heap w l = Some fl" "destroyOnDone fl" "parent fl = None" "l \<noteq> h"
    and "heap w h = Some fh" "executor fh = Some ep" "status fh = AwCross u k" "mode P ep = Deferred"
  shows "resumes P l (Launched h v) w (launch_ends h ep k v l w)"
proof (rule resumesI [of _ "Suc (Suc 0)"])
  show "obind (exec_call P (Suc (Suc 0)) (CRun l (Launched h v)) w) (after_resume (exec_call P (Suc (Suc 0))) l) =
      Ok (launch_ends h ep k v l w)"
    using assms by (simp add: exec_call_unfold run_body_def notify_parent_def spawn_job_body_def after_resume_def
        launch_ends_def Let_def frame_defs finish_def mark_ready_def del: exec_call.simps)
qed

lemma launch_ends_fields:
  assumes "l \<noteq> h"
  shows "heap (launch_ends h ep k v l w) h = map_option (\<lambda>f. f\<lparr>status := AwCross v k\<rparr>) (heap w h)"
    "heap (launch_ends h ep k v l w) l = None" "shared (launch_ends h ep k v l w) = shared w"
    "ready (launch_ends h ep k v l w) = (ready w)(ep := ready w ep @ [h])"
    "submitted (events (launch_ends h ep k v l w)) = submitted (events w)"
  using assms by (simp_all add: launch_ends_def destroy_def finish_def mark_ready_def frame_defs)

section \<open>From the \<open>co_await\<close> to the parent's executor\<close>

text \<open>The world in which the body of the child starts.\<close>

definition cross_world :: "hdl \<Rightarrow> exec \<Rightarrow> (('pc, 'v) point, 'v) kont
    \<Rightarrow> ('pc, 'op, 'r, 'v, 's) machine \<Rightarrow> ('pc, 'op, 'r, 'v, 's) machine" where
  "cross_world h e k w = w\<lparr>fresh := Suc (Suc (fresh w)),
     heap := (heap w)(h := map_option (\<lambda>f. f\<lparr>status := AwCross None k\<rparr>) (heap w h),
       fresh w \<mapsto> started_frame e (Suc (fresh w)),
       Suc (fresh w) \<mapsto> \<lparr>status = AwTask (fresh w) (launch_kont h k), result = None, destroyOnDone = True,
         executor = Some e, parent = None\<rparr>)\<rparr>"

lemma cross_call:
  assumes "fetch P pt = CoCross e p k" and "mode P e = Immediate" and "runnable w h f ep"
  shows "exec_call P (9 + n) (CRun h pt) w =
    obind (obind (exec_call P n (CRun (fresh w) p) (cross_world h e k w)) (\<lambda>w2.
        obind (is_done (fresh w) w2) (\<lambda>d. if d
          then obind (take_result (fresh w) (launch_kont h k) w2)
                 (\<lambda>(pt1, w3). exec_call P (Suc n) (CRun (Suc (fresh w)) pt1) (set_status (Suc (fresh w)) Running w3))
          else Ok w2)))
      (after_resume (exec_call P (n + 4)) (Suc (fresh w)))"
proof -
  have h: "heap w h = Some f" "h \<noteq> fresh w" "h \<noteq> Suc (fresh w)"
    using assms(3) fresh_above_less [of w h f] by (auto simp: runnable_def)
  have n: "9 + n = Suc (Suc (Suc (Suc (Suc (Suc (Suc (Suc (Suc n))))))))" "n + 4 = Suc (Suc (Suc (Suc n)))" by simp_all
  let ?c = "fresh w" and ?l = "Suc (fresh w)"
  have world: "set_status ?c Running (on_frame ?c (\<lambda>f. f\<lparr>executor := Some e\<rparr>)
      (set_status ?l (AwTask ?c (launch_kont h k)) (on_frame ?c (\<lambda>f. f\<lparr>parent := Some ?l\<rparr>)
        (set_status ?l Running (on_frame ?l (\<lambda>f. f\<lparr>executor := Some e, destroyOnDone := True\<rparr>)
          (snd (allocate (LaunchChild h ?c (case k of KVoid _ \<Rightarrow> True | KVal _ \<Rightarrow> False))
            (set_status h (AwCross None k) (snd (allocate p w)))))))))) = cross_world h e k w"
    using h by (auto simp: cross_world_def started_frame_def frame_defs fun_eq_iff)
  show ?thesis
    unfolding n using assms(1,2) h world
    by (simp add: exec_call_unfold run_body_def cross_task_body_def Spawn_body_def spawn_job_body_def
      Resume_body_def resume_handle_body_def await_task_body_def fetch_launch frame_defs Let_def del: exec_call.simps fetch.simps)
qed

text \<open>
  \<open>cross_blocked\<close>: the child is blocked on \<open>op\<close>, under it \<open>LaunchChild\<close> in frame \<open>l\<close>, and the
  parent \<open>h\<close> waits.  \<open>delivered\<close>: the parent holds the result and is ready on its own executor.
\<close>

definition cross_blocked :: "('pc, 'op, 'r, 'v, 's) machine \<Rightarrow> exec \<Rightarrow> hdl \<Rightarrow> (('pc, 'v) point, 'r, 'v) frame
    \<Rightarrow> (('pc, 'v) point, 'v) kont \<Rightarrow> hdl \<Rightarrow> 'op \<Rightarrow> ('r \<Rightarrow> ('pc, 'v) point) \<Rightarrow> (('pc, 'v) point, 'v) kont list \<Rightarrow> bool" where
  "cross_blocked w e h f k l op kr ks \<longleftrightarrow> heap w h = Some (f\<lparr>status := AwCross None k\<rparr>) \<and>
     (\<exists>leaf hs es. job_stack w e leaf hs kr (ks @ [launch_kont h k]) \<and> last (leaf # hs) = l \<and>
       submitted (events w) = es @ [(leaf, op)])"

definition delivered :: "('p, 'op, 'r, 'v, 's) world \<Rightarrow> exec \<Rightarrow> hdl \<Rightarrow> ('p, 'r, 'v) frame
    \<Rightarrow> ('p, 'v) kont \<Rightarrow> hdl \<Rightarrow> 'v option \<Rightarrow> ('p, 'op, 'r, 'v, 's) world \<Rightarrow> bool" where
  "delivered w ep h f k l v w' \<longleftrightarrow> heap w' h = Some (f\<lparr>status := AwCross (cross_result k v) k\<rparr>) \<and>
     heap w' l = None \<and> ready w' = (ready w)(ep := ready w ep @ [h])"

lemma cross_world_runs:
  assumes "runnable w h f ep"
  shows "runnable (cross_world h e k w) (fresh w) (started_frame e (Suc (fresh w))) e"
    "shared (cross_world h e k w) = shared w" "events (cross_world h e k w) = events w"
    "ready (cross_world h e k w) = ready w" "fresh (cross_world h e k w) = Suc (Suc (fresh w))"
    "heap (cross_world h e k w) h = Some (f\<lparr>status := AwCross None k\<rparr>)"
    "heap (cross_world h e k w) (Suc (fresh w)) = Some \<lparr>status = AwTask (fresh w) (launch_kont h k), result = None,
       destroyOnDone = True, executor = Some e, parent = None\<rparr>"
proof -
  have "h < fresh w" using assms fresh_above_less [of w h f] by (auto simp: runnable_def)
  with assms show "runnable (cross_world h e k w) (fresh w) (started_frame e (Suc (fresh w))) e"
    "heap (cross_world h e k w) h = Some (f\<lparr>status := AwCross None k\<rparr>)"
    by (auto simp: runnable_def cross_world_def started_frame_def fresh_above_def)
qed (simp_all add: cross_world_def)

lemma cross_starts_blocked:
  assumes call: "fetch P pt = CoCross e p k" "mode P e = Immediate" "runnable w h f ep"
    and eval: "eval P p (shared w) s1 (Blocked op kr ks)"
  shows "\<exists>n w1. (\<forall>m \<ge> n. exec_call P m (CRun h pt) w = Ok w1) \<and> shared w1 = s1 \<and> ready w1 = ready w \<and>
     ops_of w1 = ops_of w @ [op] \<and> cross_blocked w1 e h f k (Suc (fresh w)) op kr ks"
proof -
  let ?w0 = "cross_world h e k w" and ?c = "fresh w" and ?l = "Suc (fresh w)"
  note w0 = cross_world_runs [OF call(3), where e = e and k = k]
  have below: "h < ?c" using call(3) fresh_above_less [of w h f] by (auto simp: runnable_def)
  from run_refines_eval [OF eval w0(2,1)] obtain n w1 where
    w1: "exec_call P n (CRun ?c p) ?w0 = Ok w1" "shared w1 = s1" "fresh_above w1" "same_below {?c} ?w0 w1"
      "blocked_at ?w0 ?c (started_frame e ?l) e op kr ks w1"
    by (auto simp: run_ok_def)
  from w1(5) obtain leaf hs fl st where chain: "suspended_chain (heap w1) e leaf hs ks" "distinct (leaf # hs)"
      "last (leaf # hs) = ?c" "\<forall>x \<in> set (butlast (leaf # hs)). fresh ?w0 \<le> x"
    and leaf: "heap w1 leaf = Some fl" "status fl = AwOp None kr" "executor fl = Some e" "result fl = None"
    and cf: "heap w1 ?c = Some ((started_frame e ?l)\<lparr>status := st\<rparr>)" "\<not> is_Final st"
    and sub: "submitted (events w1) = submitted (events ?w0) @ [(leaf, op)]"
    unfolding blocked_at_def by blast
  have lf: "heap w1 ?l = heap ?w0 ?l" and hf: "heap w1 h = heap ?w0 h" and rd: "ready w1 = ready ?w0"
    using w1(4) w0(5) below by (auto simp: same_below_def)
  have "set (leaf # hs) = insert ?c (set (butlast (leaf # hs)))"
    by (metis append_butlast_last_id chain(3) list.distinct(1) list.set(1,2) set_append sup_commute insert_is_Un)
  then have "?l \<notin> set (leaf # hs)" using chain(4) w0(5) by (metis Suc_n_not_le_n insertE n_not_Suc_n)
  moreover have "suspended_chain (heap w1) e leaf (hs @ [?l]) (ks @ [launch_kont h k])"
    by (rule suspended_chain_snoc [OF chain(1,3) cf(1) _ _ trans [OF lf w0(7)]]) (simp_all add: started_frame_def)
  ultimately have "job_stack w1 e leaf (hs @ [?l]) kr (ks @ [launch_kont h k])"
    using chain(2) w1(3) leaf lf w0(7) by (auto simp: job_stack_def root_frame_def)
  then have "cross_blocked w1 e h f k ?l op kr ks"
    unfolding cross_blocked_def using sub w0(3,6) hf
    by (intro conjI exI [of _ leaf] exI [of _ "hs @ [?l]"] exI [of _ "submitted (events w)"]) simp_all
  moreover have run: "exec_call P (9 + n) (CRun h pt) w = Ok w1"
    unfolding cross_call [OF call] using w1(1) cf lf w0(7) by (simp add: is_done_def after_resume_def)
  moreover have "ops_of w1 = ops_of w @ [op]" using sub w0(3) by (simp add: ops_of_def)
  ultimately show ?thesis using w1(2) rd w0(4) exec_call_Ok_mono [OF run] by metis
qed

lemma cross_starts_returned:
  assumes call: "fetch P pt = CoCross e p k" "mode P e = Immediate" "runnable w h f ep"
    and eval: "eval P p (shared w) s1 (Returned v)" and kont: "apply_kont k v = Ok pt1" and ep: "mode P ep = Deferred"
  shows "\<exists>n w1. (\<forall>m \<ge> n. exec_call P m (CRun h pt) w = Ok w1) \<and> shared w1 = s1 \<and>
     ops_of w1 = ops_of w \<and> delivered w ep h f k (Suc (fresh w)) v w1"
proof -
  let ?w0 = "cross_world h e k w" and ?c = "fresh w" and ?l = "Suc (fresh w)" and ?v = "cross_result k v"
  note w0 = cross_world_runs [OF call(3), where e = e and k = k]
  have below: "h < ?c" using call(3) fresh_above_less [of w h f] by (auto simp: runnable_def)
  from run_refines_eval [OF eval w0(2,1)] obtain n w1 where
    w1: "exec_call P n (CRun ?c p) ?w0 = Ok w1" "shared w1 = s1" "fresh_above w1" "same_below {?c} ?w0 w1"
      "heap w1 = (heap ?w0)(?c \<mapsto> (started_frame e ?l)\<lparr>status := Final, result := v\<rparr>)"
      "submitted (events w1) = submitted (events ?w0)"
    by (auto simp: run_ok_def)
  define w3 where "w3 = set_status ?l Running (destroy ?c w1)"
  have heap3: "heap w3 = (heap ?w0)(?c := None, ?l := map_option (\<lambda>f. f\<lparr>status := Running\<rparr>) (heap ?w0 ?l))"
    using w1(5) below by (auto simp: w3_def frame_defs destroy_def fun_eq_iff)
  have w3: "shared w3 = s1" "ready w3 = ready w" "submitted (events w3) = submitted (events w)"
    using w1 w0(3,4) by (auto simp: w3_def frame_defs destroy_def same_below_def)
  define W where "W = launch_ends h ep k ?v ?l w3"
  have h3: "heap w3 h = Some (f\<lparr>status := AwCross None k\<rparr>)" using heap3 w0(6) below by simp
  have "executor f = Some ep" using call(3) by (simp add: runnable_def)
  then have "resumes P ?l (Launched h ?v) w3 W"
    unfolding W_def using heap3 w0(7) below ep by (intro launched_notifies [OF _ _ _ _ h3]) auto
  then obtain n0 where n0: "\<And>m m'. n0 \<le> m \<Longrightarrow> n0 \<le> m' \<Longrightarrow>
      obind (exec_call P m (CRun ?l (Launched h ?v)) w3) (after_resume (exec_call P m') ?l) = Ok W"
    by (rule resumesE) blast
  define N where "N = max n n0"
  have "exec_call P N (CRun ?c p) ?w0 = Ok w1" using exec_call_Ok_mono [OF w1(1)] by (simp add: N_def)
  moreover have "take_result ?c (launch_kont h k) w1 = Ok (Launched h ?v, destroy ?c w1)"
    using w1(5) apply_launch_kont [OF kont] by (simp add: take_result_def)
  moreover have "is_done ?c w1 = Ok True" using w1(5) by (simp add: is_done_def)
  ultimately have run: "exec_call P (9 + N) (CRun h pt) w = Ok W"
    unfolding cross_call [OF call] using n0 [of "Suc N" "N + 4"] by (simp add: N_def w3_def del: exec_call.simps)
  have "?l \<noteq> h" using below by simp
  note fields = launch_ends_fields [OF this, where ep = ep and k = k and v = ?v and w = w3, folded W_def]
  from fields w3 h3 have "shared W = s1" "ops_of W = ops_of w" "delivered w ep h f k ?l v W"
    by (simp_all add: ops_of_def delivered_def)
  with exec_call_Ok_mono [OF run] show ?thesis by blast
qed

section \<open>The operations of the child\<close>

text \<open>The waiting parent is not one of the frames of the job that runs for it.\<close>

lemma parent_apart:
  assumes "job_stack w e leaf hs kr ks" and "heap w h = Some f" and "status f = AwCross u k"
  shows "h \<notin> set (leaf # hs)" "h < fresh w"
proof -
  from assms(1) have "\<exists>fl. heap w leaf = Some fl \<and> status fl = AwOp None kr" by (auto simp: job_stack_def)
  moreover have "\<exists>fh c k. heap w x = Some fh \<and> status fh = AwTask c k" if "x \<in> set hs" for x
    using assms(1) that suspended_chain_frames unfolding job_stack_def by blast
  ultimately show "h \<notin> set (leaf # hs)" using assms(2,3) by fastforce
  show "h < fresh w" using assms(1,2) by (auto simp: job_stack_def intro: fresh_above_less)
qed

lemma cross_step_blocked:
  assumes blocked: "cross_blocked w e h f k l op kr ks"
    and unwind: "unwind P (kr x) ks (shared w) s1 (Blocked op2 kr2 ks2)"
  shows "\<exists>w1. (\<forall>xs w2. serves P w1 xs w2 \<longrightarrow> serves P w (x # xs) w2) \<and> shared w1 = s1 \<and> ready w1 = ready w \<and>
     ops_of w1 = ops_of w @ [op2] \<and> cross_blocked w1 e h f k l op2 kr2 ks2"
proof -
  from blocked obtain leaf hs es where b: "heap w h = Some (f\<lparr>status := AwCross None k\<rparr>)"
      "job_stack w e leaf hs kr (ks @ [launch_kont h k])" "last (leaf # hs) = l" "submitted (events w) = es @ [(leaf, op)]"
    by (auto simp: cross_blocked_def)
  from complete_refines [OF b(2) unwind_append [OF unwind refl]] obtain n w1 where
    w1: "\<forall>m \<ge> n. Resume P m leaf (complete leaf x w) = Ok w1"
      "ends_in w e (leaf # hs) s1 (Blocked op2 kr2 (ks2 @ [launch_kont h k])) w1" by blast
  from w1(2) obtain leaf1 hs1 where stack: "job_stack w1 e leaf1 hs1 kr2 (ks2 @ [launch_kont h k])"
      "last (leaf1 # hs1) = l" "submitted (events w1) = submitted (events w) @ [(leaf1, op2)]"
    and w1': "shared w1 = s1" "same_below (set (leaf # hs)) w w1"
    using b(3) by (auto simp: ends_in_def simp del: last.simps)
  have "heap w1 h = heap w h" and "ready w1 = ready w"
    using parent_apart [OF b(2,1)] w1'(2) by (auto simp: same_below_def)
  with b(1) stack have "cross_blocked w1 e h f k l op2 kr2 ks2" unfolding cross_blocked_def by metis
  moreover have "serves P w (x # xs) w2" if "serves P w1 xs w2" for xs w2
    using serves_complete [OF b(4) _ that] w1(1) by blast
  moreover have "ops_of w1 = ops_of w @ [op2]" using stack(3) by (simp add: ops_of_def)
  ultimately show ?thesis using w1'(1) \<open>ready w1 = ready w\<close> by blast
qed

lemma cross_step_returned:
  assumes blocked: "cross_blocked w e h f k l op kr ks" and ep: "executor f = Some ep" "mode P ep = Deferred"
    and unwind: "unwind P (kr x) ks (shared w) s1 (Returned v)" and kont: "apply_kont k v = Ok pt1"
  shows "\<exists>w1. serves P w [x] w1 \<and> shared w1 = s1 \<and> ops_of w1 = ops_of w \<and> delivered w ep h f k l v w1"
proof -
  let ?v = "cross_result k v"
  from blocked obtain leaf hs es where b: "heap w h = Some (f\<lparr>status := AwCross None k\<rparr>)"
      "job_stack w e leaf hs kr (ks @ [launch_kont h k])" "last (leaf # hs) = l" "submitted (events w) = es @ [(leaf, op)]"
    by (auto simp: cross_blocked_def)
  have "suspended_chain (heap w) e leaf hs (ks @ [launch_kont h k])" using b(2) by (simp add: job_stack_def)
  then have "length hs = length (ks @ [launch_kont h k])" by (rule suspended_chain_length)
  then obtain hs1 where hs: "hs = hs1 @ [l]" using b(3) by (cases hs rule: rev_cases) auto
  have dist: "distinct (leaf # hs1 @ [l])" using b(2) hs by (simp add: job_stack_def)
  from complete_runs [OF b(2)] obtain w0 g where
    w0: "runnable w0 leaf g e" "shared w0 = shared w" "suspended_chain (heap w0) e leaf hs (ks @ [launch_kont h k])"
      "root_frame (heap w0) (last (leaf # hs))" "fresh w0 = fresh w" "ready w0 = ready w" "events w0 = events w"
    and same: "\<And>x. x \<noteq> leaf \<Longrightarrow> heap w0 x = heap w x"
    and calls: "\<And>n. exec_call P (Suc n) (CResumeHandle leaf) (complete leaf x w) = exec_call P n (CRun leaf (kr x)) w0"
    by blast
  from unwind_to_parent [OF unwind refl w0(2,1) w0(3) [unfolded hs] dist apply_launch_kont [OF kont]] obtain w3 where
    w3: "shared w3 = s1" "fresh_above w3" "same_below (set (leaf # hs1 @ [l])) w0 w3"
      "submitted (events w3) = submitted (events w0)" "heap w3 l = map_option (\<lambda>f. f\<lparr>status := Running\<rparr>) (heap w0 l)"
    and run: "\<And>w'. resumes P l (Launched h ?v) w3 w' \<Longrightarrow> resumes P leaf (kr x) w0 w'" by blast
  have apart: "h \<notin> set (leaf # hs)" "h < fresh w" using parent_apart [OF b(2,1)] by simp_all
  then have h3: "heap w3 h = Some (f\<lparr>status := AwCross None k\<rparr>)" and r3: "ready w3 = ready w"
    using w3(3) same b(1) w0(5,6) hs by (auto simp: same_below_def)
  have "l \<noteq> h" using apart hs by auto
  moreover obtain fl where "heap w0 l = Some fl" "parent fl = None" "destroyOnDone fl"
    using w0(4) b(3) by (auto simp: root_frame_def)
  ultimately have "resumes P l (Launched h ?v) w3 (launch_ends h ep k ?v l w3)"
    using ep w3(5) by (intro launched_notifies [OF _ _ _ _ h3, where fl = "fl\<lparr>status := Running\<rparr>"]) auto
  from Resume_from_resumes [OF run [OF this] calls] obtain n where
    n: "Resume P n leaf (complete leaf x w) = Ok (launch_ends h ep k ?v l w3)" by blast
  note fields = launch_ends_fields [OF \<open>l \<noteq> h\<close>, where ep = ep and k = k and v = ?v and w = w3]
  have "serves P w [x] (launch_ends h ep k ?v l w3)" by (rule serves_complete [OF b(4) n serves_stop])
  moreover have "delivered w ep h f k l v (launch_ends h ep k ?v l w3)"
    using fields h3 r3 by (simp add: delivered_def)
  moreover have "ops_of (launch_ends h ep k ?v l w3) = ops_of w" using fields(5) w3(4) w0(7) by (simp add: ops_of_def)
  ultimately show ?thesis using fields(3) w3(1) by auto
qed

lemma conversation_Returned:
  "conversation P s (Returned u) xs s' r ops \<longleftrightarrow> xs = [] \<and> s' = s \<and> r = Returned u \<and> ops = []"
  by (auto elim: conversation.cases intro: converse_stop)

lemma cross_converses:
  "conversation P s r xs s' r' ops \<Longrightarrow> r = Blocked op kr ks \<Longrightarrow> r' = Returned v \<Longrightarrow> shared w = s \<Longrightarrow>
     cross_blocked w e h f k l op kr ks \<Longrightarrow> executor f = Some ep \<Longrightarrow> mode P ep = Deferred \<Longrightarrow>
     apply_kont k v = Ok pt1 \<Longrightarrow>
     \<exists>w'. serves P w xs w' \<and> shared w' = s' \<and> ops_of w' = ops_of w @ ops \<and> delivered w ep h f k l v w'"
proof (induction arbitrary: w op kr ks rule: conversation.induct)
  case (converse_complete kr0 x ks0 s s1 r1 xs s2 r2 ops op0)
  note prems = converse_complete.prems
  have unwind: "unwind P (kr x) ks (shared w) s1 r1" using converse_complete.hyps(1) prems(1,3) by simp
  show ?case
  proof (cases r1)
    case (Returned u)
    with converse_complete.hyps(2) prems(2) have eqs: "u = v" "xs = []" "s2 = s1" "ops = []"
      by (simp_all add: conversation_Returned)
    from cross_step_returned [OF prems(4-6) unwind [unfolded Returned eqs(1)] prems(7)] Returned eqs show ?thesis by simp
  next
    case (Blocked op2 kr2 ks2)
    from cross_step_blocked [OF prems(4) unwind [unfolded Blocked]] obtain w1 where
      w1: "\<And>xs w2. serves P w1 xs w2 \<Longrightarrow> serves P w (x # xs) w2" "shared w1 = s1" "ready w1 = ready w"
        "ops_of w1 = ops_of w @ [op2]" "cross_blocked w1 e h f k l op2 kr2 ks2" by blast
    from converse_complete.IH [OF Blocked prems(2) w1(2,5) prems(5-7)] obtain w' where
      "serves P w1 xs w'" "shared w' = s2" "ops_of w' = ops_of w1 @ ops" "delivered w1 ep h f k l v w'" by blast
    with w1 Blocked show ?thesis by (intro exI [of _ w']) (simp add: delivered_def)
  qed
qed simp

text \<open>The parent, once its executor resumes it, goes on with the result.\<close>

lemma delivered_resumes:
  assumes "delivered w ep h f k l v w'" and "apply_kont k v = Ok pt1"
  shows "exec_call P (Suc n) (CResumeHandle h) w' = exec_call P n (CRun h pt1) (set_status h Running w')"
proof -
  have "apply_kont k (cross_result k v) = Ok pt1" using assms(2) by (cases k) (simp_all add: cross_result_def)
  with assms(1) show ?thesis
    by (simp add: delivered_def exec_call_unfold(2) resume_handle_body_def del: exec_call.simps)
qed

section \<open>Awaited tasks that throw\<close>

text \<open>
  A body that throws returns without a result.  Awaiting it as a \<open>Task<void>\<close> goes on as after a
  normal end; awaiting it as a \<open>Task<T>\<close> fails the assertion of \<open>await_resume\<close>.
\<close>

lemma await_without_result:
  assumes fetch: "fetch P pt = CoAwait p k" and run: "runnable w h f e"
    and eval: "eval P p (shared w) s1 (Returned None)"
  obtains n w1 w3 where "take_result (fresh w) k w1 = obind (apply_kont k None) (\<lambda>pt1. Ok (pt1, destroy (fresh w) w1))"
    "w3 = set_status h Running (destroy (fresh w) w1)" "runnable w3 h f e" "shared w3 = s1" "resumes_as w w3"
    "\<And>m. n \<le> m \<Longrightarrow> exec_call P (Suc (Suc (Suc m))) (CRun h pt) w =
       obind (take_result (fresh w) k w1) (\<lambda>(pt1, w3). exec_call P (Suc m) (CRun h pt1) (set_status h Running w3))"
proof -
  let ?c = "fresh w" and ?cw = "call_world h f e k w"
  from run have h: "heap w h = Some f" "executor f = Some e" "fresh_above w" "heap w ?c = None"
      "h \<noteq> ?c" "status f = Running" "h < ?c"
    using fresh_above_less by (auto simp: runnable_def fresh_above_def)
  have "eval P p (shared ?cw) s1 (Returned None)" using eval by (simp add: call_world_def)
  from run_refines_eval [OF this refl runnable_call_world [OF run]] obtain n w1 where
    w1: "exec_call P n (CRun ?c p) ?cw = Ok w1" "shared w1 = s1"
      "fresh_above w1" "same_below {?c} ?cw w1"
      "heap w1 = (heap ?cw)(?c \<mapsto> (started_frame e h)\<lparr>status := Final, result := None\<rparr>)"
      "submitted (events w1) = submitted (events ?cw)"
    by (auto simp: run_ok_def)
  define w3 where "w3 = set_status h Running (destroy ?c w1)"
  have heap3: "heap w3 = heap w"
    using h w1(5) by (auto simp: w3_def frame_defs destroy_def call_world_def fun_eq_iff)
  have w3: "shared w3 = s1" "fresh w3 = fresh w1" "ready w3 = ready w1" "submitted (events w3) = submitted (events w1)"
    using w1(2) by (simp_all add: w3_def frame_defs destroy_def)
  have as: "resumes_as w w3" using w1(4,6) w3 heap3 by (auto simp: resumes_as_def same_below_def call_world_def)
  have "fresh_above w3" using w1(3,4) h(3) w3(2) heap3 by (auto simp: fresh_above_def same_below_def call_world_def)
  with heap3 run have "runnable w3 h f e" by (simp add: runnable_def)
  moreover have "take_result ?c k w1 = obind (apply_kont k None) (\<lambda>pt1. Ok (pt1, destroy ?c w1))"
    using w1(5) by (simp add: take_result_def)
  moreover have "exec_call P (Suc (Suc (Suc m))) (CRun h pt) w =
      obind (take_result ?c k w1) (\<lambda>(pt1, w3). exec_call P (Suc m) (CRun h pt1) (set_status h Running w3))" if "n \<le> m" for m
    unfolding run_call [OF fetch h(1,2,3)] using exec_call_Ok_mono [OF w1(1) that] w1(5)
    by (simp add: is_done_def del: exec_call.simps)
  ultimately show ?thesis using that [OF _ w3_def _ w3(1) as] by blast
qed

text \<open>
  The same when the child has suspended before, and was resumed by the completion of an operation:
  a chain of frames returns into the one that awaits without a result.
\<close>

lemma return_without_result:
  assumes eval: "eval P pt (shared w) s1 (Returned v)" and run: "runnable w l f e"
    and chain: "suspended_chain (heap w) e l (h # hs) (k # ks)" and dist: "distinct (l # h # hs)"
    and kont: "apply_kont k v = Fault x"
  shows "ends P l pt w (Fault x)"
proof -
  from returned_leaf [OF eval run chain dist] obtain n w1 fl fh where
    call: "exec_call P n (CRun l pt) w = Ok w1"
    and lf: "heap w1 l = Some fl" "status fl = Final" "\<not> destroyOnDone fl" "parent fl = Some h" "result fl = v"
    and hf: "heap w1 h = Some fh" "status fh = AwTask l k" "h \<noteq> l" by metis
  show ?thesis by (rule ends_parent [OF call lf(1-4) hf]) (simp add: lf(5) kont)
qed

lemma unwind_without_result:
  fixes P :: "('pc, 'op, 'r, 'v, 's) prog"
  shows "unwind P pt ks s s1 r \<Longrightarrow> r = Returned v \<Longrightarrow> shared w = s \<Longrightarrow> runnable w leaf f e \<Longrightarrow>
     suspended_chain (heap w) e leaf (hs @ h # hs') (ks @ k # ks') \<Longrightarrow> distinct (leaf # hs @ h # hs') \<Longrightarrow>
     length hs = length ks \<Longrightarrow> apply_kont k v = Fault x \<Longrightarrow> ends P leaf pt w (Fault x)"
proof (induction arbitrary: w leaf f hs rule: unwind.induct)
  case (unwind_finished pt s s1 v')
  then show ?case by (intro return_without_result [of P pt w s1 v]) auto
next
  case (unwind_return pt s s1 v' k1 pt1 ks s2 r)
  then obtain h1 hs1 where hs: "hs = h1 # hs1" by (cases hs) auto
  have "eval P pt (shared w) s1 (Returned v')" using unwind_return by simp
  moreover have "suspended_chain (heap w) e leaf (h1 # hs1 @ h # hs') (k1 # ks @ k # ks')" "distinct (leaf # h1 # hs1 @ h # hs')"
    using unwind_return.prems(4,5) hs by simp_all
  ultimately obtain w2 fh where w2: "shared w2 = s1" "runnable w2 h1 (fh\<lparr>status := Running\<rparr>) e"
    "suspended_chain (heap w2) e h1 (hs1 @ h # hs') (ks @ k # ks')"
    and ends: "\<And>r. ends P h1 pt1 w2 r \<Longrightarrow> ends P leaf pt w r"
    using return_to_parent [OF _ unwind_return.prems(3) _ _ unwind_return.hyps(2)] by metis
  have "distinct (h1 # hs1 @ h # hs')" "length hs1 = length ks" using unwind_return.prems(5,6) hs by simp_all
  from unwind_return.IH [OF unwind_return.prems(1) w2 this unwind_return.prems(7)] show ?case by (rule ends)
qed simp

text \<open>A frame that returns into a continuation which takes the result leaves the rest of the stack to unwind.\<close>

lemma unwind_through:
  "unwind P pt ks s s1 r \<Longrightarrow> r = Returned v \<Longrightarrow> apply_kont k v = Ok pt' \<Longrightarrow> unwind P pt' ks' s1 s2 r' \<Longrightarrow>
     unwind P pt (ks @ k # ks') s s2 r'"
  by (induction rule: unwind.induct) (auto intro: unwind_return)

section \<open>Properties\<close>

text \<open>
  C18. Exceptions are lost.  A task whose body throws ends without a result, as \<open>eval_throw\<close> says.
  First, the task throws while the coroutine that awaits it has not been suspended: a coroutine
  that awaits it as a \<open>Task<void>\<close> goes on as if it had ended normally, in the state the body left;
  one that awaits it as a \<open>Task<T>\<close> fails the assertion of \<open>await_resume\<close>, which no code can catch.
  Second, the task throws after it has awaited operations, itself or in tasks it awaits in turn,
  and is resumed by the completion of the last one: then the \<open>Resume\<close> that makes the completion
  fails the assertion in the frame that awaits a \<open>Task<T>\<close>, and for a \<open>Task<void>\<close> it runs on like
  the call stack in which the task has returned normally.
\<close>

theorem awaited_exception:
  "(fetch P pt = CoAwait p k \<and> runnable w h f e \<and> eval P p (shared w) s1 (Returned None) \<longrightarrow>
     (case k of
        KVal g \<Rightarrow> \<exists>n. \<forall>m \<ge> n. exec_call P m (CRun h pt) w = Fault AssertFailed
      | KVoid q \<Rightarrow> \<exists>n w1. runnable w1 h f e \<and> shared w1 = s1 \<and> resumes_as w w1 \<and>
          (\<forall>m \<ge> n. exec_call P (m + 3) (CRun h pt) w = exec_call P (m + 1) (CRun h q) w1))) \<and>
   (job_stack w e l (hs @ h # hs') kr (ks @ k # ks') \<and> length hs = length ks \<and>
      unwind P (kr x) ks (shared w) s1 (Returned None) \<longrightarrow>
     (case k of
        KVal g \<Rightarrow> \<exists>n. \<forall>m \<ge> n. Resume P m l (complete l x w) = Fault AssertFailed
      | KVoid q \<Rightarrow> \<forall>s2 r. unwind P q ks' s1 s2 r \<longrightarrow>
          (\<exists>n w1. (\<forall>m \<ge> n. Resume P m l (complete l x w) = Ok w1) \<and> ends_in w e (l # hs @ h # hs') s2 r w1)))"
proof (intro conjI impI; elim conjE)
  assume "fetch P pt = CoAwait p k" "runnable w h f e" "eval P p (shared w) s1 (Returned None)"
  from await_without_result [OF this] obtain n w1 w3 where
    t: "take_result (fresh w) k w1 = obind (apply_kont k None) (\<lambda>pt1. Ok (pt1, destroy (fresh w) w1))"
    and w3: "w3 = set_status h Running (destroy (fresh w) w1)" "runnable w3 h f e" "shared w3 = s1" "resumes_as w w3"
    and run: "\<And>m. n \<le> m \<Longrightarrow> exec_call P (Suc (Suc (Suc m))) (CRun h pt) w =
       obind (take_result (fresh w) k w1) (\<lambda>(pt1, w3). exec_call P (Suc m) (CRun h pt1) (set_status h Running w3))"
    by blast
  show "case k of
      KVal g \<Rightarrow> \<exists>n. \<forall>m \<ge> n. exec_call P m (CRun h pt) w = Fault AssertFailed
    | KVoid q \<Rightarrow> \<exists>n w1. runnable w1 h f e \<and> shared w1 = s1 \<and> resumes_as w w1 \<and>
        (\<forall>m \<ge> n. exec_call P (m + 3) (CRun h pt) w = exec_call P (m + 1) (CRun h q) w1)"
  proof (cases k)
    case (KVal g)
    with t run [of n] have fault: "exec_call P (Suc (Suc (Suc n))) (CRun h pt) w = Fault AssertFailed" by simp
    have "exec_call P m (CRun h pt) w = Fault AssertFailed" if "Suc (Suc (Suc n)) \<le> m" for m
      using exec_call_mono [OF _ that] fault by (metis outcome.distinct(5))
    with KVal show ?thesis by auto
  next
    case (KVoid q)
    with t run w3 have "exec_call P (m + 3) (CRun h pt) w = exec_call P (m + 1) (CRun h q) w3" if "n \<le> m" for m
      using that by (simp add: numeral_3_eq_3 del: exec_call.simps)
    with KVoid w3(2-) show ?thesis by auto
  qed
next
  assume stack: "job_stack w e l (hs @ h # hs') kr (ks @ k # ks')" and len: "length hs = length ks"
    and unwind: "unwind P (kr x) ks (shared w) s1 (Returned None)"
  show "case k of
      KVal g \<Rightarrow> \<exists>n. \<forall>m \<ge> n. Resume P m l (complete l x w) = Fault AssertFailed
    | KVoid q \<Rightarrow> \<forall>s2 r. unwind P q ks' s1 s2 r \<longrightarrow>
        (\<exists>n w1. (\<forall>m \<ge> n. Resume P m l (complete l x w) = Ok w1) \<and> ends_in w e (l # hs @ h # hs') s2 r w1)"
  proof (cases k)
    case (KVal g)
    have dist: "distinct (l # hs @ h # hs')" using stack by (simp add: job_stack_def)
    from complete_runs [OF stack] obtain w0 f where
      w0: "runnable w0 l f e" "shared w0 = shared w" "suspended_chain (heap w0) e l (hs @ h # hs') (ks @ k # ks')"
      and calls: "\<And>n. exec_call P (Suc n) (CResumeHandle l) (complete l x w) = exec_call P n (CRun l (kr x)) w0" by metis
    have "ends P l (kr x) w0 (Fault AssertFailed)"
      by (rule unwind_without_result [OF unwind refl w0(2,1,3) dist len]) (simp add: KVal)
    from Resume_ends [OF this calls] KVal show ?thesis by simp
  next
    case (KVoid q)
    then have "unwind P (kr x) (ks @ k # ks') (shared w) s2 r" if "unwind P q ks' s1 s2 r" for s2 r
      using unwind_through [OF unwind refl _ that] by simp
    with complete_refines [OF stack] KVoid show ?thesis by fastforce
  qed
qed

text \<open>
  Frame 0 awaits a task that throws; and frame 0 awaits frame 1, which waits for an operation and
  throws after it.
\<close>

datatype throw_point = ThrowOuter bool | ThrowInner | ThrowAfter

definition throw_prog :: "(throw_point, unit, unit, nat, unit) prog" where
  "throw_prog = \<lparr>code = (\<lambda>p. case p of
       ThrowOuter void \<Rightarrow> CoAwait ThrowInner (if void then KVoid ThrowAfter else KVal (\<lambda>v. ThrowAfter))
     | ThrowInner \<Rightarrow> CoThrow
     | ThrowAfter \<Rightarrow> CoReturnVoid), mode = (\<lambda>_. Immediate)\<rparr>"

definition throw_stack :: "((throw_point, nat) point, nat) kont \<Rightarrow> (throw_point, unit, unit, nat, unit) machine" where
  "throw_stack k = (empty_world ())\<lparr>fresh := 2, heap :=
     [0 \<mapsto> \<lparr>status = AwTask 1 k, result = None, destroyOnDone = True, executor = Some 1, parent = None\<rparr>,
      1 \<mapsto> \<lparr>status = AwOp None (\<lambda>_. Body ThrowInner), result = None, destroyOnDone = False, executor = Some 1, parent = Some 0\<rparr>]\<rparr>"

theorem awaited_exception_witness:
  "(\<exists>n. \<forall>m \<ge> n. exec_call throw_prog m (CRun 0 (Body (ThrowOuter False)))
     ((empty_world ())\<lparr>fresh := 1, heap := [0 \<mapsto> \<lparr>status = Running, result = None, destroyOnDone = True,
       executor = Some 1, parent = None\<rparr>]\<rparr>) = Fault AssertFailed) \<and>
   (\<exists>n. \<forall>m \<ge> n. Resume throw_prog m 1 (complete 1 () (throw_stack (KVal (\<lambda>v. Body ThrowAfter)))) = Fault AssertFailed) \<and>
   (\<exists>n w1. (\<forall>m \<ge> n. Resume throw_prog m 1 (complete 1 () (throw_stack (KVoid (Body ThrowAfter)))) = Ok w1) \<and>
     ends_in (throw_stack (KVoid (Body ThrowAfter))) 1 [1, 0] () (Returned None) w1)"
proof (intro conjI)
  let ?f = "\<lparr>status = Running, result = None, destroyOnDone = True, executor = Some 1, parent = None\<rparr>"
  let ?w = "(empty_world ())\<lparr>fresh := 1, heap := [0 \<mapsto> ?f]\<rparr> :: (throw_point, unit, unit, nat, unit) machine"
  have f: "fetch throw_prog (Body (ThrowOuter False)) = CoAwait (Body ThrowInner) (KVal (\<lambda>v. Body ThrowAfter))"
    "fetch throw_prog (Body ThrowInner) = CoThrow" "fetch throw_prog (Body ThrowAfter) = CoReturnVoid"
    by (simp_all add: throw_prog_def comp_def)
  have run: "runnable ?w 0 ?f 1" by (simp add: runnable_def fresh_above_def)
  from awaited_exception [THEN conjunct1, THEN mp, OF conjI, OF f(1) conjI, OF run eval_throw [OF f(2)]]
  show "\<exists>n. \<forall>m \<ge> n. exec_call throw_prog m (CRun 0 (Body (ThrowOuter False))) ?w = Fault AssertFailed" by simp
  let ?kr = "\<lambda>_ :: unit. Body ThrowInner :: (throw_point, nat) point"
  have stack: "job_stack (throw_stack k) 1 1 ([] @ 0 # []) ?kr ([] @ k # [])" for k
    by (simp add: job_stack_def throw_stack_def root_frame_def fresh_above_def)
  have throws: "unwind throw_prog (?kr ()) [] (shared (throw_stack k)) () (Returned None)" for k
    using unwind_finished [OF eval_throw [OF f(2)]] by simp
  let ?val = "KVal (\<lambda>v. Body ThrowAfter) :: ((throw_point, nat) point, nat) kont" and ?void = "KVoid (Body ThrowAfter) :: ((throw_point, nat) point, nat) kont"
  from awaited_exception [THEN conjunct2, THEN mp, OF conjI, OF stack [of ?val] conjI, OF _ throws [of ?val]]
  show "\<exists>n. \<forall>m \<ge> n. Resume throw_prog m 1 (complete 1 () (throw_stack (KVal (\<lambda>v. Body ThrowAfter)))) = Fault AssertFailed"
    by simp
  from awaited_exception [THEN conjunct2, THEN mp, OF conjI, OF stack [of ?void] conjI, OF _ throws [of ?void]] unwind_finished [OF eval_return_void [OF f(3)]]
  show "\<exists>n w1. (\<forall>m \<ge> n. Resume throw_prog m 1 (complete 1 () (throw_stack (KVoid (Body ThrowAfter)))) = Ok w1) \<and>
     ends_in (throw_stack (KVoid (Body ThrowAfter))) 1 [1, 0] () (Returned None) w1"
    by simp
qed

text \<open>
  C9. Awaiting a task of another executor.  A job of an executor that defers jobs (the game's)
  awaits a task on one that starts them at once (gRPC's): the child does what the call stack
  says, whatever it awaits; when it has returned, its frames are destroyed, and the parent holds
  the result and was marked ready on its own executor, once; resumed there it goes on with the
  result of the child.
\<close>

theorem cross_task_delivers:
  assumes "fetch P pt = CoCross e p k" and "mode P e = Immediate" and "mode P ep = Deferred"
    and "runnable w h f ep" and "eval P p (shared w) s1 r1"
    and "conversation P s1 r1 xs s2 (Returned v) ops" and "apply_kont k v = Ok pt1"
  shows "\<exists>n w1 w2. (\<forall>m \<ge> n. exec_call P m (CRun h pt) w = Ok w1) \<and> serves P w1 xs w2 \<and> shared w2 = s2 \<and>
     ops_of w2 = ops_of w @ pending r1 @ ops \<and> ready w2 = (ready w)(ep := ready w ep @ [h]) \<and>
     heap w2 (Suc (fresh w)) = None \<and>
     (\<forall>m. exec_call P (Suc m) (CResumeHandle h) w2 = exec_call P m (CRun h pt1) (set_status h Running w2))"
proof (cases r1)
  case (Returned u)
  with assms(6) have eqs: "u = v" "xs = []" "s2 = s1" "ops = []" by (simp_all add: conversation_Returned)
  from cross_starts_returned [OF assms(1,2,4) assms(5) [unfolded Returned eqs(1)] assms(7,3)] obtain n w1 where
    "\<forall>m \<ge> n. exec_call P m (CRun h pt) w = Ok w1" "shared w1 = s1" "ops_of w1 = ops_of w"
    "delivered w ep h f k (Suc (fresh w)) v w1" by blast
  moreover from this(4) have "ready w1 = (ready w)(ep := ready w ep @ [h])" "heap w1 (Suc (fresh w)) = None"
    by (simp_all add: delivered_def)
  ultimately show ?thesis
    using delivered_resumes [OF _ assms(7)] serves_stop Returned eqs by (metis append_Nil2 pending.simps(1))
next
  case (Blocked op kr ks)
  from cross_starts_blocked [OF assms(1,2,4) assms(5) [unfolded Blocked]] obtain n w1 where
    w1: "\<forall>m \<ge> n. exec_call P m (CRun h pt) w = Ok w1" "shared w1 = s1" "ready w1 = ready w"
      "ops_of w1 = ops_of w @ [op]" "cross_blocked w1 e h f k (Suc (fresh w)) op kr ks" by blast
  have "executor f = Some ep" using assms(4) by (simp add: runnable_def)
  from cross_converses [OF assms(6) Blocked refl w1(2,5) this assms(3,7)] obtain w2 where
    w2: "serves P w1 xs w2" "shared w2 = s2" "ops_of w2 = ops_of w1 @ ops" "delivered w1 ep h f k (Suc (fresh w)) v w2"
    by blast
  from w2(4) w1(3) have "ready w2 = (ready w)(ep := ready w ep @ [h])" "heap w2 (Suc (fresh w)) = None"
    by (simp_all add: delivered_def)
  with w1(1,4) w2(1-3) delivered_resumes [OF w2(4) assms(7)] Blocked show ?thesis
    by (intro exI [of _ n] exI [of _ w1] exI [of _ w2]) (simp del: exec_call.simps)
qed

text \<open>A parent on executor 1, which defers, awaits on executor 0 a child that asks for one operation.\<close>

datatype cross_point = CrossParent | CrossChild | CrossGot nat | CrossEnd nat

definition cross_prog :: "(cross_point, string, nat, nat, unit) prog" where
  "cross_prog = \<lparr>code = (\<lambda>p. case p of
       CrossParent \<Rightarrow> CoCross 0 CrossChild (KVal CrossEnd)
     | CrossChild \<Rightarrow> CoSuspend ''rpc'' CrossGot
     | CrossGot n \<Rightarrow> CoReturn (n + 1)
     | CrossEnd n \<Rightarrow> CoReturnVoid), mode = (\<lambda>e. if e = 0 then Immediate else Deferred)\<rparr>"

definition cross_start :: "(cross_point, string, nat, nat, unit) machine" where
  "cross_start = (empty_world ())\<lparr>fresh := 1, heap := [0 \<mapsto> \<lparr>status = Running, result = None, destroyOnDone = True,
     executor = Some 1, parent = None\<rparr>]\<rparr>"

theorem cross_task_delivers_witness:
  "\<exists>n w1 w2. (\<forall>m \<ge> n. exec_call cross_prog m (CRun 0 (Body CrossParent)) cross_start = Ok w1) \<and>
     serves cross_prog w1 [41] w2 \<and> ops_of w2 = [''rpc''] \<and> ready w2 1 = [0] \<and>
     exec_call cross_prog 2 (CResumeHandle 0) w2 = exec_call cross_prog 1 (CRun 0 (Body (CrossEnd 42))) (set_status 0 Running w2)"
proof -
  let ?kr = "\<lambda>x. Body (CrossGot x) :: (cross_point, nat) point" and ?k = "KVal (\<lambda>v. Body (CrossEnd v)) :: ((cross_point, nat) point, nat) kont"
  let ?f = "\<lparr>status = Running, result = None, destroyOnDone = True, executor = Some 1, parent = None\<rparr>"
  have f: "fetch cross_prog (Body CrossParent) = CoCross 0 (Body CrossChild) ?k"
      "fetch cross_prog (Body CrossChild) = CoSuspend ''rpc'' ?kr"
      "fetch cross_prog (Body (CrossGot n)) = CoReturn (n + 1)" for n
    by (simp_all add: cross_prog_def comp_def)
  have m: "mode cross_prog 0 = Immediate" "mode cross_prog 1 = Deferred" by (simp_all add: cross_prog_def)
  have run: "runnable cross_start 0 ?f 1" by (simp add: runnable_def cross_start_def fresh_above_def)
  have child: "eval cross_prog (Body CrossChild) (shared cross_start) () (Blocked ''rpc'' ?kr [])"
    using eval_suspend [OF f(2)] by simp
  have "unwind cross_prog (?kr 41) [] () () (Returned (Some 42))"
    by (rule unwind_finished) (use eval_return [OF f(3), of 41] in simp)
  from converse_complete [where kr = ?kr and op = "''rpc''", OF this converse_stop]
  have conv: "conversation cross_prog () (Blocked ''rpc'' ?kr []) [41] () (Returned (Some 42)) []" by simp
  have kont: "apply_kont ?k (Some 42) = Ok (Body (CrossEnd 42))" by simp
  have start: "ops_of cross_start = []" "ready cross_start 1 = []"
    by (simp_all add: cross_start_def empty_world_def ops_of_def)
  from cross_task_delivers [OF f(1) m run child conv kont] obtain n w1 w2 where
    "\<forall>m \<ge> n. exec_call cross_prog m (CRun 0 (Body CrossParent)) cross_start = Ok w1" "serves cross_prog w1 [41] w2"
    "ops_of w2 = ops_of cross_start @ [''rpc'']" "ready w2 = (ready cross_start)(1 := ready cross_start 1 @ [0])"
    and go: "\<And>m. exec_call cross_prog (Suc m) (CResumeHandle 0) w2 = exec_call cross_prog m (CRun 0 (Body (CrossEnd 42))) (set_status 0 Running w2)"
    by auto
  moreover from go [of 1] have "exec_call cross_prog 2 (CResumeHandle 0) w2 = exec_call cross_prog 1 (CRun 0 (Body (CrossEnd 42))) (set_status 0 Running w2)"
    by (simp only: numeral_2_eq_2 One_nat_def)
  ultimately show ?thesis using start by (intro exI [of _ n] exI [of _ w1] exI [of _ w2]) (simp del: exec_call.simps)
qed

end
