(* ===== verification/Coroutine.thy ===== *)
theory Coroutine
  imports AsyncCalls
begin

text \<open>
  Coroutines as values.

  The coroutines of the gRPC client side (\<open>AutoRetryUnary\<close>, the remote character service) are
  straight-line code with awaits, so they are written as finite trees: \<open>Return\<close> is \<open>co_return\<close>,
  \<open>Do\<close> an effect the program performs on the way (a log line, a cancellation), \<open>Submit\<close> a
  \<open>co_await\<close> of an operation of the completion queue with the rest of the body as a function
  of the completion, \<open>Undefined\<close> a point where the behaviour is undefined.  \<open>co_await\<close> of
  another task is \<open>co_bind\<close>.

  That reading is justified here: \<open>body\<close> is the type of bodies that keep their nested tasks
  apart, \<open>body_prog\<close> runs them on the machine of \<open>AsyncLib\<close>, each task in a frame of its own,
  and a job behaves like the tree in which the awaits were replaced by \<open>co_bind\<close>.
\<close>

section \<open>Trees\<close>

datatype ('e, 'op, 'r, 'a) co =
    Return 'a
  | Do 'e "('e, 'op, 'r, 'a) co"
  | Submit 'op "'r \<Rightarrow> ('e, 'op, 'r, 'a) co"
  | Undefined fault

primrec co_bind :: "('e, 'op, 'r, 'a) co \<Rightarrow> ('a \<Rightarrow> ('e, 'op, 'r, 'b) co) \<Rightarrow> ('e, 'op, 'r, 'b) co" where
  "co_bind (Return a) f = f a"
| "co_bind (Do e c) f = Do e (co_bind c f)"
| "co_bind (Submit op k) f = Submit op (\<lambda>r. co_bind (k r) f)"
| "co_bind (Undefined x) f = Undefined x"

lemma co_bind_Return [simp]: "co_bind c Return = c"
  by (induction c) auto

lemma co_bind_assoc: "co_bind (co_bind c f) g = co_bind c (\<lambda>a. co_bind (f a) g)"
  by (induction c) auto

text \<open>A value that ordinary code computes, where that may be undefined.\<close>

fun co_outcome :: "'a outcome \<Rightarrow> ('e, 'op, 'r, 'a) co" where
  "co_outcome (Ok a) = Return a"
| "co_outcome (Fault x) = Undefined x"
| "co_outcome OutOfFuel = Undefined AssertFailed"

section \<open>Running a tree\<close>

text \<open>
  \<open>co_run c xs\<close>: the effects and the operations of \<open>c\<close> when its operations complete with \<open>xs\<close>,
  one after the other, and where it stops: with a value (and the completions it did not need),
  waiting for one more completion, or undefined.
\<close>

datatype ('r, 'a) co_stop = CoReturned 'a "'r list" | CoWaiting | CoUndefined fault

primrec co_run :: "('e, 'op, 'r, 'a) co \<Rightarrow> 'r list \<Rightarrow> 'e list \<times> 'op list \<times> ('r, 'a) co_stop" where
  "co_run (Return a) = (\<lambda>xs. ([], [], CoReturned a xs))"
| "co_run (Do e c) = (\<lambda>xs. case co_run c xs of (es, ops, r) \<Rightarrow> (e # es, ops, r))"
| "co_run (Submit op k) = (\<lambda>xs. case xs of [] \<Rightarrow> ([], [op], CoWaiting)
     | x # xs' \<Rightarrow> (case co_run (k x) xs' of (es, ops, r) \<Rightarrow> (es, op # ops, r)))"
| "co_run (Undefined x) = (\<lambda>xs. ([], [], CoUndefined x))"

text \<open>
  \<open>co_exec serve c w\<close>: the same against a world \<open>w\<close> that answers each operation.
\<close>

primrec co_exec :: "('op \<Rightarrow> 'w \<Rightarrow> 'r \<times> 'w) \<Rightarrow> ('e, 'op, 'r, 'a) co \<Rightarrow> 'w \<Rightarrow> 'a outcome \<times> 'w" where
  "co_exec serve (Return a) = (\<lambda>w. (Ok a, w))"
| "co_exec serve (Do e c) = co_exec serve c"
| "co_exec serve (Submit op k) = (\<lambda>w. case serve op w of (x, w') \<Rightarrow> co_exec serve (k x) w')"
| "co_exec serve (Undefined x) = (\<lambda>w. (Fault x, w))"

lemma co_exec_bind:
  "co_exec serve (co_bind c f) w = (case co_exec serve c w of
     (Ok a, w') \<Rightarrow> co_exec serve (f a) w' | (Fault x, w') \<Rightarrow> (Fault x, w') | (OutOfFuel, w') \<Rightarrow> (OutOfFuel, w'))"
  by (induction c arbitrary: w) (auto split: prod.splits)

lemma co_exec_fuel: "fst (co_exec serve c w) \<noteq> OutOfFuel"
  by (induction c arbitrary: w) (auto split: prod.splits)

text \<open>The completions a world gives make \<open>co_run\<close> stop where \<open>co_exec\<close> does.\<close>

lemma co_exec_run:
  "\<exists>xs es ops. co_run c xs = (es, ops, case fst (co_exec serve c w) of Ok a \<Rightarrow> CoReturned a []
     | Fault x \<Rightarrow> CoUndefined x | OutOfFuel \<Rightarrow> CoWaiting)"
proof (induction c arbitrary: w)
  case (Submit op k)
  obtain x w' where x: "serve op w = (x, w')" by fastforce
  from Submit.IH [of "k x" w'] obtain xs es ops where
    "co_run (k x) xs = (es, ops, case fst (co_exec serve (k x) w') of Ok a \<Rightarrow> CoReturned a []
       | Fault x \<Rightarrow> CoUndefined x | OutOfFuel \<Rightarrow> CoWaiting)" by auto
  then have "co_run (Submit op k) (x # xs) = (es, op # ops, case fst (co_exec serve (k x) w') of
      Ok a \<Rightarrow> CoReturned a [] | Fault x \<Rightarrow> CoUndefined x | OutOfFuel \<Rightarrow> CoWaiting)" by simp
  with x show ?case by (metis (lifting) case_prod_conv co_exec.simps(3))
next
  case (Do e c)
  from Do.IH [of w] obtain xs es ops where
    "co_run c xs = (es, ops, case fst (co_exec serve c w) of Ok a \<Rightarrow> CoReturned a []
       | Fault x \<Rightarrow> CoUndefined x | OutOfFuel \<Rightarrow> CoWaiting)" by auto
  then have "co_run (Do e c) xs = (e # es, ops, case fst (co_exec serve c w) of Ok a \<Rightarrow> CoReturned a []
       | Fault x \<Rightarrow> CoUndefined x | OutOfFuel \<Rightarrow> CoWaiting)" by simp
  then show ?case by (metis (lifting) co_exec.simps(2))
qed auto

section \<open>Nested tasks on the machine\<close>

datatype ('e, 'op, 'r, 'v) body =
    BReturn 'v
  | BDo 'e "('e, 'op, 'r, 'v) body"
  | BSubmit 'op "'r \<Rightarrow> ('e, 'op, 'r, 'v) body"
  | BUndefined fault
  | BAwait "('e, 'op, 'r, 'v) body" "'v \<Rightarrow> ('e, 'op, 'r, 'v) body"

primrec flatten :: "('e, 'op, 'r, 'v) body \<Rightarrow> ('e, 'op, 'r, 'v) co" where
  "flatten (BReturn v) = Return v"
| "flatten (BDo e b) = Do e (flatten b)"
| "flatten (BSubmit op k) = Submit op (\<lambda>r. flatten (k r))"
| "flatten (BUndefined x) = Undefined x"
| "flatten (BAwait b k) = co_bind (flatten b) (\<lambda>v. flatten (k v))"

text \<open>The state the bodies share is the list of effects performed so far.\<close>

fun body_code :: "('e, 'op, 'r, 'v) body \<Rightarrow> (('e, 'op, 'r, 'v) body, 'op, 'r, 'v, 'e list) action" where
  "body_code (BReturn v) = CoReturn v"
| "body_code (BDo e b) = CoStep (\<lambda>s. (s @ [e], b))"
| "body_code (BSubmit op k) = CoSuspend op k"
| "body_code (BUndefined x) = CoFault x"
| "body_code (BAwait b k) = CoAwait b (KVal k)"

definition body_prog :: "(('e, 'op, 'r, 'v) body, 'op, 'r, 'v, 'e list) prog" where
  "body_prog = \<lparr>code = body_code, mode = (\<lambda>_. Immediate)\<rparr>"

text \<open>What a stack of continuations computes, as a tree.\<close>

fun point_co :: "(('e, 'op, 'r, 'v) body, 'v) point \<Rightarrow> ('e, 'op, 'r, 'v) co" where
  "point_co (Body b) = flatten b"
| "point_co pt = Undefined AssertFailed"

fun stack_co :: "('e, 'op, 'r, 'v) co \<Rightarrow> ((('e, 'op, 'r, 'v) body, 'v) point, 'v) kont list
    \<Rightarrow> ('e, 'op, 'r, 'v) co" where
  "stack_co c [] = c"
| "stack_co c (KVal k # ks) = stack_co (co_bind c (\<lambda>v. point_co (k v))) ks"
| "stack_co c (KVoid p # ks) = stack_co (co_bind c (\<lambda>v. point_co p)) ks"

lemma stack_co_append: "stack_co c (ks @ ks') = stack_co (stack_co c ks) ks'"
  by (induction c ks rule: stack_co.induct) auto

lemma stack_co_Do [simp]: "stack_co (Do e c) ks = Do e (stack_co c ks)"
  by (induction c ks rule: stack_co.induct) auto

lemma stack_co_Submit [simp]: "stack_co (Submit op g) ks = Submit op (\<lambda>x. stack_co (g x) ks)"
proof (induction ks arbitrary: g)
  case (Cons k ks)
  then show ?case by (cases k) auto
qed simp

lemma stack_co_Undefined [simp]: "stack_co (Undefined y) ks = Undefined y"
proof (induction ks)
  case (Cons k ks)
  then show ?case by (cases k) auto
qed simp

text \<open>
  The first stretch of a tree, up to its value or its first operation, and \<open>eval\<close> of the body
  it comes from.
\<close>

primrec co_head :: "('e, 'op, 'r, 'a) co \<Rightarrow> 'e list \<times> ('e, 'op, 'r, 'a) co" where
  "co_head (Return a) = ([], Return a)"
| "co_head (Do e c) = (case co_head c of (es, c') \<Rightarrow> (e # es, c'))"
| "co_head (Submit op k) = ([], Submit op k)"
| "co_head (Undefined x) = ([], Undefined x)"

lemma co_head_bind_Return: "co_head c = (es, Return a) \<Longrightarrow>
    co_head (co_bind c f) = (es @ fst (co_head (f a)), snd (co_head (f a)))"
  by (induction c arbitrary: es) (auto split: prod.splits)

lemma co_head_bind_Submit: "co_head c = (es, Submit op g) \<Longrightarrow>
    co_head (co_bind c f) = (es, Submit op (\<lambda>x. co_bind (g x) f))"
  by (induction c arbitrary: es) (auto split: prod.splits)

lemma co_head_bind_Undefined: "co_head c = (es, Undefined x) \<Longrightarrow>
    co_head (co_bind c f) = (es, Undefined x)"
  by (induction c arbitrary: es) (auto split: prod.splits)

lemma co_head_cases [case_names returns waits undefined]:
  obtains es a where "co_head c = (es, Return a)"
  | es op k where "co_head c = (es, Submit op k)"
  | es x where "co_head c = (es, Undefined x)"
proof (induction c)
  case (Do e c)
  then show ?case by (auto split: prod.splits)
qed auto

fun head_eval :: "('e, 'op, 'r, 'v) body \<Rightarrow> 'e list \<Rightarrow> 'e list \<times> ('e, 'op, 'r, 'v) co \<Rightarrow> bool" where
  "head_eval b s (es, Return a) = eval body_prog (Body b) s (s @ es) (Returned (Some a))"
| "head_eval b s (es, Submit op g) = (\<exists>kr ks. eval body_prog (Body b) s (s @ es) (Blocked op kr ks) \<and>
     (\<forall>x. stack_co (point_co (kr x)) ks = g x))"
| "head_eval b s (es, Undefined x) = True"
| "head_eval b s (es, Do e c) = False"

lemma eval_flatten: "head_eval b s (co_head (flatten b))"
proof (induction b arbitrary: s)
  case (BReturn v)
  then show ?case by (auto simp: body_prog_def eval_CoReturn)
next
  case (BDo e b)
  have f: "fetch body_prog (Body (BDo e b)) = CoStep (\<lambda>s. (s @ [e], Body b))"
    by (simp add: body_prog_def fun_eq_iff)
  show ?case using BDo.IH [of "s @ [e]"]
    by (cases rule: co_head_cases [of "flatten b"]) (auto simp: eval_CoStep [OF f])
next
  case (BSubmit op k)
  have f: "fetch body_prog (Body (BSubmit op k)) = CoSuspend op (\<lambda>x. Body (k x))"
    by (simp add: body_prog_def comp_def)
  have "eval body_prog (Body (BSubmit op k)) s s (Blocked op (\<lambda>x. Body (k x)) [])"
    by (simp add: eval_CoSuspend [OF f])
  then show ?case by (auto intro!: exI [of _ "\<lambda>x. Body (k x)"] exI [of _ "[]"])
next
  case (BUndefined x)
  then show ?case by simp
next
  case (BAwait b k)
  have f: "fetch body_prog (Body (BAwait b k)) = CoAwait (Body b) (KVal (\<lambda>v. Body (k v)))"
    by (simp add: body_prog_def comp_def)
  show ?case
  proof (cases rule: co_head_cases [of "flatten b"])
    case (returns es a)
    with BAwait.IH(1) [of s] have b: "eval body_prog (Body b) s (s @ es) (Returned (Some a))" by simp
    have call: "eval body_prog (Body (BAwait b k)) s s2 r"
      if "eval body_prog (Body (k a)) (s @ es) s2 r" for s2 r
      using eval_call [OF f b _ that] by simp
    have IH: "head_eval (k a) (s @ es) (co_head (flatten (k a)))" by (rule BAwait.IH(2)) simp
    have head: "co_head (flatten (BAwait b k)) =
        (es @ fst (co_head (flatten (k a))), snd (co_head (flatten (k a))))"
      by (simp add: co_head_bind_Return [OF returns])
    show ?thesis
    proof (cases rule: co_head_cases [of "flatten (k a)"])
      case (returns es' a')
      with IH call [of "s @ es @ es'"] head show ?thesis by simp
    next
      case (waits es' op g)
      with IH obtain kr ks where "eval body_prog (Body (k a)) (s @ es) ((s @ es) @ es') (Blocked op kr ks)"
          "\<forall>x. stack_co (point_co (kr x)) ks = g x" by auto
      with call [of "s @ es @ es'"] head waits show ?thesis by auto
    qed (use head in simp)
  next
    case (waits es op g)
    with BAwait.IH(1) [of s] obtain kr ks where
      b: "eval body_prog (Body b) s (s @ es) (Blocked op kr ks)" "\<forall>x. stack_co (point_co (kr x)) ks = g x"
      by auto
    from b(1) have "eval body_prog (Body (BAwait b k)) s (s @ es) (Blocked op kr (ks @ [KVal (\<lambda>v. Body (k v))]))"
      by (rule eval_call_blocked [OF f])
    moreover have "stack_co (point_co (kr x)) (ks @ [KVal (\<lambda>v. Body (k v))]) =
        co_bind (g x) (\<lambda>v. flatten (k v))" for x
      using b(2) by (simp add: stack_co_append)
    ultimately show ?thesis by (auto simp: co_head_bind_Submit [OF waits])
  next
    case (undefined es x)
    then show ?thesis by (simp add: co_head_bind_Undefined)
  qed
qed

lemma stack_co_bind: "stack_co (co_bind c f) ks = co_bind c (\<lambda>v. stack_co (f v) ks)"
proof (induction ks arbitrary: f)
  case (Cons k ks)
  then show ?case by (cases k) (simp_all add: co_bind_assoc)
qed simp

section \<open>Awaiting is binding\<close>

text \<open>The same for a stack that is resumed with the value of its innermost call.\<close>

fun head_unwind :: "(('e, 'op, 'r, 'v) body, 'v) point \<Rightarrow> ((('e, 'op, 'r, 'v) body, 'v) point, 'v) kont list
    \<Rightarrow> 'e list \<Rightarrow> 'e list \<times> ('e, 'op, 'r, 'v) co \<Rightarrow> bool" where
  "head_unwind pt ks s (es, Return a) = unwind body_prog pt ks s (s @ es) (Returned (Some a))"
| "head_unwind pt ks s (es, Submit op g) = (\<exists>kr ks'. unwind body_prog pt ks s (s @ es) (Blocked op kr ks') \<and>
     (\<forall>x. stack_co (point_co (kr x)) ks' = g x))"
| "head_unwind pt ks s (es, Undefined x) = True"
| "head_unwind pt ks s (es, Do e c) = False"

lemma unwind_stack: "head_unwind pt ks s (co_head (stack_co (point_co pt) ks))"
proof (induction ks arbitrary: pt s)
  case Nil
  show ?case
  proof (cases pt)
    case (Body b)
    with eval_flatten [of b s] show ?thesis
      by (cases rule: co_head_cases [of "flatten b"]) (auto dest: eval_unwind)
  qed simp_all
next
  case (Cons k ks)
  show ?case
  proof (cases pt)
    case (Body b)
    obtain f where f: "stack_co (flatten b) (k # ks) = stack_co (co_bind (flatten b) (\<lambda>v. point_co (f v))) ks"
        "\<And>v. apply_kont k (Some v) = Ok (f v)"
      by (cases k) auto
    show ?thesis
    proof (cases rule: co_head_cases [of "flatten b"])
      case (returns es a)
      with eval_flatten [of b s]
      have e: "eval body_prog (Body b) s (s @ es) (Returned (Some a))" by simp
      have u: "unwind body_prog (Body b) (k # ks) s s2 r"
        if "unwind body_prog (f a) ks (s @ es) s2 r" for s2 r
        by (rule unwind_return [OF e f(2) that])
      have IH: "head_unwind (f a) ks (s @ es) (co_head (stack_co (point_co (f a)) ks))" by (rule Cons.IH)
      have head: "co_head (stack_co (flatten b) (k # ks)) = (es @ fst (co_head (stack_co (point_co (f a)) ks)),
          snd (co_head (stack_co (point_co (f a)) ks)))"
        unfolding f(1) stack_co_bind by (rule co_head_bind_Return [OF returns])
      show ?thesis
      proof (cases rule: co_head_cases [of "stack_co (point_co (f a)) ks"])
        case (returns es' a')
        with IH u [of "s @ es @ es'"] head Body show ?thesis by simp
      next
        case (waits es' op g)
        with IH obtain kr ks' where "unwind body_prog (f a) ks (s @ es) ((s @ es) @ es') (Blocked op kr ks')"
            "\<forall>x. stack_co (point_co (kr x)) ks' = g x" by auto
        with u [of "s @ es @ es'"] head waits Body show ?thesis by auto
      qed (use head Body in simp)
    next
      case (waits es op g)
      with eval_flatten [of b s] obtain kr ks' where
        e: "eval body_prog (Body b) s (s @ es) (Blocked op kr ks')" "\<forall>x. stack_co (point_co (kr x)) ks' = g x"
        by auto
      have "unwind body_prog (Body b) (k # ks) s (s @ es) (Blocked op kr (ks' @ k # ks))"
        by (rule unwind_blocked [OF e(1)])
      moreover have "stack_co (point_co (kr x)) (ks' @ k # ks) =
          stack_co (co_bind (g x) (\<lambda>v. point_co (f v))) ks" for x
      proof (cases k)
        case (KVoid p)
        with f(2) have "f = (\<lambda>v. p)" by (auto simp: fun_eq_iff)
        with KVoid show ?thesis using e(2) by (simp add: stack_co_append)
      next
        case (KVal h)
        with f(2) have "f = h" by (auto simp: fun_eq_iff)
        with KVal show ?thesis using e(2) by (simp add: stack_co_append)
      qed
      ultimately show ?thesis unfolding Body point_co.simps f(1) stack_co_bind
        by (auto simp: co_head_bind_Submit [OF waits])
    next
      case (undefined es x)
      then show ?thesis unfolding Body point_co.simps f(1) stack_co_bind
        by (simp add: co_head_bind_Undefined)
    qed
  qed simp_all
qed

lemma co_run_head:
  "co_head c = (es, Return a) \<Longrightarrow> co_run c xs = (es, [], CoReturned a xs)"
  "co_head c = (es, Submit op g) \<Longrightarrow> co_run c xs =
     (es @ fst (co_run (Submit op g) xs), snd (co_run (Submit op g) xs))"
  "co_head c = (es, Undefined x) \<Longrightarrow> co_run c xs = (es, [], CoUndefined x)"
  by (induction c arbitrary: es) (auto split: prod.splits)

text \<open>Runs that end in a value exactly when the completions are used up, or wait.\<close>

fun served :: "('r, 'a) co_stop \<Rightarrow> bool" where
  "served (CoReturned a rest) \<longleftrightarrow> rest = []"
| "served CoWaiting \<longleftrightarrow> True"
| "served (CoUndefined x) \<longleftrightarrow> False"

fun settled :: "('r, 'a) co_stop \<Rightarrow> ('p, 'op, 'r, 'a) stop \<Rightarrow> bool" where
  "settled (CoReturned a rest) (Returned v) \<longleftrightarrow> v = Some a"
| "settled CoWaiting (Blocked op kr ks) \<longleftrightarrow> True"
| "settled _ _ \<longleftrightarrow> False"

lemma co_run_converse:
  "(\<And>x. stack_co (point_co (kr x)) ks = g x) \<Longrightarrow> co_run (Submit op g) xs = (es, op # ops, r) \<Longrightarrow>
     served r \<Longrightarrow> \<exists>r'. conversation body_prog s (Blocked op kr ks) xs (s @ es) r' ops \<and> settled r r'"
proof (induction xs arbitrary: kr ks g op es ops s)
  case Nil
  then show ?case using converse_stop by fastforce
next
  case (Cons x xs)
  from Cons.prems(2) have run: "co_run (g x) xs = (es, ops, r)" by (simp split: prod.splits)
  have u: "head_unwind (kr x) ks s (co_head (g x))"
    using unwind_stack [of "kr x" ks s] Cons.prems(1) by simp
  show ?case
  proof (cases rule: co_head_cases [of "g x"])
    case (returns es' a)
    with run have r: "es = es'" "ops = []" "r = CoReturned a xs" by (auto simp: co_run_head)
    with Cons.prems(3) have "xs = []" by simp
    from u returns have "unwind body_prog (kr x) ks s (s @ es) (Returned (Some a))" by (simp add: r(1))
    then have "conversation body_prog s (Blocked op kr ks) [x] (s @ es) (Returned (Some a)) []"
      using converse_complete [where kr = kr and x = x and ks = ks and ?r1.0 = "Returned (Some a)"
          and xs = "[]" and ops = "[]" and op = op, OF _ converse_stop] by simp
    with r \<open>xs = []\<close> show ?thesis by fastforce
  next
    case (waits es' op' g')
    from u waits obtain kr' ks' where u': "unwind body_prog (kr x) ks s (s @ es') (Blocked op' kr' ks')"
        "\<And>y. stack_co (point_co (kr' y)) ks' = g' y" by auto
    obtain es'' ops'' where run': "co_run (Submit op' g') xs = (es'', op' # ops'', r)"
        and eq: "es = es' @ es''" "ops = op' # ops''"
      using run co_run_head(2) [OF waits, of xs] by (cases xs) (auto split: prod.splits)
    from Cons.IH [OF u'(2) run' Cons.prems(3)] obtain r' where
      "conversation body_prog (s @ es') (Blocked op' kr' ks') xs ((s @ es') @ es'') r' ops''" "settled r r'"
      by blast
    moreover from u'(1) this(1) have "conversation body_prog s (Blocked op kr ks) (x # xs)
        ((s @ es') @ es'') r' (pending (Blocked op' kr' ks') @ ops'')"
      by (rule converse_complete)
    ultimately show ?thesis using eq by auto
  next
    case (undefined es' y)
    with run have "r = CoUndefined y" by (auto simp: co_run_head)
    with Cons.prems(3) show ?thesis by simp
  qed
qed

text \<open>The machine against the tree.\<close>

lemma body_refines_tree:
  assumes "co_run (flatten b) xs = (es, ops, r)" and "served r" and "fresh_above w"
  shows "\<exists>n w1 w2. (\<forall>m \<ge> n. Spawn body_prog m e b w = Ok w1) \<and> serves body_prog w1 xs w2 \<and>
     shared w2 = shared w @ es \<and> ops_of w2 = ops_of w @ ops \<and>
     (r \<noteq> CoWaiting \<longrightarrow> heap w2 (fresh w) = None)"
proof -
  have mode: "mode body_prog e = Immediate" by (simp add: body_prog_def)
  have "\<exists>s1 r1 r' ops'. eval body_prog (Body b) (shared w) s1 r1 \<and>
      conversation body_prog s1 r1 xs (shared w @ es) r' ops' \<and> settled r r' \<and> ops = pending r1 @ ops'"
  proof (cases rule: co_head_cases [of "flatten b"])
    case (returns es' a)
    with assms(1,2) have "xs = []" "es = es'" "ops = []" "r = CoReturned a []" by (auto simp: co_run_head)
    moreover from returns eval_flatten [of b "shared w"]
    have "eval body_prog (Body b) (shared w) (shared w @ es') (Returned (Some a))" by simp
    ultimately show ?thesis using converse_stop by fastforce
  next
    case (waits es' op g)
    with eval_flatten [of b "shared w"] obtain kr ks where
      ev: "eval body_prog (Body b) (shared w) (shared w @ es') (Blocked op kr ks)"
        "\<And>x. stack_co (point_co (kr x)) ks = g x" by auto
    obtain es'' ops'' where run: "co_run (Submit op g) xs = (es'', op # ops'', r)"
        and eq: "es = es' @ es''" "ops = op # ops''"
      using assms(1) co_run_head(2) [OF waits, of xs] by (cases xs) (auto split: prod.splits)
    from co_run_converse [OF ev(2) run assms(2), of "shared w @ es'"] ev(1) eq show ?thesis
      by fastforce
  next
    case (undefined es' x)
    with assms(1,2) show ?thesis by (auto simp: co_run_head)
  qed
  then obtain s1 r1 r' ops' where
    j: "eval body_prog (Body b) (shared w) s1 r1" "conversation body_prog s1 r1 xs (shared w @ es) r' ops'"
      "settled r r'" "ops = pending r1 @ ops'" by blast
  have fin: "heap w2 (fresh w) = None" if "represents w2 e (fresh w) r'" "r \<noteq> CoWaiting"
    for w2 :: "(('a, 'b, 'c, 'd) body, 'b, 'c, 'd, 'a list) machine"
    using that j(3) by (cases r; cases r') (auto simp: represents_def)
  from spawn_refines [OF mode assms(3) j(1)] obtain n w1 where
    n: "\<forall>m \<ge> n. Spawn body_prog m e b w = Ok w1" "ends_in w e [fresh w] s1 r1 w1" by blast
  from ends_in_represents [OF n(2)] serves_refines_converse [OF j(2), of w1 e "fresh w"]
  obtain w2 where "serves body_prog w1 xs w2" "shared w2 = shared w @ es" "represents w2 e (fresh w) r'"
    "ops_of w2 = ops_of w @ ops"
    by (auto simp: j(4))
  with n(1) fin show ?thesis by blast
qed

section \<open>Properties\<close>

text \<open>
  C19. Awaiting a task is binding its value.  A job whose tasks await one another, each in a
  coroutine frame of its own, performs the same effects in the same order, submits the same
  operations and stops at the same place as the tree in which every await of a task is replaced
  by \<open>co_bind\<close>, whatever the completions; once the tree has returned, the frame of the job has
  been destroyed.
\<close>

theorem await_is_bind:
  assumes "co_run (flatten b) xs = (es, ops, r)" and "served r" and "fresh_above w"
  shows "\<exists>n w1 w2. (\<forall>m \<ge> n. Spawn body_prog m e b w = Ok w1) \<and> serves body_prog w1 xs w2 \<and>
     shared w2 = shared w @ es \<and> ops_of w2 = ops_of w @ ops \<and>
     (r \<noteq> CoWaiting \<longrightarrow> heap w2 (fresh w) = None)"
  by (rule body_refines_tree [OF assms])

theorem await_is_bind_witness:
  "\<exists>n w1 w2. (\<forall>m \<ge> n. Spawn body_prog m 0 (BAwait (BSubmit ''rpc'' (\<lambda>x. BDo ''got it'' (BReturn (x + 1))))
       (\<lambda>v. BDo ''end'' (BReturn (v * 2)))) (empty_world []) = Ok w1) \<and>
     serves body_prog w1 [20 :: nat] w2 \<and> shared w2 = [''got it'', ''end''] \<and> ops_of w2 = [''rpc''] \<and> heap w2 0 = None"
proof -
  let ?b = "BAwait (BSubmit ''rpc'' (\<lambda>x. BDo ''got it'' (BReturn (x + 1 :: nat)))) (\<lambda>v. BDo ''end'' (BReturn (v * 2)))"
  have run: "co_run (flatten ?b) [20 :: nat] = ([''got it'', ''end''], [''rpc''], CoReturned 42 [])" by simp
  have "fresh_above (empty_world [])" by (simp add: fresh_above_def empty_world_def)
  from await_is_bind [OF run _ this, of 0] show ?thesis
    by (simp add: empty_world_def ops_of_def)
qed

end
