(* ===== verification/Client.thy ===== *)
theory Client
  imports RoundRobin Status Coroutine CompletionQueue "HOL-Library.Sublist"
begin

text \<open>
  The gRPC client side, \<^verbatim>\<open>async_grpc/async_grpc/client.hpp\<close> and \<^verbatim>\<open>client.cpp\<close>: the choice
  of a channel, the calls and their operations on the completion queue, the retry policy and
  \<open>AutoRetryUnary\<close>.  Stubs, readers and writers are generated code or gRPC's: an operation is
  recorded with the channel of its stub and its message, and its completion is a parameter.
\<close>

section \<open>ChannelProvider\<close>

record 'c channel_provider =
  m_channels :: "'c list"
  m_nextChannel :: "64 word"

definition ChannelProvider_one :: "'c \<Rightarrow> 'c channel_provider" where
  "ChannelProvider_one channel = \<lparr>m_channels = [channel], m_nextChannel = 0\<rparr>"

definition ChannelProvider_many :: "'c list \<Rightarrow> 'c channel_provider outcome" where
  "ChannelProvider_many channels = (if channels = [] then Fault AssertFailed
     else Ok \<lparr>m_channels = channels, m_nextChannel = 0\<rparr>)"

text \<open>
  The move constructor: the list is a \<^verbatim>\<open>const\<close> member, so \<^verbatim>\<open>std::move\<close> of it copies and the
  other provider keeps its channels.
\<close>

definition ChannelProvider_move :: "'c channel_provider \<Rightarrow> 'c channel_provider \<times> 'c channel_provider" where
  "ChannelProvider_move other =
     (\<lparr>m_channels = m_channels other, m_nextChannel = m_nextChannel other\<rparr>, other)"

text \<open>\<open>++m_nextChannel % m_channels.size()\<close>; the reference returned is the index.\<close>

definition SelectNextChannel :: "'c channel_provider \<Rightarrow> (nat \<times> 'c channel_provider) outcome" where
  "SelectNextChannel p = (let n = m_nextChannel p + 1 in
     if m_channels p = [] then Fault DivisionByZero
     else Ok (unat n mod length (m_channels p), p\<lparr>m_nextChannel := n\<rparr>))"

interpretation channels: round_robin SelectNextChannel "\<lambda>p. m_nextChannel p + 1" "\<lambda>p. length (m_channels p)"
  by unfold_locales (simp_all add: SelectNextChannel_def Let_def)

section \<open>Operations and completions\<close>

type_synonym channel = nat
type_synonym call = nat

text \<open>
  What the coroutines of a client await.  A started stream is named by a number; a message may
  be written with options, of which the program uses the buffer hint.
\<close>

datatype 'q client_op =
    UnaryFinish channel 'q
  | StartClientStream channel
  | StartServerStream channel 'q
  | StartBidirectional channel
  | StreamRead call
  | StreamWrite call 'q "bool option"
  | StreamWritesDone call
  | StreamFinish call
  | AlarmOp "int alarm_op"

text \<open>
  A completion: \<open>ok\<close> of the event, and what gRPC wrote before it: the response of a call or
  the message read, the status of a finished call (\<open>None\<close> where it wrote nothing), the call
  that was started.
\<close>

record 's completion =
  ok :: bool
  reply :: "'s option"
  reply_status :: "status option"
  started :: call

text \<open>An out parameter after a completion.\<close>

definition written :: "'a \<Rightarrow> 'a option \<Rightarrow> 'a" where
  "written old new = (case new of None \<Rightarrow> old | Some x \<Rightarrow> x)"

lemma written_simps [simp]: "written old None = old" "written old (Some x) = x"
  by (simp_all add: written_def)

text \<open>What a client does besides awaiting.\<close>

datatype client_effect = NewContext | LogLine string | TryCancel

fun co_effects :: "'e list \<Rightarrow> ('e, 'op, 'r, 'a) co \<Rightarrow> ('e, 'op, 'r, 'a) co" where
  "co_effects [] c = c"
| "co_effects (e # es) c = Do e (co_effects es c)"

type_synonym ('q, 's, 'a) client_co = "(client_effect, 'q client_op, 's completion, 'a) co"

section \<open>Unary calls\<close>

text \<open>The reader of a unary call: the channel of its stub and its request.\<close>

record 'q unary_awaitable =
  m_stub :: channel
  m_request :: 'q
  m_reader :: "(channel \<times> 'q) option"

definition ClientUnaryAwaitable :: "channel \<Rightarrow> 'q \<Rightarrow> 'q unary_awaitable" where
  "ClientUnaryAwaitable stub request = \<lparr>m_stub = stub, m_request = request, m_reader = None\<rparr>"

text \<open>\<open>await_suspend\<close> prepares the call and does not suspend; \<open>await_resume\<close> moves the reader out.\<close>

definition unary_await_suspend :: "'q unary_awaitable \<Rightarrow> bool \<times> 'q unary_awaitable" where
  "unary_await_suspend a = (False, a\<lparr>m_reader := Some (m_stub a, m_request a)\<rparr>)"

definition unary_await_resume :: "'q unary_awaitable \<Rightarrow> (channel \<times> 'q) option \<times> 'q unary_awaitable" where
  "unary_await_resume a = (m_reader a, a\<lparr>m_reader := None\<rparr>)"

definition ClientUnaryCall_Finish :: "(channel \<times> 'q) \<Rightarrow> 'q client_op" where
  "ClientUnaryCall_Finish reader = (case reader of (stub, request) \<Rightarrow> UnaryFinish stub request)"

text \<open>
  \<open>Client::CallUnary\<close>: the stub is made when the function is called.  The out parameters are
  returned with the result.
\<close>

definition CallUnary :: "'c channel_provider \<Rightarrow> 'q \<Rightarrow> 's \<Rightarrow> status
    \<Rightarrow> ('q, 's, (bool \<times> 's \<times> status) \<times> 'c channel_provider) client_co" where
  "CallUnary p request response st = co_bind (co_outcome (SelectNextChannel p)) (\<lambda>(stub, p').
     case unary_await_resume (snd (unary_await_suspend (ClientUnaryAwaitable stub request))) of
       (None, _) \<Rightarrow> Undefined AssertFailed
     | (Some reader, _) \<Rightarrow> Submit (ClientUnaryCall_Finish reader) (\<lambda>c.
         Return ((ok c, written response (reply c), written st (reply_status c)), p')))"

section \<open>Retries\<close>

definition delays_s :: "int list" where
  "delays_s = [1, 2, 3, 5, 8]"

text \<open>\<open>DefaultRetryPolicy::operator()\<close>: its state is \<open>m_retryCount\<close>; times are in seconds.\<close>

definition DefaultRetryPolicy :: "int \<Rightarrow> nat \<Rightarrow> status \<Rightarrow> int alarm option \<times> nat" where
  "DefaultRetryPolicy now m_retryCount st =
     (if m_retryCount < length delays_s \<and> error_code st = UNAVAILABLE
      then (Some (Alarm_new (now + delays_s ! m_retryCount)), Suc m_retryCount)
      else (None, m_retryCount))"

text \<open>
  \<open>Client::AutoRetryUnary\<close>.  The two retry policies of the repository are the default one and the
  default one followed by a log line (\<open>UnaryEcho\<close> of the echo client): \<open>decide\<close> gives the
  effects of that line.  \<open>now n\<close> is the time the policy reads at its \<open>n\<close>-th call.
\<close>

function AutoRetryUnary :: "(status \<Rightarrow> bool \<Rightarrow> client_effect list) \<Rightarrow> (nat \<Rightarrow> int) \<Rightarrow> 'c channel_provider
    \<Rightarrow> nat \<Rightarrow> 'q \<Rightarrow> 's \<Rightarrow> status
    \<Rightarrow> ('q, 's, (bool \<times> 's \<times> status) \<times> 'c channel_provider) client_co" where
  "AutoRetryUnary decide now p n request response st =
     Do NewContext (co_bind (CallUnary p request response st) (\<lambda>((done, response', st'), p').
       if \<not> done then Return ((False, response', st'), p')
       else if status_ok st' then Return ((True, response', st'), p')
       else (case DefaultRetryPolicy (now n) n st' of
           (Some shouldRetry, n') \<Rightarrow> co_effects (decide st' True)
             (Submit (AlarmOp (Alarm_Start shouldRetry)) (\<lambda>c.
               if ok c then AutoRetryUnary decide now p' n' request response' st'
               else Return ((False, response', st'), p')))
         | (None, n') \<Rightarrow> co_effects (decide st' False) (Return ((True, response', st'), p')))))"
  by pat_completeness auto

termination
  by (relation "measure (\<lambda>(decide, now, p, n, request, response, st). 5 - n)")
     (auto simp: DefaultRetryPolicy_def delays_s_def split: if_splits)

declare AutoRetryUnary.simps [simp del]

section \<open>The behaviour of \<open>AutoRetryUnary\<close>\<close>

lemma co_run_effects [simp]:
  "co_run (co_effects es c) xs = (es @ fst (co_run c xs), snd (co_run c xs))"
  by (induction es) (simp_all add: case_prod_beta)

lemma co_bind_effects [simp]: "co_bind (co_effects es c) f = co_effects es (co_bind c f)"
  by (induction es) simp_all

lemma CallUnary_eq:
  assumes "m_channels p \<noteq> []"
  defines "n \<equiv> m_nextChannel p + 1"
  shows "CallUnary p request response st =
    Submit (UnaryFinish (unat n mod length (m_channels p)) request) (\<lambda>c.
      Return ((ok c, written response (reply c), written st (reply_status c)), p\<lparr>m_nextChannel := n\<rparr>))"
  using assms by (simp add: CallUnary_def SelectNextChannel_def ClientUnaryAwaitable_def
      unary_await_suspend_def unary_await_resume_def ClientUnaryCall_Finish_def Let_def)

text \<open>Whether the default policy, called for the \<open>n\<close>-th time, retries a status.\<close>

definition retried :: "nat \<Rightarrow> status \<Rightarrow> bool" where
  "retried n st \<longleftrightarrow> n < length delays_s \<and> error_code st = UNAVAILABLE"

lemma DefaultRetryPolicy_eq:
  "retried n st \<Longrightarrow> DefaultRetryPolicy t n st = (Some (Alarm_new (t + delays_s ! n)), Suc n)"
  "\<not> retried n st \<Longrightarrow> DefaultRetryPolicy t n st = (None, n)"
  by (auto simp: retried_def DefaultRetryPolicy_def)

text \<open>Operations and end of a run, one attempt at a time.\<close>

definition next_channel :: "'c channel_provider \<Rightarrow> 'c channel_provider" where
  "next_channel p = p\<lparr>m_nextChannel := m_nextChannel p + 1\<rparr>"

definition attempt :: "'c channel_provider \<Rightarrow> 'q \<Rightarrow> 'q client_op" where
  "attempt p q = UnaryFinish (unat (m_nextChannel p + 1) mod length (m_channels p)) q"

lemma AutoRetryUnary_run:
  assumes "m_channels p \<noteq> []"
  shows "snd (co_run (AutoRetryUnary decide now p n q response st) xs) = (case xs of
      [] \<Rightarrow> ([attempt p q], CoWaiting)
    | x # xs' \<Rightarrow> (let p' = next_channel p; response' = written response (reply x); st' = written st (reply_status x) in
        if ok x \<and> \<not> status_ok st' \<and> retried n st' then
          (case xs' of [] \<Rightarrow> ([attempt p q, AlarmOp (AlarmSet (now n + delays_s ! n))], CoWaiting)
           | y # ys \<Rightarrow> apfst (\<lambda>ops. attempt p q # AlarmOp (AlarmSet (now n + delays_s ! n)) # ops)
               (if ok y then snd (co_run (AutoRetryUnary decide now p' (Suc n) q response' st') ys)
                else ([], CoReturned ((False, response', st'), p') ys)))
        else ([attempt p q], CoReturned ((ok x, response', st'), p') xs')))"
proof (cases xs)
  case (Cons x xs')
  then show ?thesis using assms
    by (cases "retried n (written st (reply_status x))"; subst AutoRetryUnary.simps)
       (auto simp: CallUnary_eq next_channel_def attempt_def DefaultRetryPolicy_eq Alarm_Start_def
         Alarm_new_def Let_def case_prod_beta prod_eq_iff split: list.split)
qed (subst AutoRetryUnary.simps, simp add: CallUnary_eq assms attempt_def)

text \<open>All the operations a call may submit: an attempt, and after each delay another one.\<close>

fun retry_schedule :: "(nat \<Rightarrow> int) \<Rightarrow> 'c channel_provider \<Rightarrow> 'q \<Rightarrow> nat \<Rightarrow> int list \<Rightarrow> 'q client_op list" where
  "retry_schedule now p q n [] = [attempt p q]"
| "retry_schedule now p q n (d # ds) =
     attempt p q # AlarmOp (AlarmSet (now n + d)) # retry_schedule now (next_channel p) q (Suc n) ds"

lemma retry_schedule_retried: "retried n st \<Longrightarrow> retry_schedule now p q n (drop n delays_s) =
    attempt p q # AlarmOp (AlarmSet (now n + delays_s ! n)) #
      retry_schedule now (next_channel p) q (Suc n) (drop (Suc n) delays_s)"
  by (simp add: retried_def flip: Cons_nth_drop_Suc)

lemma retry_schedule_attempt: "prefix [attempt p q] (retry_schedule now p q n ds)"
  by (cases ds) simp_all

lemma length_retry_schedule: "length (retry_schedule now p q n ds) = 2 * length ds + 1"
  by (induction now p q n ds rule: retry_schedule.induct) simp_all

lemma channels_next_channel [simp]: "m_channels (next_channel p) = m_channels p"
  by (simp add: next_channel_def)

text \<open>Where a run stops after the operations \<open>ops\<close>, with the completions it was given.\<close>

fun stops_after :: "'q client_op list \<Rightarrow> 's completion list \<Rightarrow> ('s completion, 'a) co_stop \<Rightarrow> bool" where
  "stops_after ops xs CoWaiting \<longleftrightarrow> length ops = Suc (length xs)"
| "stops_after ops xs (CoReturned a rest) \<longleftrightarrow> length xs = length ops + length rest"
| "stops_after ops xs (CoUndefined f) \<longleftrightarrow> False"

lemma stops_after_Cons [simp]: "stops_after (o1 # o2 # ops) (x # y # xs) r \<longleftrightarrow> stops_after ops xs r"
  by (cases r) auto

lemma AutoRetryUnary_schedule:
  "m_channels p \<noteq> [] \<Longrightarrow> snd (co_run (AutoRetryUnary decide now p n q response st) xs) = (ops, r) \<Longrightarrow>
     prefix ops (retry_schedule now p q n (drop n delays_s)) \<and> stops_after ops xs r"
proof (induction xs arbitrary: p n response st ops r rule: induct_list012)
  case 1
  then show ?case by (auto simp: AutoRetryUnary_run retry_schedule_attempt)
next
  case (2 x)
  then show ?case
    by (auto simp: AutoRetryUnary_run retry_schedule_attempt retry_schedule_retried Let_def split: if_splits)
next
  case (3 x y xs)
  let ?st = "written st (reply_status x)" and ?response = "written response (reply x)"
  show ?case
  proof (cases "ok x \<and> \<not> status_ok ?st \<and> retried n ?st")
    case retry: True
    show ?thesis
    proof (cases "ok y")
      case True
      obtain ops' r' where run: "snd (co_run (AutoRetryUnary decide now (next_channel p) (Suc n) q ?response ?st) xs) = (ops', r')"
        by fastforce
      from "3.prems" retry True run have "ops = attempt p q # AlarmOp (AlarmSet (now n + delays_s ! n)) # ops'" "r = r'"
        by (auto simp: AutoRetryUnary_run Let_def)
      moreover from "3.IH"(1) [OF _ run] "3.prems"(1)
      have "prefix ops' (retry_schedule now (next_channel p) q (Suc n) (drop (Suc n) delays_s)) \<and> stops_after ops' xs r'"
        by simp
      moreover from retry have "retried n ?st" by blast
      ultimately show ?thesis by (simp add: retry_schedule_retried [of n ?st])
    next
      case False
      with "3.prems" retry show ?thesis
        by (auto simp: AutoRetryUnary_run retry_schedule_retried Let_def)
    qed
  next
    case False
    with "3.prems" show ?thesis by (auto simp: AutoRetryUnary_run retry_schedule_attempt Let_def)
  qed
qed

text \<open>Why a call returned: \<open>m\<close> operations after the policy had been called \<open>n\<close> times.\<close>

definition retry_verdict :: "nat \<Rightarrow> nat \<Rightarrow> 's completion list \<Rightarrow> bool \<Rightarrow> status \<Rightarrow> bool" where
  "retry_verdict n m xs done st \<longleftrightarrow> xs \<noteq> [] \<and> (\<forall>x \<in> set (butlast xs). ok x) \<and> (done \<longleftrightarrow> ok (last xs)) \<and>
     (done \<longrightarrow> status_ok st \<or> error_code st \<noteq> UNAVAILABLE \<or> m + 2 * n = 11)"

lemma AutoRetryUnary_verdict:
  "m_channels p \<noteq> [] \<Longrightarrow> n \<le> 5 \<Longrightarrow>
   snd (co_run (AutoRetryUnary decide now p n q response st) xs) = (ops, CoReturned ((b, response', st'), p') []) \<Longrightarrow>
     retry_verdict n (length ops) xs b st'"
proof (induction xs arbitrary: p n response st ops rule: induct_list012)
  case 1
  then show ?case by (simp add: AutoRetryUnary_run)
next
  case (2 x)
  then show ?case
    by (auto simp: AutoRetryUnary_run retry_verdict_def retried_def delays_s_def Let_def split: if_splits)
next
  case (3 x y xs)
  let ?st = "written st (reply_status x)" and ?response = "written response (reply x)"
  show ?case
  proof (cases "ok x \<and> \<not> status_ok ?st \<and> retried n ?st")
    case retry: True
    show ?thesis
    proof (cases "ok y")
      case True
      obtain ops' r' where run: "snd (co_run (AutoRetryUnary decide now (next_channel p) (Suc n) q ?response ?st) xs) = (ops', r')"
        by fastforce
      from "3.prems" retry True run have ops: "ops = attempt p q # AlarmOp (AlarmSet (now n + delays_s ! n)) # ops'"
          and "r' = CoReturned ((b, response', st'), p') []"
        by (auto simp: AutoRetryUnary_run Let_def)
      moreover from retry have "Suc n \<le> 5" by (simp add: retried_def delays_s_def)
      ultimately have "retry_verdict (Suc n) (length ops') xs b st'"
        using "3.IH"(1) [of "next_channel p" "Suc n" ?response ?st ops'] "3.prems"(1) run by simp
      then show ?thesis using ops retry True by (auto simp: retry_verdict_def)
    next
      case False
      with "3.prems" retry show ?thesis by (auto simp: AutoRetryUnary_run Let_def retry_verdict_def)
    qed
  next
    case False
    with "3.prems" show ?thesis by (auto simp: AutoRetryUnary_run Let_def)
  qed
qed

section \<open>Streams\<close>

text \<open>
  The stream calls of \<open>Client\<close> make a stub and start the call on it; the awaitable gives the
  call, or nothing when the completion was not \<open>ok\<close>.
\<close>

definition start_stream :: "(channel \<Rightarrow> 'q client_op) \<Rightarrow> 'c channel_provider
    \<Rightarrow> ('q, 's, call option \<times> 'c channel_provider) client_co" where
  "start_stream start p = co_bind (co_outcome (SelectNextChannel p)) (\<lambda>(stub, p').
     Submit (start stub) (\<lambda>c. Return (fst (await_resume_value (deliver (ok c)
       (await_suspend_value (started c) awaitable_new))), p')))"

definition CallClientStream :: "'c channel_provider \<Rightarrow> ('q, 's, call option \<times> 'c channel_provider) client_co" where
  "CallClientStream p = start_stream StartClientStream p"

definition CallServerStream :: "'c channel_provider \<Rightarrow> 'q \<Rightarrow> ('q, 's, call option \<times> 'c channel_provider) client_co" where
  "CallServerStream p request = start_stream (\<lambda>stub. StartServerStream stub request) p"

definition CallBidirectionalStream :: "'c channel_provider \<Rightarrow> ('q, 's, call option \<times> 'c channel_provider) client_co" where
  "CallBidirectionalStream p = start_stream StartBidirectional p"

text \<open>The operations of the three kinds of calls, each an awaitable that only gives \<open>ok\<close>.\<close>

definition await_ok :: "'q client_op \<Rightarrow> ('q, 's, bool \<times> 's completion) client_co" where
  "await_ok op = Submit op (\<lambda>c. Return (fst (await_resume_void (deliver (ok c)
     (await_suspend_void (awaitable_new :: unit awaitable)))), c))"

definition ClientClientStreamCall_Write :: "call \<Rightarrow> 'q \<Rightarrow> ('q, 's, bool) client_co" where
  "ClientClientStreamCall_Write call msg =
     co_bind (await_ok (StreamWrite call msg None)) (\<lambda>(done, c). Return done)"

definition ClientClientStreamCall_Write_options :: "call \<Rightarrow> 'q \<Rightarrow> bool \<Rightarrow> ('q, 's, bool) client_co" where
  "ClientClientStreamCall_Write_options call msg options =
     co_bind (await_ok (StreamWrite call msg (Some options))) (\<lambda>(done, c). Return done)"

definition ClientClientStreamCall_WritesDone :: "call \<Rightarrow> ('q, 's, bool) client_co" where
  "ClientClientStreamCall_WritesDone call =
     co_bind (await_ok (StreamWritesDone call)) (\<lambda>(done, c). Return done)"

text \<open>The response of a client stream is written through the reference the call was started with.\<close>

definition ClientClientStreamCall_Finish :: "call \<Rightarrow> 's \<Rightarrow> status \<Rightarrow> ('q, 's, bool \<times> 's \<times> status) client_co" where
  "ClientClientStreamCall_Finish call response st = co_bind (await_ok (StreamFinish call)) (\<lambda>(done, c).
     Return (done, written response (reply c), written st (reply_status c)))"

definition ClientServerStreamCall_Read :: "call \<Rightarrow> 's \<Rightarrow> ('q, 's, bool \<times> 's) client_co" where
  "ClientServerStreamCall_Read call response =
     co_bind (await_ok (StreamRead call)) (\<lambda>(done, c). Return (done, written response (reply c)))"

definition ClientServerStreamCall_Finish :: "call \<Rightarrow> status \<Rightarrow> ('q, 's, bool \<times> status) client_co" where
  "ClientServerStreamCall_Finish call st =
     co_bind (await_ok (StreamFinish call)) (\<lambda>(done, c). Return (done, written st (reply_status c)))"

definition ClientBidirectionalStreamCall_Read :: "call \<Rightarrow> 's \<Rightarrow> ('q, 's, bool \<times> 's) client_co" where
  "ClientBidirectionalStreamCall_Read call response =
     co_bind (await_ok (StreamRead call)) (\<lambda>(done, c). Return (done, written response (reply c)))"

definition ClientBidirectionalStreamCall_Write :: "call \<Rightarrow> 'q \<Rightarrow> ('q, 's, bool) client_co" where
  "ClientBidirectionalStreamCall_Write call msg =
     co_bind (await_ok (StreamWrite call msg None)) (\<lambda>(done, c). Return done)"

definition ClientBidirectionalStreamCall_Write_options :: "call \<Rightarrow> 'q \<Rightarrow> bool \<Rightarrow> ('q, 's, bool) client_co" where
  "ClientBidirectionalStreamCall_Write_options call msg options =
     co_bind (await_ok (StreamWrite call msg (Some options))) (\<lambda>(done, c). Return done)"

definition ClientBidirectionalStreamCall_WritesDone :: "call \<Rightarrow> ('q, 's, bool) client_co" where
  "ClientBidirectionalStreamCall_WritesDone call =
     co_bind (await_ok (StreamWritesDone call)) (\<lambda>(done, c). Return done)"

definition ClientBidirectionalStreamCall_Finish :: "call \<Rightarrow> status \<Rightarrow> ('q, 's, bool \<times> status) client_co" where
  "ClientBidirectionalStreamCall_Finish call st =
     co_bind (await_ok (StreamFinish call)) (\<lambda>(done, c). Return (done, written st (reply_status c)))"

lemmas call_ops = ClientClientStreamCall_Write_def ClientClientStreamCall_Write_options_def
  ClientClientStreamCall_WritesDone_def ClientClientStreamCall_Finish_def ClientServerStreamCall_Read_def
  ClientServerStreamCall_Finish_def ClientBidirectionalStreamCall_Read_def
  ClientBidirectionalStreamCall_Write_def ClientBidirectionalStreamCall_Write_options_def
  ClientBidirectionalStreamCall_WritesDone_def ClientBidirectionalStreamCall_Finish_def

lemma await_ok_eq [simp]: "await_ok op = Submit op (\<lambda>c. Return (ok c, c))"
  by (simp add: await_ok_def await_resume_void_def deliver_def await_suspend_void_def)

lemma start_stream_eq:
  "m_channels p \<noteq> [] \<Longrightarrow> start_stream start p =
     Submit (start (unat (m_nextChannel p + 1) mod length (m_channels p))) (\<lambda>c.
       Return (if ok c then Some (started c) else None, next_channel p))"
  by (simp add: start_stream_def SelectNextChannel_def Let_def await_resume_value_def deliver_def
      await_suspend_value_def awaitable_new_def next_channel_def cong: if_cong)

section \<open>Properties\<close>

text \<open>
  C16. Retrying is bounded and follows the schedule of delays.  Whatever the completions, the
  operations \<open>AutoRetryUnary\<close> submits are an initial part of: an attempt, a wait of 1 second,
  an attempt, 2 seconds, an attempt, 3, 5 and 8 seconds, each attempt on the next channel; it
  never has more than one operation pending, and after at most eleven completions it returned.
\<close>

theorem retries_bounded:
  assumes "m_channels p \<noteq> []" and "co_run (AutoRetryUnary decide now p 0 q response st) xs = (es, ops, r)"
  shows "prefix ops (retry_schedule now p q 0 [1, 2, 3, 5, 8]) \<and> stops_after ops xs r \<and>
     (11 \<le> length xs \<longrightarrow> r \<noteq> CoWaiting)"
proof -
  from AutoRetryUnary_schedule [of p decide now 0 q response st xs ops r] assms
  have *: "prefix ops (retry_schedule now p q 0 [1, 2, 3, 5, 8])" "stops_after ops xs r"
    by (simp_all add: delays_s_def)
  from prefix_length_le [OF *(1)] have "length ops \<le> 11" by (simp add: length_retry_schedule)
  with *(2) have "11 \<le> length xs \<longrightarrow> r \<noteq> CoWaiting" by auto
  with * show ?thesis by blast
qed

theorem retries_bounded_witness:
  "\<exists>es ops r. co_run (AutoRetryUnary (\<lambda>_ _. []) (\<lambda>_. 0) (ChannelProvider_one ()) 0 ''hello'' ''none'' Status_OK)
     [\<lparr>ok = True, reply = None, reply_status = Some (Status UNAVAILABLE ''''), started = 0\<rparr>,
      \<lparr>ok = True, reply = None, reply_status = None, started = 0\<rparr>] = (es, ops, r) \<and>
    ops = [UnaryFinish 0 ''hello'', AlarmOp (AlarmSet 1), UnaryFinish 0 ''hello''] \<and>
    prefix ops (retry_schedule (\<lambda>_. 0) (ChannelProvider_one ()) ''hello'' 0 [1, 2, 3, 5, 8])"
proof -
  let ?xs = "[\<lparr>ok = True, reply = None, reply_status = Some (Status UNAVAILABLE ''''), started = 0\<rparr>,
      \<lparr>ok = True, reply = None, reply_status = None, started = 0\<rparr>] :: string completion list"
  let ?c = "AutoRetryUnary (\<lambda>_ _. []) (\<lambda>_. 0) (ChannelProvider_one ()) 0 ''hello'' ''none'' Status_OK"
  obtain es ops r where run: "co_run ?c ?xs = (es, ops, r)" using prod_cases3 by blast
  have ne: "m_channels (ChannelProvider_one ()) \<noteq> []" by (simp add: ChannelProvider_one_def)
  have "snd (co_run ?c ?xs) = ([UnaryFinish 0 ''hello'', AlarmOp (AlarmSet 1), UnaryFinish 0 ''hello''], CoWaiting)"
    by (simp add: AutoRetryUnary_run ne Let_def retried_def delays_s_def attempt_def ChannelProvider_one_def
        next_channel_def status_ok_def)
  with run have "ops = [UnaryFinish 0 ''hello'', AlarmOp (AlarmSet 1), UnaryFinish 0 ''hello'']" by simp
  moreover from retries_bounded [OF ne run]
  have "prefix ops (retry_schedule (\<lambda>_. 0) (ChannelProvider_one ()) ''hello'' 0 [1, 2, 3, 5, 8])" by blast
  ultimately show ?thesis using run by blast
qed

text \<open>
  C15. Why \<open>AutoRetryUnary\<close> returned: false exactly when the last completion was not \<open>ok\<close> (the
  call or the wait was cancelled), and true with an error status only if that error is not
  \<open>UNAVAILABLE\<close> or all six attempts were made; all completions before the last were \<open>ok\<close>.
\<close>

theorem retry_result:
  assumes "m_channels p \<noteq> []"
    and "co_run (AutoRetryUnary decide now p 0 q response st) xs = (es, ops, CoReturned ((b, response', st'), p') [])"
  shows "xs \<noteq> [] \<and> (\<forall>x \<in> set (butlast xs). ok x) \<and> (b \<longleftrightarrow> ok (last xs)) \<and>
     (b \<longrightarrow> status_ok st' \<or> error_code st' \<noteq> UNAVAILABLE \<or> length ops = 11)"
  using AutoRetryUnary_verdict [of p 0 decide now q response st xs ops b response' st' p'] assms
  by (simp add: retry_verdict_def)

theorem retry_result_witness:
  "co_run (AutoRetryUnary (\<lambda>_ _. []) (\<lambda>_. 0) (ChannelProvider_one ()) 0 ''hello'' ''none'' Status_CANCELLED)
     [\<lparr>ok = True, reply = None, reply_status = Some (Status NOT_FOUND ''''), started = 0\<rparr>] =
     ([NewContext], [UnaryFinish 0 ''hello''],
      CoReturned ((True, ''none'', Status NOT_FOUND ''''), next_channel (ChannelProvider_one ())) []) \<and>
   error_code (Status NOT_FOUND '''') \<noteq> UNAVAILABLE"
proof -
  have ne: "m_channels (ChannelProvider_one ()) \<noteq> []" by (simp add: ChannelProvider_one_def)
  have run: "co_run (AutoRetryUnary (\<lambda>_ _. []) (\<lambda>_. 0) (ChannelProvider_one ()) 0 ''hello'' ''none'' Status_CANCELLED)
     [\<lparr>ok = True, reply = None, reply_status = Some (Status NOT_FOUND ''''), started = 0\<rparr>] =
     ([NewContext], [UnaryFinish 0 ''hello''],
      CoReturned ((True, ''none'', Status NOT_FOUND ''''), next_channel (ChannelProvider_one ())) [])"
    unfolding AutoRetryUnary.simps [of _ _ _ 0] CallUnary_eq [OF ne]
    by (simp add: DefaultRetryPolicy_def ChannelProvider_one_def next_channel_def)
  from retry_result [OF ne run] run show ?thesis by simp
qed

text \<open>
  Calls are spread evenly over the channels: of any number \<open>n\<close> of consecutive calls of
  \<open>SelectNextChannel\<close> on a new provider, below the wrap of its 64 bit counter, each channel gets
  \<open>n\<close> divided by the number of channels, or one more; none of them fails.
\<close>

theorem channels_balanced:
  assumes "ChannelProvider_many channels = Ok p" and "n < 2 ^ 64" and "i < length channels"
  shows "\<exists>js p'. select_many SelectNextChannel n p = Ok (js, p') \<and> length js = n \<and>
     count_list js i \<in> {n div length channels, n div length channels + 1}"
proof -
  from assms(1) have p: "p = \<lparr>m_channels = channels, m_nextChannel = 0\<rparr>"
    by (simp add: ChannelProvider_many_def split: if_splits)
  with channels.balanced [of i p n] assms(2,3) show ?thesis by simp
qed

theorem channels_balanced_witness:
  "\<exists>js p'. select_many SelectNextChannel 5 \<lparr>m_channels = ''abc'', m_nextChannel = 0\<rparr> = Ok (js, p') \<and>
     length js = 5 \<and> count_list js 2 \<in> {5 div 3, 5 div 3 + 1}"
proof -
  have p: "ChannelProvider_many ''abc'' = Ok \<lparr>m_channels = ''abc'', m_nextChannel = 0\<rparr>"
    by (simp add: ChannelProvider_many_def)
  from channels_balanced [OF p, of 5 2] show ?thesis by simp
qed

end
