(* ===== verification/Server.thy ===== *)
theory Server
  imports RoundRobin CompletionQueue Status
begin

text \<open>
  The gRPC server side, \<^verbatim>\<open>async_grpc/async_grpc/server.hpp\<close> and \<^verbatim>\<open>server.cpp\<close>, as a program
  of the coroutine machine: the server with its executors, the loop that listens to a method
  and spawns a handler for each call, and the operations of the call contexts.  An executor is
  its position in \<open>m_executors\<close>.  The four kinds of methods have the same loop; the gRPC server,
  its builder and the registration of a service with gRPC are parameters outside the model.
\<close>

section \<open>The server and its executors\<close>

record server =
  m_executors :: "executor_threads list"
  m_nextExecutor :: "64 word"

record server_options =
  executorCount :: nat
  threadsPerExecutor :: nat

definition default_ServerOptions :: server_options where
  "default_ServerOptions = \<lparr>executorCount = 2, threadsPerExecutor = 2\<rparr>"

text \<open>
  The constructor: \<open>AddCompletionQueue\<close> gives a new queue for each executor, here numbered.
\<close>

definition Server_executors :: "server_options \<Rightarrow> executor_threads list" where
  "Server_executors options = map (\<lambda>i. ExecutorThreads_new \<lparr>m_cq = Some i\<rparr> (threadsPerExecutor options))
     [0..<executorCount options]"

definition Server_init :: "server_options \<Rightarrow> server" where
  "Server_init options = \<lparr>m_executors = Server_executors options, m_nextExecutor = 0\<rparr>"

text \<open>\<open>m_nextExecutor++ % m_executors.size()\<close>\<close>

definition SelectNextExecutor :: "'a server_scheme \<Rightarrow> (exec \<times> 'a server_scheme) outcome" where
  "SelectNextExecutor srv = (if m_executors srv = [] then Fault DivisionByZero
     else Ok (unat (m_nextExecutor srv) mod length (m_executors srv),
              srv\<lparr>m_nextExecutor := m_nextExecutor srv + 1\<rparr>))"

interpretation executors: round_robin "SelectNextExecutor :: 'a server_scheme \<Rightarrow> _" m_nextExecutor
    "\<lambda>srv. length (m_executors srv)"
  by unfold_locales (simp_all add: SelectNextExecutor_def)

text \<open>
  \<open>~Server\<close> shuts the gRPC server down, then its members are destroyed: the executors, each of
  which shuts its queue down and joins its threads.  \<open>busy\<close> are the queues with operations that
  are never delivered: the first executor with such a queue is waited for without end.
\<close>

fun destroy_executors :: "executor_threads list \<Rightarrow> (cq \<Rightarrow> bool) \<Rightarrow> cq set \<Rightarrow> cq set option" where
  "destroy_executors [] busy shut = Some shut"
| "destroy_executors (et # ets) busy shut = (case ExecutorThreads_destroy et busy shut of
      None \<Rightarrow> None | Some shut' \<Rightarrow> destroy_executors ets busy shut')"

definition Server_destroy :: "'a server_scheme \<Rightarrow> (cq \<Rightarrow> bool) \<Rightarrow> cq set \<Rightarrow> cq set option" where
  "Server_destroy srv busy shut = destroy_executors (m_executors srv) busy shut"

section \<open>Call contexts\<close>

text \<open>
  What the coroutines of a server await: a new call of a method on the queue of an executor, or
  an operation of the context of a call.  The contexts of the four kinds of calls offer
  \<open>Read\<close>, \<open>Write\<close>, \<open>WriteAndFinish\<close>, \<open>Finish\<close> and \<open>FinishWithError\<close>.
\<close>

datatype 'a context_op =
    Read
  | Write 'a "bool option"
  | WriteAndFinish 'a bool status
  | Finish "'a option" status
  | FinishWithError status
  | Wait "int alarm_op"

datatype ('m, 'a) server_op = ListenOp 'm exec | ContextOp "'a context_op"

definition ServerUnaryContext_Finish :: "'a \<Rightarrow> status \<Rightarrow> 'a context_op" where
  "ServerUnaryContext_Finish response st = Finish (Some response) st"

definition ServerUnaryContext_FinishWithError :: "status \<Rightarrow> 'a context_op" where
  "ServerUnaryContext_FinishWithError st = FinishWithError st"

definition ServerClientStreamContext_Read :: "'a context_op" where
  "ServerClientStreamContext_Read = Read"

definition ServerClientStreamContext_FinishWithError :: "status \<Rightarrow> 'a context_op" where
  "ServerClientStreamContext_FinishWithError st = FinishWithError st"

definition ServerClientStreamContext_Finish :: "'a \<Rightarrow> status \<Rightarrow> 'a context_op" where
  "ServerClientStreamContext_Finish response st = Finish (Some response) st"

definition ServerServerStreamContext_Write :: "'a \<Rightarrow> bool option \<Rightarrow> 'a context_op" where
  "ServerServerStreamContext_Write response options = Write response options"

definition ServerServerStreamContext_WriteAndFinish :: "'a \<Rightarrow> bool \<Rightarrow> status \<Rightarrow> 'a context_op" where
  "ServerServerStreamContext_WriteAndFinish response options st = WriteAndFinish response options st"

definition ServerServerStreamContext_Finish :: "status \<Rightarrow> 'a context_op" where
  "ServerServerStreamContext_Finish st = Finish None st"

definition ServerBidirectionalStreamContext_Read :: "'a context_op" where
  "ServerBidirectionalStreamContext_Read = Read"

definition ServerBidirectionalStreamContext_Write :: "'a \<Rightarrow> bool option \<Rightarrow> 'a context_op" where
  "ServerBidirectionalStreamContext_Write response options = Write response options"

definition ServerBidirectionalStreamContext_WriteAndFinish :: "'a \<Rightarrow> bool \<Rightarrow> status \<Rightarrow> 'a context_op" where
  "ServerBidirectionalStreamContext_WriteAndFinish response options st = WriteAndFinish response options st"

definition ServerBidirectionalStreamContext_Finish :: "status \<Rightarrow> 'a context_op" where
  "ServerBidirectionalStreamContext_Finish st = Finish None st"

lemmas context_ops = ServerUnaryContext_Finish_def ServerUnaryContext_FinishWithError_def
  ServerClientStreamContext_Read_def ServerClientStreamContext_FinishWithError_def
  ServerClientStreamContext_Finish_def ServerServerStreamContext_Write_def
  ServerServerStreamContext_WriteAndFinish_def ServerServerStreamContext_Finish_def
  ServerBidirectionalStreamContext_Read_def ServerBidirectionalStreamContext_Write_def
  ServerBidirectionalStreamContext_WriteAndFinish_def ServerBidirectionalStreamContext_Finish_def

text \<open>The completion of one of them: \<open>ok\<close>, and the request or message gRPC wrote before.\<close>

record 'q server_completion =
  srv_ok :: bool
  srv_message :: 'q

section \<open>Listening\<close>

text \<open>
  The points of \<open>ListenUnary\<close>, \<open>ListenClientStream\<close>, \<open>ListenServerStream\<close> and
  \<open>ListenBidirectionalStream\<close>, beside those of the handlers: \<open>handler\<close> gives the first point of
  the handler of a method, for a request, and \<open>impl\<close> what a handler does at a point.
\<close>

datatype ('m, 'q, 'h) server_point =
    ListenLoop 'm
  | ListenOn 'm exec
  | Accepted 'm exec 'q
  | ListenEnd
  | NoExecutor
  | Handler 'h

type_synonym ('m, 'q, 'h, 'a, 's) server_action =
  "(('m, 'q, 'h) server_point, ('m, 'a) server_op, 'q server_completion, unit, 's server_scheme) action"

fun server_code :: "('m \<Rightarrow> 'q \<Rightarrow> 'h) \<Rightarrow> ('h \<Rightarrow> ('h, 'a context_op, 'q server_completion, unit, 's server_scheme) action)
    \<Rightarrow> ('m, 'q, 'h) server_point \<Rightarrow> ('m, 'q, 'h, 'a, 's) server_action" where
  "server_code handler impl (ListenLoop m) = CoStep (\<lambda>srv. case SelectNextExecutor srv of
       Ok (e, srv') \<Rightarrow> (srv', ListenOn m e) | _ \<Rightarrow> (srv, NoExecutor))"
| "server_code handler impl (ListenOn m e) = CoSuspend (ListenOp m e)
     (\<lambda>c. if srv_ok c then Accepted m e (srv_message c) else ListenEnd)"
| "server_code handler impl (Accepted m e q) = CoSpawn e (Handler (handler m q)) (ListenLoop m)"
| "server_code handler impl ListenEnd = CoReturnVoid"
| "server_code handler impl NoExecutor = CoFault DivisionByZero"
| "server_code handler impl (Handler h) = map_action Handler ContextOp (impl h)"

text \<open>All executors of the server are completion queue executors, which run a job at once.\<close>

definition server_prog :: "('m \<Rightarrow> 'q \<Rightarrow> 'h) \<Rightarrow> ('h \<Rightarrow> ('h, 'a context_op, 'q server_completion, unit, 's server_scheme) action)
    \<Rightarrow> (('m, 'q, 'h) server_point, ('m, 'a) server_op, 'q server_completion, unit, 's server_scheme) prog" where
  "server_prog handler impl = \<lparr>code = server_code handler impl, mode = (\<lambda>_. Immediate)\<rparr>"

type_synonym ('m, 'q, 'h, 'a, 's) server_world =
  "(('m, 'q, 'h) server_point, ('m, 'a) server_op, 'q server_completion, unit, 's server_scheme) machine"

text \<open>
  The queue on which the operation is that a frame waits for: a request for a call was made on the
  queue of the executor it is for, any other operation is on the queue of the frame's executor.
  \<open>queue_pending\<close>: the queue has an operation that was not delivered.
\<close>

definition awaits_on :: "('m, 'q, 'h, 'a, 's) server_world \<Rightarrow> hdl \<Rightarrow> cq option" where
  "awaits_on w h = (case heap w h of
      None \<Rightarrow> None
    | Some f \<Rightarrow> (case status f of
          AwOp None k \<Rightarrow> (case map_of (rev (submitted (events w))) h of
              None \<Rightarrow> None
            | Some (ListenOp m e) \<Rightarrow> Some e
            | Some (ContextOp op) \<Rightarrow> executor f)
        | _ \<Rightarrow> None))"

definition queue_pending :: "('m, 'q, 'h, 'a, 's) server_world \<Rightarrow> cq \<Rightarrow> bool" where
  "queue_pending w q \<longleftrightarrow> list_ex (\<lambda>h. awaits_on w h = Some q) [0..<fresh w]"

lemma awaits_on_same:
  "heap w' h = heap w h \<Longrightarrow> submitted (events w') = submitted (events w) \<Longrightarrow> awaits_on w' h = awaits_on w h"
  by (simp only: awaits_on_def)

lemma awaits_on_gone: "heap w h = None \<Longrightarrow> awaits_on w h = None"
  by (simp add: awaits_on_def)

lemma awaits_on_cong:
  "heap w' h = heap w h \<Longrightarrow> submitted (events w') = submitted (events w) @ es \<Longrightarrow> h \<notin> fst ` set es \<Longrightarrow>
     awaits_on w' h = awaits_on w h"
proof -
  assume "heap w' h = heap w h" and ev: "submitted (events w') = submitted (events w) @ es" and "h \<notin> fst ` set es"
  then have "map_of (rev es) h = None" by (simp add: map_of_eq_None_iff)
  then have "map_of (rev (submitted (events w'))) h = map_of (rev (submitted (events w))) h"
    by (simp add: ev map_add_def)
  with \<open>heap w' h = heap w h\<close> show ?thesis by (simp only: awaits_on_def)
qed

text \<open>
  \<open>StartListeningUnary\<close> and its three siblings; and the loop of the constructor over the
  methods of the registered services.
\<close>

definition StartListening :: "('m \<Rightarrow> 'q \<Rightarrow> 'h) \<Rightarrow> ('h \<Rightarrow> ('h, 'a context_op, 'q server_completion, unit, 's server_scheme) action)
    \<Rightarrow> nat \<Rightarrow> 'm \<Rightarrow> ('m, 'q, 'h, 'a, 's) server_world \<Rightarrow> ('m, 'q, 'h, 'a, 's) server_world outcome" where
  "StartListening handler impl n m w = obind (SelectNextExecutor (shared w)) (\<lambda>(e, srv).
     Spawn (server_prog handler impl) n e (ListenLoop m) (w\<lparr>shared := srv\<rparr>))"

fun Server_start :: "('m \<Rightarrow> 'q \<Rightarrow> 'h) \<Rightarrow> ('h \<Rightarrow> ('h, 'a context_op, 'q server_completion, unit, 's server_scheme) action)
    \<Rightarrow> nat \<Rightarrow> 'm list \<Rightarrow> ('m, 'q, 'h, 'a, 's) server_world \<Rightarrow> ('m, 'q, 'h, 'a, 's) server_world outcome" where
  "Server_start handler impl n [] w = Ok w"
| "Server_start handler impl n (m # ms) w =
     obind (StartListening handler impl n m w) (Server_start handler impl n ms)"

section \<open>What the listening loop does\<close>

text \<open>
  \<open>listening w h m e\<close>: the frame \<open>h\<close> runs the loop of method \<open>m\<close> and has asked for the next
  call on the queue of executor \<open>e\<close>.
\<close>

definition listen_kont :: "'m \<Rightarrow> exec \<Rightarrow> 'q server_completion \<Rightarrow> (('m, 'q, 'h) server_point, unit) point" where
  "listen_kont m e = (\<lambda>c. Body (if srv_ok c then Accepted m e (srv_message c) else ListenEnd))"

definition listen_frame :: "exec \<Rightarrow> (('m, 'q, 'h) server_point, unit) point \<Rightarrow> ((('m, 'q, 'h) server_point, unit) point, 'q server_completion, unit) suspension
    \<Rightarrow> ((('m, 'q, 'h) server_point, unit) point, 'q server_completion, unit) frame" where
  "listen_frame e0 pt st = \<lparr>status = st, result = None, destroyOnDone = True, executor = Some e0, parent = None\<rparr>"

definition listening :: "('m, 'q, 'h, 'a, 's) server_world \<Rightarrow> hdl \<Rightarrow> 'm \<Rightarrow> exec \<Rightarrow> bool" where
  "listening w h m e \<longleftrightarrow> (\<exists>e0. heap w h = Some \<lparr>status = AwOp None (listen_kont m e), result = None,
     destroyOnDone = True, executor = Some e0, parent = None\<rparr>)"

lemma fetch_server [simp]:
  "fetch (server_prog handler impl) (Body (ListenLoop m)) = CoStep (\<lambda>srv. case SelectNextExecutor srv of
       Ok (e, srv') \<Rightarrow> (srv', Body (ListenOn m e)) | _ \<Rightarrow> (srv, Body NoExecutor))"
  "fetch (server_prog handler impl) (Body (ListenOn m e)) = CoSuspend (ListenOp m e) (listen_kont m e)"
  "fetch (server_prog handler impl) (Body (Accepted m e q)) =
     CoSpawn e (Body (Handler (handler m q))) (Body (ListenLoop m))"
  "fetch (server_prog handler impl) (Body ListenEnd) = CoReturnVoid"
  by (auto simp: server_prog_def listen_kont_def fun_eq_iff split: outcome.split prod.split)

lemma mode_server [simp]: "mode (server_prog handler impl) e = Immediate"
  by (simp add: server_prog_def)

declare fetch.simps(1) [simp del]

lemma fetch_handler [simp]:
  "fetch (server_prog handler impl) (Body (Handler h)) = map_action (\<lambda>p. Body (Handler p)) ContextOp (impl h)"
  by (simp add: fetch.simps(1) server_prog_def action.map_comp comp_def id_def)

text \<open>One step of a handler on the abstract call stack.\<close>

lemma eval_handler:
  "eval (server_prog handler impl) (Body (Handler h)) s s' r \<longleftrightarrow> (case impl h of
      CoStep f \<Rightarrow> eval (server_prog handler impl) (Body (Handler (snd (f s)))) (fst (f s)) s' r
    | CoSuspend op k \<Rightarrow> s' = s \<and> r = Blocked (ContextOp op) (\<lambda>c. Body (Handler (k c))) []
    | CoReturnVoid \<Rightarrow> s' = s \<and> r = Returned None
    | _ \<Rightarrow> eval (server_prog handler impl) (Body (Handler h)) s s' r)"
  by (cases "impl h") (simp_all add: eval_inversion comp_def)

text \<open>From the top of the loop to the next suspension.\<close>

lemma run_listen_loop:
  assumes "SelectNextExecutor (shared w) = Ok (e, srv)"
  shows "exec_call (server_prog handler impl) (Suc (Suc n)) (CRun h (Body (ListenLoop m))) w =
    Ok ((set_status h (AwOp None (listen_kont m e)) w)\<lparr>shared := srv,
      events := events w @ [Submitted h (ListenOp m e)]\<rparr>)"
  using assms by (simp add: exec_call_unfold run_body_def set_status_def on_frame_def del: exec_call.simps)

lemma StartListening_eq:
  assumes "SelectNextExecutor (shared w) = Ok (e0, srv0)" and "SelectNextExecutor srv0 = Ok (e, srv)"
    and "8 \<le> n"
  shows "StartListening handler impl n m w = Ok (w\<lparr>heap := (heap w)(fresh w \<mapsto> \<lparr>status = AwOp None (listen_kont m e),
      result = None, destroyOnDone = True, executor = Some e0, parent = None\<rparr>), fresh := Suc (fresh w),
      shared := srv, events := events w @ [Submitted (fresh w) (ListenOp m e)]\<rparr>)"
proof -
  obtain k where "n = 8 + k" using le_Suc_ex [OF assms(3)] by blast
  then have n: "n = Suc (Suc (Suc (Suc (Suc (Suc (Suc (Suc k)))))))" by simp
  show ?thesis
    unfolding StartListening_def assms(1) n Spawn_def
    using assms(2)
    by (simp add: exec_call_unfold(2-) Spawn_body_def spawn_job_body_def Resume_body_def after_resume_def
        resume_handle_body_def allocate_def new_frame_def on_frame_def set_status_def run_listen_loop
        del: exec_call.simps)
qed

text \<open>The executor of the first listen of the \<open>i\<close>-th method that is registered.\<close>

definition first_executor :: "'s server_scheme \<Rightarrow> nat \<Rightarrow> exec" where
  "first_executor srv i = unat (m_nextExecutor srv + of_nat (2 * i + 1)) mod length (m_executors srv)"

lemma Server_start_listens:
  assumes "m_executors (shared w) \<noteq> []" and "8 \<le> n"
  shows "\<exists>w'. Server_start handler impl n ms w = Ok w' \<and> fresh w' = fresh w + length ms \<and>
     shared w' = (shared w)\<lparr>m_nextExecutor := m_nextExecutor (shared w) + of_nat (2 * length ms)\<rparr> \<and>
     submitted (events w') = submitted (events w) @
       map (\<lambda>i. (fresh w + i, ListenOp (ms ! i) (first_executor (shared w) i))) [0..<length ms] \<and>
     (\<forall>i < length ms. listening w' (fresh w + i) (ms ! i) (first_executor (shared w) i)) \<and>
     (\<forall>h < fresh w. heap w' h = heap w h) \<and> (fresh_above w \<longrightarrow> fresh_above w')"
  using assms(1)
proof (induction ms arbitrary: w)
  case (Cons m ms)
  let ?N = "length (m_executors (shared w))" and ?c = "m_nextExecutor (shared w)"
  let ?e = "unat (?c + 1) mod ?N"
  define srv where "srv = (shared w)\<lparr>m_nextExecutor := ?c + 2\<rparr>"
  have sel: "SelectNextExecutor (shared w) = Ok (unat ?c mod ?N, (shared w)\<lparr>m_nextExecutor := ?c + 1\<rparr>)"
    "SelectNextExecutor ((shared w)\<lparr>m_nextExecutor := ?c + 1\<rparr>) = Ok (?e, srv)"
    using Cons.prems by (simp_all add: SelectNextExecutor_def srv_def)
  define w1 where "w1 = w\<lparr>heap := (heap w)(fresh w \<mapsto> \<lparr>status = AwOp None (listen_kont m ?e),
      result = None, destroyOnDone = True, executor = Some (unat ?c mod ?N), parent = None\<rparr>), fresh := Suc (fresh w),
      shared := srv, events := events w @ [Submitted (fresh w) (ListenOp m ?e)]\<rparr>"
  have start: "StartListening handler impl n m w = Ok w1"
    unfolding w1_def by (rule StartListening_eq [OF sel assms(2)])
  have "m_executors (shared w1) \<noteq> []" using Cons.prems by (simp add: w1_def srv_def)
  from Cons.IH [OF this] obtain w' where w': "Server_start handler impl n ms w1 = Ok w'"
      "fresh w' = fresh w1 + length ms"
      "shared w' = (shared w1)\<lparr>m_nextExecutor := m_nextExecutor (shared w1) + of_nat (2 * length ms)\<rparr>"
      "submitted (events w') = submitted (events w1) @
        map (\<lambda>i. (fresh w1 + i, ListenOp (ms ! i) (first_executor (shared w1) i))) [0..<length ms]"
      "\<forall>i < length ms. listening w' (fresh w1 + i) (ms ! i) (first_executor (shared w1) i)"
      "\<forall>h < fresh w1. heap w' h = heap w1 h" "fresh_above w1 \<longrightarrow> fresh_above w'" by blast
  have above: "fresh_above w \<longrightarrow> fresh_above w'" using w'(7) by (simp add: fresh_above_def w1_def)
  have fe: "first_executor srv i = first_executor (shared w) (Suc i)" for i
    by (simp add: first_executor_def srv_def algebra_simps)
  have fe0: "first_executor (shared w) 0 = ?e" by (simp add: first_executor_def)
  have idx: "[0..<length (m # ms)] = 0 # map Suc [0..<length ms]"
    by (simp add: upt_conv_Cons map_Suc_upt del: upt_Suc)
  have "listening w' (fresh w + i) ((m # ms) ! i) (first_executor (shared w) i)" if "i < length (m # ms)" for i
  proof (cases i)
    case 0
    with w'(6) show ?thesis by (simp add: listening_def w1_def fe0)
  next
    case (Suc j)
    with w'(5) that show ?thesis by (simp add: fe w1_def)
  qed
  moreover have "submitted (events w') = submitted (events w) @
      map (\<lambda>i. (fresh w + i, ListenOp ((m # ms) ! i) (first_executor (shared w) i))) [0..<length (m # ms)]"
    unfolding idx using w'(4) by (simp add: w1_def fe fe0 comp_def)
  ultimately show ?case using start w' above by (auto simp: w1_def srv_def algebra_simps)
qed simp

text \<open>
  An accepted call: its handler is spawned on the executor the call was accepted on, then the
  loop listens for the next call on the next executor.
\<close>

lemma listen_accepts:
  assumes "listening w h m e" and "srv_ok c"
    and spawn: "Spawn (server_prog handler impl) n e (Handler (handler m (srv_message c)))
        (set_status h Running (complete h c w)) = Ok w1"
    and "heap w1 h = heap (set_status h Running (complete h c w)) h"
    and "SelectNextExecutor (shared w1) = Ok (e', srv)"
  shows "\<exists>k w2. (\<forall>n \<ge> k. Resume (server_prog handler impl) n h (complete h c w) = Ok w2) \<and> listening w2 h m e' \<and>
     shared w2 = srv \<and> events w2 = events w1 @ [Submitted h (ListenOp m e')] \<and>
     (\<forall>x. x \<noteq> h \<longrightarrow> heap w2 x = heap w1 x) \<and> fresh w2 = fresh w1"
proof -
  let ?P = "server_prog handler impl"
  from assms(1) obtain e0 where f: "heap w h = Some \<lparr>status = AwOp None (listen_kont m e), result = None,
      destroyOnDone = True, executor = Some e0, parent = None\<rparr>" by (auto simp: listening_def)
  let ?f = "\<lambda>st. \<lparr>status = st, result = None, destroyOnDone = True, executor = Some e0, parent = None\<rparr>"
  let ?wc = "complete h c w"
  let ?w0 = "set_status h Running ?wc"
  have hc: "heap ?wc h = Some (?f (AwOp (Some c) (listen_kont m e)))"
    and h0: "heap ?w0 h = Some (?f Running)"
    using f by (simp_all add: complete_def on_frame_def set_status_def)
  define w2 where "w2 = (set_status h (AwOp None (listen_kont m e')) w1)\<lparr>shared := srv,
      events := events w1 @ [Submitted h (ListenOp m e')]\<rparr>"
  have h2: "heap w2 h = Some (?f (AwOp None (listen_kont m e')))"
  proof -
    have "heap w1 h = Some (?f Running)" by (simp only: assms(4) h0)
    then show ?thesis by (simp add: w2_def set_status_def on_frame_def)
  qed
  have run: "Resume ?P (Suc (Suc (Suc (Suc (Suc (n + j)))))) h ?wc = Ok w2" for j
  proof -
    let ?n = "Suc (Suc (n + j))"
    have "Spawn ?P ?n e (Handler (handler m (srv_message c))) ?w0 = Ok w1"
      using spawn exec_call_Ok_mono [where n = n and m = ?n] by (simp add: Spawn_def allocate_def)
    moreover have "exec_call ?P ?n (CRun h (Body (ListenLoop m))) w1 = Ok w2"
      unfolding w2_def by (rule run_listen_loop [OF assms(5)])
    ultimately have "exec_call ?P (Suc ?n) (CRun h (listen_kont m e c)) ?w0 = Ok w2"
      using assms(2) by (simp add: exec_call_unfold(1) run_body_def listen_kont_def Spawn_def allocate_def
          del: exec_call.simps)
    then have "exec_call ?P (Suc (Suc ?n)) (CResumeHandle h) ?wc = Ok w2"
      by (simp add: exec_call_unfold(2) resume_handle_body_def hc del: exec_call.simps)
    then show ?thesis
      by (simp add: exec_call_unfold(3) Resume_body_def after_resume_def h2 del: exec_call.simps)
  qed
  have "Resume ?P i h ?wc = Ok w2" if i: "n + 5 \<le> i" for i
  proof -
    obtain j where "i = n + 5 + j" using le_Suc_ex [OF i] by blast
    then have "i = Suc (Suc (Suc (Suc (Suc (n + j)))))" by simp
    with run show ?thesis by blast
  qed
  then have "\<forall>i \<ge> n + 5. Resume ?P i h ?wc = Ok w2" by blast
  moreover have "listening w2 h m e'" using h2 by (auto simp: listening_def)
  moreover have "shared w2 = srv" "events w2 = events w1 @ [Submitted h (ListenOp m e')]"
      "\<forall>x. x \<noteq> h \<longrightarrow> heap w2 x = heap w1 x" "fresh w2 = fresh w1"
    by (simp_all add: w2_def set_status_def on_frame_def)
  ultimately show ?thesis by blast
qed

text \<open>After shutdown the loop ends and its frame is destroyed.\<close>

lemma listen_stops:
  assumes "listening w h m e" and "\<not> srv_ok c" and "5 \<le> n"
  shows "\<exists>w2. Resume (server_prog handler impl) n h (complete h c w) = Ok w2 \<and>
     heap w2 = (heap w)(h := None) \<and> shared w2 = shared w \<and> submitted (events w2) = submitted (events w) \<and> fresh w2 = fresh w"
proof -
  let ?P = "server_prog handler impl"
  obtain k where "n = 5 + k" using le_Suc_ex [OF assms(3)] by blast
  then have n: "n = Suc (Suc (Suc (Suc (Suc k))))" by simp
  from assms(1) obtain e0 where f: "heap w h = Some \<lparr>status = AwOp None (listen_kont m e), result = None,
      destroyOnDone = True, executor = Some e0, parent = None\<rparr>" by (auto simp: listening_def)
  have "Resume ?P n h (complete h c w) = Ok (destroy h (finish h None (set_status h Running (complete h c w))))"
    using f assms(2) unfolding n
    by (simp add: exec_call_unfold Resume_body_def after_resume_def resume_handle_body_def run_body_def
        listen_kont_def complete_def on_frame_def set_status_def finish_def Let_def del: exec_call.simps)
  then show ?thesis
    by (auto simp: complete_def on_frame_def set_status_def finish_def destroy_def)
qed

text \<open>
  What the threads do after the shutdown of the server: gRPC completes every request for a call
  with \<open>ok\<close> false, here in the order \<open>hs\<close>.
\<close>

fun close_all :: "('pc, 'op, 'r, 'v, 's) prog \<Rightarrow> nat \<Rightarrow> 'r \<Rightarrow> hdl list \<Rightarrow> ('pc, 'op, 'r, 'v, 's) machine
    \<Rightarrow> ('pc, 'op, 'r, 'v, 's) machine outcome" where
  "close_all P n c [] w = Ok w"
| "close_all P n c (h # hs) w = obind (Resume P n h (complete h c w)) (close_all P n c hs)"

lemma close_all_listening:
  assumes "\<not> srv_ok c" "5 \<le> n"
  shows "distinct hs \<Longrightarrow> \<forall>h \<in> set hs. \<exists>m e. listening w h m e \<Longrightarrow>
    \<exists>w2. close_all (server_prog handler impl) n c hs w = Ok w2 \<and> heap w2 = heap w |` (- set hs) \<and>
      shared w2 = shared w \<and> submitted (events w2) = submitted (events w) \<and> fresh w2 = fresh w"
proof (induction hs arbitrary: w)
  case (Cons h hs)
  from Cons.prems(2) obtain m e where "listening w h m e" by auto
  from listen_stops [OF this assms] obtain w1 where
    w1: "Resume (server_prog handler impl) n h (complete h c w) = Ok w1" "heap w1 = (heap w)(h := None)"
      "shared w1 = shared w" "submitted (events w1) = submitted (events w)" "fresh w1 = fresh w" by blast
  have "\<forall>x \<in> set hs. \<exists>m e. listening w1 x m e"
  proof
    fix x assume "x \<in> set hs"
    with Cons.prems have "x \<noteq> h" "\<exists>m e. listening w x m e" by auto
    then show "\<exists>m e. listening w1 x m e" by (simp add: listening_def w1(2))
  qed
  with Cons.IH [of w1] Cons.prems(1) obtain w2 where
    w2: "close_all (server_prog handler impl) n c hs w1 = Ok w2" "heap w2 = heap w1 |` (- set hs)"
      "shared w2 = shared w1" "submitted (events w2) = submitted (events w1)" "fresh w2 = fresh w1" by auto
  moreover have "heap w1 |` (- set hs) = heap w |` (- set (h # hs))"
    using Cons.prems(1) by (auto simp: w1(2) restrict_map_def)
  ultimately show ?case using w1 by (simp del: exec_call.simps)
qed (simp add: restrict_map_def)

lemma destroy_new_executors:
  "destroy_executors (map (\<lambda>i. ExecutorThreads_new \<lparr>m_cq = Some i\<rparr> k) qs) busy shut =
     (if k = 0 \<or> (\<forall>q \<in> set qs. \<not> busy q) then Some (set qs \<union> shut) else None)"
  by (induction qs arbitrary: shut)
     (auto simp: ExecutorThreads_destroy_def ExecutorThreads_new_def ExecutorThreads_Shutdown_def
       Executor_Shutdown_def Executor_destroy_def GetCq_def Let_def)

section \<open>Properties\<close>

text \<open>
  A new server listens to every method.  The constructor, after registering the methods
  \<open>ms\<close> of its services, has submitted exactly one request for a call per method, and the loop of
  each method waits for it; the \<open>i\<close>-th request is for executor \<open>2 * i + 1\<close> of the rotation.
\<close>

theorem server_listens:
  assumes "m_executors (shared w) \<noteq> []" and "8 \<le> n"
  shows "\<exists>w'. Server_start handler impl n ms w = Ok w' \<and>
     submitted (events w') = submitted (events w) @
       map (\<lambda>i. (fresh w + i, ListenOp (ms ! i) (first_executor (shared w) i))) [0..<length ms] \<and>
     (\<forall>i < length ms. listening w' (fresh w + i) (ms ! i) (first_executor (shared w) i))"
  using Server_start_listens [OF assms, of handler impl ms] by blast

theorem server_listens_witness:
  "\<exists>w'. Server_start (\<lambda>m q. q) (\<lambda>h. CoReturnVoid :: (unit, unit context_op, unit server_completion, unit, unit server_scheme) action)
      8 ''ab'' (empty_world (Server_init default_ServerOptions)) = Ok w' \<and>
     listening w' 1 (CHR ''b'') 1"
proof -
  let ?w = "empty_world (Server_init default_ServerOptions) :: (char, unit, unit, unit, unit) server_world"
  have ne: "m_executors (shared ?w) \<noteq> []"
    by (simp add: empty_world_def Server_init_def Server_executors_def default_ServerOptions_def)
  have "fresh ?w = 0" by (simp add: empty_world_def)
  moreover have "first_executor (shared ?w) 1 = 1"
    by (simp add: first_executor_def empty_world_def Server_init_def Server_executors_def default_ServerOptions_def)
  ultimately show ?thesis
    using server_listens [OF ne, of 8 "\<lambda>m q. q" "\<lambda>h. CoReturnVoid" "''ab''"] by fastforce
qed

text \<open>
  With the default options the first request of every method waits on executor 1, none on
  executor 0: starting to listen takes two turns of the rotation, and there are two executors.
\<close>

theorem first_listens_unbalanced:
  "first_executor (Server_init default_ServerOptions) i = 1"
proof -
  have "unat (of_nat (2 * i + 1) :: 64 word) mod 2 = (2 * i + 1) mod 2 ^ 64 mod 2"
    by (simp only: unsigned_of_nat take_bit_eq_mod len_num0 len_bit0 len_num1) simp
  also have "\<dots> = (2 * i + 1) mod 2" by (rule mod_mod_cancel) simp
  also have "\<dots> = 1" by simp
  finally have "unat (0 + of_nat (2 * i + 1) :: 64 word) mod 2 = 1" by simp
  then show ?thesis
    by (simp add: first_executor_def Server_init_def Server_executors_def default_ServerOptions_def
        del: of_nat_add of_nat_mult of_nat_Suc)
qed

text \<open>
  Destroying a server ends exactly when nothing is pending on its queues: the destructor of every
  executor shuts its queue down before it joins the threads that loop on it.
\<close>

theorem server_destroy_joins:
  "Server_destroy (Server_init options) busy shut =
     (if threadsPerExecutor options = 0 \<or> (\<forall>q < executorCount options. \<not> busy q)
      then Some ({..<executorCount options} \<union> shut) else None)"
  unfolding Server_destroy_def Server_init_def Server_executors_def
  by (auto simp: destroy_new_executors lessThan_atLeast0)

end
