(* ===== verification/VariableService.thy ===== *)
theory VariableService
  imports Server
begin

text \<open>
  The variable service, \<^verbatim>\<open>async_grpc/server/variable_service_impl.cpp\<close>: a map from names to
  64 bit integers behind three unary methods.  Its handlers are points of the server program
  of \<open>Server\<close>; the code between taking and releasing \<open>m_mutex\<close> is one step, and the mutex is
  released before a handler awaits.
\<close>

section \<open>Messages\<close>

datatype var_method = WriteMethod | ReadMethod | DelMethod

datatype var_request = WriteRequest string int | ReadRequest string | DelRequest string

datatype var_response = WriteResponse bool | ReadResponse int | DelResponse bool

section \<open>What the service promises\<close>

text \<open>The storage before and after a request, and the reply: a response or an error status.\<close>

type_synonym storage = "string \<Rightarrow> int option"

datatype 'a call_reply = Replied 'a | Failed status

definition not_found :: status where
  "not_found = Status NOT_FOUND ''Request key was not found in storage''"

fun var_call :: "var_request \<Rightarrow> storage \<Rightarrow> var_response call_reply \<times> storage" where
  "var_call (WriteRequest k v) m = (Replied (WriteResponse (m k = None)), m(k \<mapsto> v))"
| "var_call (ReadRequest k) m = (case m k of
      None \<Rightarrow> (Failed not_found, m) | Some v \<Rightarrow> (Replied (ReadResponse v), m))"
| "var_call (DelRequest k) m = (Replied (DelResponse (m k \<noteq> None)), m(k := None))"

section \<open>The handlers\<close>

record var_server = server +
  m_storage :: storage

datatype var_point =
    WriteImpl string int
  | WriteFinish bool
  | ReadImpl string
  | ReadFinish int
  | ReadFinishWithError
  | DelImpl string
  | DelFinish bool
  | VarEnd

text \<open>
  \<open>insert_or_assign(key, value).second\<close> tells whether the key was new, \<open>erase(key)\<close> how many
  entries were removed.  The result of the last \<open>co_await\<close> is not used.
\<close>

fun var_impl :: "var_point \<Rightarrow> (var_point, var_response context_op, var_request server_completion, unit, 'a var_server_scheme) action" where
  "var_impl (WriteImpl key value) = CoStep (\<lambda>s. let was_inserted = (m_storage s key = None)
     in (s\<lparr>m_storage := (m_storage s)(key \<mapsto> value)\<rparr>, WriteFinish was_inserted))"
| "var_impl (WriteFinish was_inserted) =
     CoSuspend (ServerUnaryContext_Finish (WriteResponse was_inserted) Status_OK) (\<lambda>c. VarEnd)"
| "var_impl (ReadImpl key) = CoStep (\<lambda>s. case m_storage s key of
      None \<Rightarrow> (s, ReadFinishWithError) | Some found \<Rightarrow> (s, ReadFinish found))"
| "var_impl (ReadFinish value) = CoSuspend (ServerUnaryContext_Finish (ReadResponse value) Status_OK) (\<lambda>c. VarEnd)"
| "var_impl ReadFinishWithError = CoSuspend (ServerUnaryContext_FinishWithError not_found) (\<lambda>c. VarEnd)"
| "var_impl (DelImpl key) = CoStep (\<lambda>s. let was_deleted = (m_storage s key \<noteq> None)
     in (s\<lparr>m_storage := (m_storage s)(key := None)\<rparr>, DelFinish was_deleted))"
| "var_impl (DelFinish was_deleted) =
     CoSuspend (ServerUnaryContext_Finish (DelResponse was_deleted) Status_OK) (\<lambda>c. VarEnd)"
| "var_impl VarEnd = CoReturnVoid"

text \<open>
  The handler of a request; a method only receives requests of its own type.
\<close>

fun var_handler :: "var_method \<Rightarrow> var_request \<Rightarrow> var_point" where
  "var_handler m (WriteRequest key value) = WriteImpl key value"
| "var_handler m (ReadRequest key) = ReadImpl key"
| "var_handler m (DelRequest key) = DelImpl key"

text \<open>\<open>VariableServiceImpl::StartListening\<close> registers the methods in this order.\<close>

definition var_methods :: "var_method list" where
  "var_methods = [WriteMethod, ReadMethod, DelMethod]"

abbreviation var_prog :: "((var_method, var_request, var_point) server_point, (var_method, var_response) server_op,
    var_request server_completion, unit, 'a var_server_scheme) prog" where
  "var_prog \<equiv> server_prog var_handler var_impl"

type_synonym 'a var_world = "(var_method, var_request, var_point, var_response, 'a var_server_ext) server_world"

definition VariableService_StartListening :: "nat \<Rightarrow> 'a var_world \<Rightarrow> 'a var_world outcome" where
  "VariableService_StartListening n w = Server_start var_handler var_impl n var_methods w"

section \<open>A handler does what the service promises\<close>

text \<open>The operation that sends a reply.\<close>

fun reply_op :: "var_response call_reply \<Rightarrow> var_response context_op" where
  "reply_op (Replied r) = Finish (Some r) Status_OK"
| "reply_op (Failed st) = FinishWithError st"

text \<open>A handler that waits for its reply to be sent.\<close>

definition replying :: "'a var_world \<Rightarrow> hdl \<Rightarrow> exec \<Rightarrow> bool" where
  "replying w h e \<longleftrightarrow> heap w h = Some \<lparr>status = AwOp None (\<lambda>c. Body (Handler VarEnd)), result = None,
     destroyOnDone = True, executor = Some e, parent = None\<rparr>"

lemma Spawn_handler:
  assumes "8 \<le> n"
  shows "Spawn var_prog n e (Handler (var_handler m q)) w = Ok (w\<lparr>
     heap := (heap w)(fresh w \<mapsto> \<lparr>status = AwOp None (\<lambda>c. Body (Handler VarEnd)), result = None,
       destroyOnDone = True, executor = Some e, parent = None\<rparr>),
     fresh := Suc (fresh w), shared := (shared w)\<lparr>m_storage := snd (var_call q (m_storage (shared w)))\<rparr>,
     events := events w @ [Submitted (fresh w) (ContextOp (reply_op (fst (var_call q (m_storage (shared w))))))]\<rparr>)"
proof -
  obtain k where "n = 8 + k" using le_Suc_ex [OF assms(1)] by blast
  then have n: "n = Suc (Suc (Suc (Suc (Suc (Suc (Suc (Suc k)))))))" by simp
  show ?thesis
    unfolding n Spawn_def
    by (cases q)
       (simp_all add: exec_call_unfold Spawn_body_def spawn_job_body_def Resume_body_def after_resume_def
        resume_handle_body_def run_body_def allocate_def new_frame_def on_frame_def set_status_def Let_def
        context_ops comp_def del: exec_call.simps split: option.split)
qed

text \<open>When its reply was sent, or could not be, the handler ends and changes nothing else.\<close>

lemma reply_completes:
  assumes "replying w h e" and "5 \<le> n"
  shows "\<exists>w'. Resume var_prog n h (complete h c w) = Ok w' \<and> heap w' = (heap w)(h := None) \<and>
     shared w' = shared w \<and> submitted (events w') = submitted (events w)"
proof -
  obtain k where "n = 5 + k" using le_Suc_ex [OF assms(2)] by blast
  then have n: "n = Suc (Suc (Suc (Suc (Suc k))))" by simp
  have "Resume var_prog n h (complete h c w) = Ok (destroy h (finish h None (set_status h Running (complete h c w))))"
    using assms(1) unfolding n replying_def
    by (simp add: exec_call_unfold Resume_body_def after_resume_def resume_handle_body_def run_body_def
        complete_def on_frame_def set_status_def finish_def Let_def del: exec_call.simps)
  then show ?thesis
    by (auto simp: complete_def on_frame_def set_status_def finish_def destroy_def)
qed

section \<open>The service as an interface\<close>

text \<open>
  What a client of the service relies on: how a call changes what is stored, and what it is
  answered.  \<open>'s\<close> is the state of whatever provides the service.
\<close>

locale variable_store =
  fixes call :: "var_request \<Rightarrow> 's \<Rightarrow> var_response call_reply \<times> 's"
    and stored :: "'s \<Rightarrow> storage"
  assumes write_stores: "stored (snd (call (WriteRequest k v) s)) = (stored s)(k \<mapsto> v)"
    and write_reply: "\<exists>b. fst (call (WriteRequest k v) s) = Replied (WriteResponse b)"
    and del_removes: "stored (snd (call (DelRequest k) s)) = (stored s)(k := None)"
    and del_reply: "\<exists>b. fst (call (DelRequest k) s) = Replied (DelResponse b)"
    and read_keeps: "stored (snd (call (ReadRequest k) s)) = stored s"
    and read_reply: "fst (call (ReadRequest k) s) = (case stored s k of
        None \<Rightarrow> Failed not_found | Some v \<Rightarrow> Replied (ReadResponse v))"
begin

lemma stored_call: "stored (snd (call q s)) = snd (var_call q (stored s))"
  by (cases q) (simp_all add: write_stores del_removes read_keeps split: option.split)

lemma call_again: "stored (snd (call q (snd (call q s)))) = stored (snd (call q s))"
  by (cases q) (simp_all add: write_stores del_removes read_keeps)

text \<open>A call that is sent again and again has the effect of one call.\<close>

lemma call_repeated: "stored (((\<lambda>s. snd (call q s)) ^^ Suc n) s) = stored (snd (call q s))"
proof (induction n)
  case (Suc n)
  have "stored (((\<lambda>s. snd (call q s)) ^^ Suc (Suc n)) s) =
      snd (var_call q (stored (((\<lambda>s. snd (call q s)) ^^ Suc n) s)))"
    by (simp add: stored_call)
  with Suc call_again [of q s] show ?case by (simp add: stored_call)
qed simp

lemma read_after_write:
  "fst (call (ReadRequest k) (snd (call (WriteRequest k v) s))) = Replied (ReadResponse v)"
  by (simp add: read_reply write_stores)

lemma read_after_del:
  "fst (call (ReadRequest k) (snd (call (DelRequest k) s))) = Failed not_found"
  by (simp add: read_reply del_removes)

end

interpretation variables: variable_store var_call "\<lambda>m. m"
  by unfold_locales (simp_all split: option.split)

section \<open>Serving calls\<close>

text \<open>Calls arrive at listening frames, one after the other.\<close>

fun serve_calls :: "nat \<Rightarrow> (hdl \<times> var_request) list \<Rightarrow> 'a var_world \<Rightarrow> 'a var_world outcome" where
  "serve_calls n [] w = Ok w"
| "serve_calls n ((h, q) # calls) w =
     obind (Resume var_prog n h (complete h \<lparr>srv_ok = True, srv_message = q\<rparr> w)) (serve_calls n calls)"

fun var_calls :: "var_request list \<Rightarrow> storage \<Rightarrow> var_response call_reply list \<times> storage" where
  "var_calls [] m = ([], m)"
| "var_calls (q # qs) m = (case var_call q m of (r, m') \<Rightarrow> apfst ((#) r) (var_calls qs m'))"

fun context_op :: "('m, 'a) server_op \<Rightarrow> 'a context_op list" where
  "context_op (ListenOp m e) = []"
| "context_op (ContextOp op) = [op]"

definition sent :: "('p, ('m, 'a) server_op, 'r, 'v, 's) world \<Rightarrow> 'a context_op list" where
  "sent w = concat (map context_op (ops_of w))"

definition listeners :: "hdl set \<Rightarrow> 'a var_world \<Rightarrow> bool" where
  "listeners L w \<longleftrightarrow> m_executors (shared w) \<noteq> [] \<and> (\<forall>h \<in> L. h < fresh w \<and> (\<exists>m e. listening w h m e))"

lemma serve_call:
  assumes "listeners L w" and "h \<in> L"
  shows "\<exists>k w'. (\<forall>n \<ge> k. Resume var_prog n h (complete h \<lparr>srv_ok = True, srv_message = q\<rparr> w) = Ok w') \<and>
     listeners L w' \<and> m_storage (shared w') = snd (var_call q (m_storage (shared w))) \<and>
     sent w' = sent w @ [reply_op (fst (var_call q (m_storage (shared w))))]"
proof -
  let ?c = "\<lparr>srv_ok = True, srv_message = q\<rparr>"
  let ?w0 = "set_status h Running (complete h ?c w)"
  from assms obtain m e where l: "listening w h m e" and h: "h < fresh w" by (auto simp: listeners_def)
  have same: "fresh ?w0 = fresh w" "shared ?w0 = shared w" "events ?w0 = events w"
      "\<forall>x. x \<noteq> h \<longrightarrow> heap ?w0 x = heap w x"
    by (simp_all add: set_status_def on_frame_def complete_def)
  obtain w1 where sp: "Spawn var_prog 8 e (Handler (var_handler m (srv_message ?c))) ?w0 = Ok w1"
    and w1: "fresh w1 = Suc (fresh w)" "\<forall>x. x \<noteq> fresh w \<longrightarrow> heap w1 x = heap ?w0 x"
      "shared w1 = (shared w)\<lparr>m_storage := snd (var_call q (m_storage (shared w)))\<rparr>"
      "events w1 = events w @ [Submitted (fresh w) (ContextOp (reply_op (fst (var_call q (m_storage (shared w))))))]"
    using Spawn_handler [of 8 e m q ?w0] same(1-3) by fastforce
  have "m_executors (shared w1) \<noteq> []" using assms(1) w1(3) by (simp add: listeners_def)
  then obtain e' srv where sel: "SelectNextExecutor (shared w1) = Ok (e', srv)"
      "m_executors srv = m_executors (shared w1)" "m_storage srv = m_storage (shared w1)"
    by (simp add: SelectNextExecutor_def)
  have "heap w1 h = heap ?w0 h" using w1(2) h by simp
  from listen_accepts [OF l _ sp this sel(1)] obtain k w2 where
    w2: "\<forall>n \<ge> k. Resume var_prog n h (complete h ?c w) = Ok w2" "listening w2 h m e'" "shared w2 = srv"
      "events w2 = events w1 @ [Submitted h (ListenOp m e')]" "\<forall>x. x \<noteq> h \<longrightarrow> heap w2 x = heap w1 x"
      "fresh w2 = fresh w1" by auto
  have "h' < fresh w2 \<and> (\<exists>m e. listening w2 h' m e)" if "h' \<in> L" for h'
  proof (cases "h' = h")
    case True
    then show ?thesis using w2(2,6) w1(1) h by auto
  next
    case False
    from that assms(1) obtain m' e'' where "listening w h' m' e''" "h' < fresh w" by (auto simp: listeners_def)
    moreover have "heap w2 h' = heap w h'" using w2(5) w1(2) same(4) False \<open>h' < fresh w\<close> by simp
    ultimately show ?thesis using w2(6) w1(1) by (auto simp: listening_def)
  qed
  then have "listeners L w2" using sel(2) w2(3) \<open>m_executors (shared w1) \<noteq> []\<close> by (simp add: listeners_def)
  moreover have "sent w2 = sent w @ [reply_op (fst (var_call q (m_storage (shared w))))]"
    by (simp add: sent_def ops_of_def w2(4) w1(4))
  ultimately show ?thesis using w2(1,3) sel(3) w1(3) by auto
qed

lemma StartListening_listeners:
  assumes "m_executors (shared w) \<noteq> []" and "8 \<le> n"
  shows "\<exists>w'. VariableService_StartListening n w = Ok w' \<and>
     shared w' = (shared w)\<lparr>m_nextExecutor := m_nextExecutor (shared w) + 6\<rparr> \<and>
     listeners {fresh w, fresh w + 1, fresh w + 2} w' \<and> sent w' = sent w"
proof -
  have len: "length var_methods = 3" by (simp add: var_methods_def)
  from Server_start_listens [OF assms, of var_handler var_impl var_methods, unfolded len] obtain w' where
    w': "Server_start var_handler var_impl n var_methods w = Ok w'" "fresh w' = fresh w + 3"
      "shared w' = (shared w)\<lparr>m_nextExecutor := m_nextExecutor (shared w) + of_nat (2 * 3)\<rparr>"
      "submitted (events w') = submitted (events w) @
        map (\<lambda>i. (fresh w + i, ListenOp (var_methods ! i) (first_executor (shared w) i))) [0..<3]"
      "\<forall>i < 3. listening w' (fresh w + i) (var_methods ! i) (first_executor (shared w) i)"
    by blast
  have "\<exists>m e. listening w' (fresh w + i) m e" if "i < 3" for i using w'(5) that by blast
  from this [of 0] this [of 1] this [of 2]
  have "listeners {fresh w, fresh w + 1, fresh w + 2} w'"
    using w'(2,3) assms(1) by (simp add: listeners_def)
  moreover have "sent w' = sent w" by (simp add: sent_def ops_of_def w'(4) comp_def)
  ultimately show ?thesis using w'(1,3) by (simp add: VariableService_StartListening_def)
qed

definition var_server_init :: var_server where
  "var_server_init = \<lparr>m_executors = Server_executors default_ServerOptions, m_nextExecutor = 0,
     m_storage = Map.empty\<rparr>"

lemma var_server_init_simps [simp]:
  "m_executors var_server_init \<noteq> []" "m_storage var_server_init = Map.empty"
  by (simp_all add: var_server_init_def Server_executors_def default_ServerOptions_def)

text \<open>
  The variable service is linear: calls that arrive at the listening loops in any order are
  answered one by one as the specification says, in that order, each from the storage the
  earlier ones left, and every loop goes on listening.
\<close>

theorem var_service_linear:
  assumes "listeners L w" and "set (map fst calls) \<subseteq> L"
  shows "\<exists>k w'. (\<forall>n \<ge> k. serve_calls n calls w = Ok w') \<and> listeners L w' \<and>
     m_storage (shared w') = snd (var_calls (map snd calls) (m_storage (shared w))) \<and>
     sent w' = sent w @ map reply_op (fst (var_calls (map snd calls) (m_storage (shared w))))"
  using assms
proof (induction calls arbitrary: w)
  case (Cons call calls)
  obtain h q where call: "call = (h, q)" by fastforce
  with Cons.prems have "h \<in> L" by simp
  from serve_call [OF Cons.prems(1) this, of q] obtain k w1 where
    w1: "\<forall>n \<ge> k. Resume var_prog n h (complete h \<lparr>srv_ok = True, srv_message = q\<rparr> w) = Ok w1" "listeners L w1"
      "m_storage (shared w1) = snd (var_call q (m_storage (shared w)))"
      "sent w1 = sent w @ [reply_op (fst (var_call q (m_storage (shared w))))]" by blast
  from Cons.IH [OF w1(2)] Cons.prems(2) obtain k' w' where
    w': "\<forall>n \<ge> k'. serve_calls n calls w1 = Ok w'" "listeners L w'"
      "m_storage (shared w') = snd (var_calls (map snd calls) (m_storage (shared w1)))"
      "sent w' = sent w1 @ map reply_op (fst (var_calls (map snd calls) (m_storage (shared w1))))" by auto
  have "\<forall>n \<ge> max k k'. serve_calls n (call # calls) w = Ok w'"
    using w1(1) w'(1) by (simp add: call)
  then show ?case using w' w1(3,4)
    by (intro exI [of _ "max k k'"] exI [of _ w']) (simp add: call case_prod_beta)
qed auto

theorem var_service_linear_witness:
  "\<exists>w :: unit var_world. \<exists>k w'. (\<forall>n \<ge> k. serve_calls n [(0, WriteRequest ''level'' 3), (1, ReadRequest ''level'')] w = Ok w') \<and>
     m_storage (shared w') = [''level'' \<mapsto> 3] \<and>
     sent w' = [Finish (Some (WriteResponse True)) Status_OK, Finish (Some (ReadResponse 3)) Status_OK]"
proof -
  let ?w0 = "empty_world var_server_init :: unit var_world"
  let ?calls = "[(0, WriteRequest ''level'' 3), (1, ReadRequest ''level'')]"
  have w0: "shared ?w0 = var_server_init" "fresh ?w0 = 0" "sent ?w0 = []"
    by (simp_all add: empty_world_def sent_def ops_of_def)
  have ne: "m_executors (shared ?w0) \<noteq> []" by (simp add: w0)
  from StartListening_listeners [OF ne, of 8, unfolded w0] obtain w where
    w': "shared w = var_server_init\<lparr>m_nextExecutor := m_nextExecutor var_server_init + 6\<rparr>"
    and w: "listeners {0, 0 + 1, 0 + 2} w" "sent w = []" by blast
  have m: "m_storage (shared w) = Map.empty" by (simp add: w')
  from var_service_linear [OF w(1), of ?calls, unfolded m w(2)] obtain k w' where
    "\<forall>n \<ge> k. serve_calls n ?calls w = Ok w'"
    "m_storage (shared w') = snd (var_calls (map snd ?calls) Map.empty)"
    "sent w' = [] @ map reply_op (fst (var_calls (map snd ?calls) Map.empty))"
    by auto
  then show ?thesis by (intro exI [of _ w] exI [of _ k] exI [of _ w']) simp
qed

text \<open>
  Starting the service registers its three methods and listens to each of them.
\<close>

theorem var_service_starts:
  assumes "m_executors (shared w) \<noteq> []" and "8 \<le> n"
  shows "\<exists>w'. VariableService_StartListening n w = Ok w' \<and>
     listeners {fresh w, fresh w + 1, fresh w + 2} w' \<and> m_storage (shared w') = m_storage (shared w) \<and> sent w' = sent w"
  using StartListening_listeners [OF assms] by fastforce

theorem var_service_starts_witness:
  "\<exists>w'. VariableService_StartListening 8 (empty_world var_server_init :: unit var_world) = Ok w' \<and>
     sent w' = [] \<and> m_storage (shared w') = Map.empty"
proof -
  let ?w = "empty_world var_server_init :: unit var_world"
  have w: "shared ?w = var_server_init" "sent ?w = []" by (simp_all add: empty_world_def sent_def ops_of_def)
  have ne: "m_executors (shared ?w) \<noteq> []" by (simp add: w)
  from var_service_starts [OF ne, of 8, unfolded w] show ?thesis by auto
qed

end
