(* ===== verification/RemoteCalls.thy ===== *)
theory RemoteCalls
  imports Client VariableService
begin

text \<open>
  Calls of the variable service through \<open>AutoRetryUnary\<close> over a network that may lose a request
  before it is served, lose the reply after it was served, or cancel the call: what a returned
  call tells about the state of the service.
\<close>

section \<open>The network\<close>

text \<open>
  What happens to one operation of the client.  An attempt that fails in transport reports a
  status that is neither \<open>OK\<close> nor one the service itself sends.
\<close>

datatype fate =
    Delivered
  | RequestLost status
  | ReplyLost status
  | CallCancelled bool    \<comment> \<open>whether the request had been served\<close>

fun transport_fate :: "fate \<Rightarrow> bool" where
  "transport_fate (RequestLost st) \<longleftrightarrow> \<not> status_ok st \<and> error_code st \<noteq> NOT_FOUND \<and> (\<forall>i. error_code st \<noteq> OtherCode i)"
| "transport_fate (ReplyLost st) \<longleftrightarrow> \<not> status_ok st \<and> error_code st \<noteq> NOT_FOUND \<and> (\<forall>i. error_code st \<noteq> OtherCode i)"
| "transport_fate _ \<longleftrightarrow> True"

definition answered :: "'a call_reply \<Rightarrow> 'a completion" where
  "answered r = (case r of
      Replied m \<Rightarrow> \<lparr>ok = True, reply = Some m, reply_status = Some Status_OK, started = 0\<rparr>
    | Failed st \<Rightarrow> \<lparr>ok = True, reply = None, reply_status = Some st, started = 0\<rparr>)"

definition failed :: "status \<Rightarrow> 'a completion" where
  "failed st = \<lparr>ok = True, reply = None, reply_status = Some st, started = 0\<rparr>"

definition not_ok :: "'a completion" where
  "not_ok = \<lparr>ok = False, reply = None, reply_status = None, started = 0\<rparr>"

definition elapsed :: "'a completion" where
  "elapsed = \<lparr>ok = True, reply = None, reply_status = None, started = 0\<rparr>"

text \<open>The world is the state of the service and the fates of the operations to come.\<close>

fun deliver_call :: "('q \<Rightarrow> 's \<Rightarrow> 'a call_reply \<times> 's) \<Rightarrow> 'q \<Rightarrow> fate \<Rightarrow> 's \<Rightarrow> 'a completion \<times> 's" where
  "deliver_call call q Delivered s = (answered (fst (call q s)), snd (call q s))"
| "deliver_call call q (RequestLost st) s = (failed st, s)"
| "deliver_call call q (ReplyLost st) s = (failed st, snd (call q s))"
| "deliver_call call q (CallCancelled b) s = (not_ok, if b then snd (call q s) else s)"

fun next_fate :: "fate list \<Rightarrow> fate \<times> fate list" where
  "next_fate [] = (Delivered, [])"
| "next_fate (f # fs) = (f, fs)"

fun network :: "('q \<Rightarrow> 's \<Rightarrow> 'a call_reply \<times> 's) \<Rightarrow> 'q client_op \<Rightarrow> 's \<times> fate list \<Rightarrow> 'a completion \<times> ('s \<times> fate list)" where
  "network call (UnaryFinish ch q) (s, fs) = (case next_fate fs of (f, fs') \<Rightarrow>
     (case deliver_call call q f s of (c, s') \<Rightarrow> (c, (s', fs'))))"
| "network call (AlarmOp a) (s, fs) = (case next_fate fs of (f, fs') \<Rightarrow>
     (case f of CallCancelled b \<Rightarrow> (not_ok, (s, fs')) | _ \<Rightarrow> (elapsed, (s, fs'))))"
| "network call op w = (not_ok, w)"

lemma completion_simps [simp]:
  "ok (answered r)" "ok (failed st)" "\<not> ok not_ok" "ok elapsed"
  "reply (failed st) = None" "reply_status (failed st) = Some st" "reply (answered (Replied m)) = Some m"
  "reply_status (answered (Replied m)) = Some Status_OK" "reply (answered (Failed st)) = None"
  "reply_status (answered (Failed st)) = Some st" "reply (not_ok) = None" "reply_status not_ok = None"
  by (simp_all add: answered_def failed_def not_ok_def elapsed_def split: call_reply.split)

section \<open>What a call tells\<close>

definition known :: "status \<Rightarrow> bool" where
  "known st \<longleftrightarrow> (\<forall>i. error_code st \<noteq> OtherCode i)"

text \<open>
  \<open>tells q m (b, response, st) m'\<close>: the storage went from \<open>m\<close> to \<open>m'\<close>.  The request took effect
  once or not at all; \<open>OK\<close> tells that it did, with the value read, and \<open>NOT_FOUND\<close> that the name
  read has no value.
\<close>

fun tells :: "var_request \<Rightarrow> storage \<Rightarrow> bool \<times> var_response \<times> status \<Rightarrow> storage \<Rightarrow> bool" where
  "tells q m (b, response, st) m' \<longleftrightarrow> (m' = m \<or> m' = snd (var_call q m)) \<and> known st \<and>
     (b \<and> status_ok st \<longrightarrow> m' = snd (var_call q m) \<and>
       (\<forall>k. q = ReadRequest k \<longrightarrow> (\<exists>v. m k = Some v \<and> response = ReadResponse v))) \<and>
     (b \<and> error_code st = NOT_FOUND \<longrightarrow> (\<exists>k. q = ReadRequest k \<and> m k = None))"

lemma var_call_again: "snd (var_call q (snd (var_call q m))) = snd (var_call q m)"
  by (rule variables.call_again)

lemma tells_later:
  assumes "m1 = m \<or> m1 = snd (var_call q m)" and "tells q m1 r m'"
  shows "tells q m r m'"
proof -
  have read: "snd (var_call (ReadRequest k) m) = m" for k by (simp split: option.split)
  from assms show ?thesis
    by (cases r; cases q) (auto simp: var_call_again read simp del: var_call.simps)
qed

lemma co_exec_effects [simp]: "co_exec serve (co_effects es c) = co_exec serve c"
  by (induction es) simp_all

lemma AutoRetryUnary_exec:
  assumes "m_channels p \<noteq> []"
  shows "co_exec (network call) (AutoRetryUnary decide now p n q response st) (s, fs) =
    (case next_fate fs of (f, fs1) \<Rightarrow> (case deliver_call call q f s of (c, s1) \<Rightarrow>
      (let p' = next_channel p; response' = written response (reply c); st' = written st (reply_status c) in
       if ok c \<and> \<not> status_ok st' \<and> retried n st' then
         (case next_fate fs1 of (g, fs2) \<Rightarrow> (case g of
             CallCancelled b \<Rightarrow> (Ok ((False, response', st'), p'), (s1, fs2))
           | _ \<Rightarrow> co_exec (network call) (AutoRetryUnary decide now p' (Suc n) q response' st') (s1, fs2)))
       else (Ok ((ok c, response', st'), p'), (s1, fs1)))))"
proof -
  obtain f fs1 where f: "next_fate fs = (f, fs1)" by fastforce
  obtain c s1 where c: "deliver_call call q f s = (c, s1)" by fastforce
  obtain g fs2 where g: "next_fate fs1 = (g, fs2)" by fastforce
  show ?thesis
    by (subst AutoRetryUnary.simps, cases "retried n (written st (reply_status c))")
       (auto simp: CallUnary_eq assms f c g next_channel_def DefaultRetryPolicy_eq Alarm_Start_def Let_def
         split: fate.split)
qed

lemma next_fate_transport:
  "next_fate fs = (f, fs') \<Longrightarrow> \<forall>f \<in> set fs. transport_fate f \<Longrightarrow> transport_fate f \<and> (\<forall>f \<in> set fs'. transport_fate f)"
  by (cases fs) auto

lemma known_simps [simp]: "known Status_OK" "known not_found" "known Status_CANCELLED"
  by (simp_all add: known_def Status_OK_def not_found_def)

lemma error_code_OK [simp]: "error_code Status_OK = OK"
  by (simp add: Status_OK_def)

lemma not_found_code [simp]: "error_code not_found = NOT_FOUND" "\<not> status_ok not_found"
  by (simp_all add: not_found_def)

context variable_store begin

lemma deliver_tells:
  assumes "transport_fate f" and "known st" and "deliver_call call q f s = (c, s1)"
  shows "tells q (stored s) (ok c, written response (reply c), written st (reply_status c)) (stored s1)"
proof (cases f)
  case Delivered
  have c: "c = answered (fst (call q s))" "s1 = snd (call q s)" using assms(3) Delivered by auto
  show ?thesis
  proof (cases q)
    case (WriteRequest k v)
    with write_reply [of k v s] show ?thesis by (auto simp: c stored_call)
  next
    case (DelRequest k)
    with del_reply [of k s] show ?thesis by (auto simp: c stored_call)
  next
    case (ReadRequest k)
    then show ?thesis by (cases "stored s k") (simp_all add: c stored_call read_reply)
  qed
next
  case (CallCancelled b)
  with assms(2,3) show ?thesis by (auto simp: stored_call split: if_splits)
qed (use assms in \<open>auto simp: stored_call known_def status_ok_def\<close>)

lemma retry_tells:
  assumes "m_channels p \<noteq> []" and "known st" and "\<forall>f \<in> set fs. transport_fate f"
  shows "\<exists>r p' s' fs'. co_exec (network call) (AutoRetryUnary decide now p n q response st) (s, fs) = (Ok (r, p'), (s', fs')) \<and>
     tells q (stored s) r (stored s') \<and> m_channels p' \<noteq> [] \<and> (\<forall>f \<in> set fs'. transport_fate f)"
  using assms
proof (induction "5 - n" arbitrary: n p response st s fs rule: less_induct)
  case less
  obtain f fs1 where f: "next_fate fs = (f, fs1)" by fastforce
  obtain c s1 where c: "deliver_call call q f s = (c, s1)" by fastforce
  let ?st = "written st (reply_status c)" and ?response = "written response (reply c)"
  from next_fate_transport [OF f less.prems(3)]
  have fate: "transport_fate f" and fs1: "\<forall>f \<in> set fs1. transport_fate f" by auto
  from deliver_tells [OF fate less.prems(2) c]
  have first: "tells q (stored s) (ok c, ?response, ?st) (stored s1)" .
  then have s1: "stored s1 = stored s \<or> stored s1 = snd (var_call q (stored s))" and st: "known ?st" by simp_all
  have exec: "co_exec (network call) (AutoRetryUnary decide now p n q response st) (s, fs) =
      (if ok c \<and> \<not> status_ok ?st \<and> retried n ?st then
         (case next_fate fs1 of (g, fs2) \<Rightarrow> (case g of
             CallCancelled b \<Rightarrow> (Ok ((False, ?response, ?st), next_channel p), (s1, fs2))
           | _ \<Rightarrow> co_exec (network call) (AutoRetryUnary decide now (next_channel p) (Suc n) q ?response ?st) (s1, fs2)))
       else (Ok ((ok c, ?response, ?st), next_channel p), (s1, fs1)))"
    by (simp add: AutoRetryUnary_exec [OF less.prems(1)] f c Let_def)
  show ?case
  proof (cases "ok c \<and> \<not> status_ok ?st \<and> retried n ?st")
    case False
    then have "co_exec (network call) (AutoRetryUnary decide now p n q response st) (s, fs) =
        (Ok ((ok c, ?response, ?st), next_channel p), (s1, fs1))" unfolding exec by (rule if_not_P)
    with first fs1 less.prems(1) show ?thesis
      by (intro exI [of _ "(ok c, ?response, ?st)"] exI [of _ "next_channel p"] exI [of _ s1] exI [of _ fs1]) simp
  next
    case True
    obtain g fs2 where g: "next_fate fs1 = (g, fs2)" by fastforce
    from next_fate_transport [OF g fs1] have fs2: "\<forall>f \<in> set fs2. transport_fate f" by auto
    show ?thesis
    proof (cases "\<exists>b. g = CallCancelled b")
      case cancelled: True
      then have "co_exec (network call) (AutoRetryUnary decide now p n q response st) (s, fs) =
          (Ok ((False, ?response, ?st), next_channel p), (s1, fs2))" unfolding exec using True g by auto
      moreover have "tells q (stored s) (False, ?response, ?st) (stored s1)" using s1 st by simp
      ultimately show ?thesis using fs2 less.prems(1)
        by (intro exI [of _ "(False, ?response, ?st)"] exI [of _ "next_channel p"] exI [of _ s1] exI [of _ fs2]) simp
    next
      case again: False
      then have again: "co_exec (network call) (AutoRetryUnary decide now p n q response st) (s, fs) =
          co_exec (network call) (AutoRetryUnary decide now (next_channel p) (Suc n) q ?response ?st) (s1, fs2)"
        unfolding exec using True g by (cases g) auto
      have "n < 5" using True by (simp add: retried_def delays_s_def)
      then have "5 - Suc n < 5 - n" by linarith
      moreover have "m_channels (next_channel p) \<noteq> []" using less.prems(1) by simp
      ultimately obtain r p' s' fs' where
        "co_exec (network call) (AutoRetryUnary decide now (next_channel p) (Suc n) q ?response ?st) (s1, fs2) =
           (Ok (r, p'), (s', fs'))"
        "tells q (stored s1) r (stored s')" "m_channels p' \<noteq> []" "\<forall>f \<in> set fs'. transport_fate f"
        using less.hyps [of "Suc n" "next_channel p" ?st fs2 ?response s1] st fs2 by blast
      with tells_later [OF s1 this(2)] again show ?thesis by metis
    qed
  qed
qed

end

section \<open>Properties\<close>

text \<open>
  C6. Retrying never applies a request twice.  Whatever requests and replies of the attempts get
  lost or cancelled, \<open>AutoRetryUnary\<close> returns, the storage is as if the request had been served
  once or not at all, and a result true with status \<open>OK\<close> means it was served, for a read with
  the stored value as the response; true with \<open>NOT_FOUND\<close> means that the name has no value.
\<close>

theorem retry_at_most_once:
  assumes "m_channels p \<noteq> []" and "\<forall>f \<in> set fs. transport_fate f"
  shows "\<exists>r p' m' fs'. co_exec (network var_call) (AutoRetryUnary decide now p 0 q response Status_CANCELLED) (m, fs) =
     (Ok (r, p'), (m', fs')) \<and> tells q m r m'"
  using variables.retry_tells [OF assms(1) _ assms(2), of Status_CANCELLED decide now 0 q response m] by auto

theorem retry_at_most_once_witness:
  "co_exec (network var_call) (AutoRetryUnary (\<lambda>_ _. []) (\<lambda>_. 0) (ChannelProvider_one ()) 0 (WriteRequest ''xp'' 7)
      (WriteResponse False) Status_CANCELLED) (Map.empty, [ReplyLost (Status UNAVAILABLE [])]) =
    (Ok ((True, WriteResponse False, Status_OK), next_channel (next_channel (ChannelProvider_one ()))), ([''xp'' \<mapsto> 7], [])) \<and>
   tells (WriteRequest ''xp'' 7) Map.empty (True, WriteResponse False, Status_OK) [''xp'' \<mapsto> 7]"
proof -
  have p: "m_channels (ChannelProvider_one ()) \<noteq> []" by (simp add: ChannelProvider_one_def)
  have run: "co_exec (network var_call) (AutoRetryUnary (\<lambda>_ _. []) (\<lambda>_. 0) (ChannelProvider_one ()) 0 (WriteRequest ''xp'' 7)
      (WriteResponse False) Status_CANCELLED) (Map.empty, [ReplyLost (Status UNAVAILABLE [])]) =
    (Ok ((True, WriteResponse False, Status_OK), next_channel (next_channel (ChannelProvider_one ()))), ([''xp'' \<mapsto> 7], []))"
    by (simp add: AutoRetryUnary_exec p retried_def delays_s_def Let_def)
  from retry_at_most_once [OF p, of "[ReplyLost (Status UNAVAILABLE [])]" "\<lambda>_ _. []" "\<lambda>_. 0"
      "WriteRequest ''xp'' 7" "WriteResponse False" Map.empty] run
  show ?thesis by (auto simp del: tells.simps)
qed

end
