(* ===== verification/CharacterService.thy ===== *)
theory CharacterService
  imports RemoteCalls Expected
begin

text \<open>
  The character service of the game: its interface (\<^verbatim>\<open>game/character_service.hpp\<close>), the service
  in memory (\<^verbatim>\<open>character_service_memory.cpp\<close>) and the one that keeps the player in the remote
  variable service (\<^verbatim>\<open>character_service_grpc.cpp\<close>), whose coroutines are trees run against the
  network of \<open>RemoteCalls\<close>.  Its public operations await the tree on the gRPC executor with
  \<open>SpawnCrossTask\<close>, which hands over the value of the tree unchanged.
\<close>

section \<open>Players\<close>

record player =
  level :: int
  xp :: int

definition Player :: player where
  "Player = \<lparr>level = 1, xp = 0\<rparr>"

text \<open>An operation of a service gives a value, or is undefined, and a new state.\<close>

fun with_value :: "'a outcome \<Rightarrow> ('a \<Rightarrow> 's) \<Rightarrow> 's \<Rightarrow> 'a outcome \<times> 's" where
  "with_value (Ok a) f s = (Ok a, f a)"
| "with_value (Fault x) f s = (Fault x, s)"
| "with_value OutOfFuel f s = (OutOfFuel, s)"

section \<open>CharacterServiceMemory\<close>

definition Memory_GetPlayer :: "player \<Rightarrow> player outcome \<times> player" where
  "Memory_GetPlayer m_player = (Ok m_player, m_player)"

definition Memory_GiveXp :: "int \<Rightarrow> player \<Rightarrow> int outcome \<times> player" where
  "Memory_GiveXp ammount m_player =
     with_value (int64_add (xp m_player) ammount) (\<lambda>x. m_player\<lparr>xp := x\<rparr>) m_player"

definition Memory_LevelUp :: "player \<Rightarrow> int outcome \<times> player" where
  "Memory_LevelUp m_player = (let m_player = m_player\<lparr>xp := 0\<rparr> in
     with_value (int64_add (level m_player) 1) (\<lambda>l. m_player\<lparr>level := l\<rparr>) m_player)"

definition Memory_Reset :: "player \<Rightarrow> unit outcome \<times> player" where
  "Memory_Reset m_player = (Ok (), Player)"

section \<open>CharacterServiceGrpc\<close>

text \<open>
  What the trees need from outside: the clock the retry policy reads and the numbers gRPC gives
  its status codes, for the log.
\<close>

record client_env =
  clock :: "nat \<Rightarrow> int"
  code_number :: "status_code \<Rightarrow> int"

type_synonym ('c, 'a) service_co = "(var_request, var_response, 'a \<times> 'c channel_provider) client_co"

definition service_log :: "string \<Rightarrow> ('c, 'a) service_co \<Rightarrow> ('c, 'a) service_co" where
  "service_log line c = Do (LogLine (''[CharacterServiceGrpc] '' @ line)) c"

definition service_log_status :: "client_env \<Rightarrow> string \<Rightarrow> status \<Rightarrow> ('c, 'a) service_co \<Rightarrow> ('c, 'a) service_co" where
  "service_log_status env line st c =
     co_bind (co_outcome (print_status (code_number env) st)) (\<lambda>text. service_log (line @ text) c)"

fun response_value :: "var_response \<Rightarrow> int" where
  "response_value (ReadResponse v) = v"
| "response_value _ = 0"

definition Grpc_Read :: "client_env \<Rightarrow> 'c channel_provider \<Rightarrow> string \<Rightarrow> ('c, (int option, status) expected) service_co" where
  "Grpc_Read env p name = service_log (''Requesting '' @ name) (
     co_bind (AutoRetryUnary (\<lambda>_ _. []) (clock env) p 0 (ReadRequest name) (ReadResponse 0) Status_CANCELLED)
     (\<lambda>((done, response, st), p').
       if done then
         if status_ok st then
           service_log (''Got '' @ name @ '', value: '' @ show_int (response_value response))
             (Return (expected_value (Some (response_value response)), p'))
         else if error_code st = NOT_FOUND then
           service_log (''Value '' @ name @ '' not found'') (Return (expected_value None, p'))
         else service_log_status env (''Failed to retrieve '' @ name @ '': '') st
           (Return (expected_unexpected (\<lambda>e. e) (Unexpected st), p'))
       else service_log (''Retrieving '' @ name @ '' cancelled'')
         (Return (expected_unexpected (\<lambda>e. e) (Unexpected st), p'))))"

definition Grpc_Write :: "client_env \<Rightarrow> 'c channel_provider \<Rightarrow> string \<Rightarrow> int \<Rightarrow> ('c, (unit, status) expected) service_co" where
  "Grpc_Write env p name v = service_log (''Writing '' @ name @ '' to '' @ show_int v) (
     co_bind (AutoRetryUnary (\<lambda>_ _. []) (clock env) p 0 (WriteRequest name v) (WriteResponse False) Status_CANCELLED)
     (\<lambda>((done, response, st), p').
       if done then
         if status_ok st then
           service_log (''Successfuly wrote '' @ name) (Return (expected_default (), p'))
         else service_log_status env (''Failed to write '' @ name @ '': '') st
           (Return (expected_unexpected (\<lambda>e. e) (Unexpected st), p'))
       else service_log (''Writing '' @ name @ '' cancelled'')
         (Return (expected_unexpected (\<lambda>e. e) (Unexpected st), p'))))"

definition Grpc_Del :: "client_env \<Rightarrow> 'c channel_provider \<Rightarrow> string \<Rightarrow> ('c, (unit, status) expected) service_co" where
  "Grpc_Del env p name = service_log (''Deleting '' @ name) (
     co_bind (AutoRetryUnary (\<lambda>_ _. []) (clock env) p 0 (DelRequest name) (DelResponse False) Status_CANCELLED)
     (\<lambda>((done, response, st), p').
       if done then
         if status_ok st then
           service_log (''Successfully deleted '' @ name) (Return (expected_default (), p'))
         else service_log_status env (''Failed to delete '' @ name @ '': '') st
           (Return (expected_unexpected (\<lambda>e. e) (Unexpected st), p'))
       else service_log (''Deleting '' @ name @ '' cancelled'')
         (Return (expected_unexpected (\<lambda>e. e) (Unexpected st), p'))))"

definition Grpc_GetPlayer :: "client_env \<Rightarrow> 'c channel_provider \<Rightarrow> ('c, player) service_co" where
  "Grpc_GetPlayer env p =
     co_bind (Grpc_Read env p ''level'') (\<lambda>(res, p1).
     co_bind (if has_value res then co_bind (co_outcome (expected_get res)) (\<lambda>found.
         Return (Player\<lparr>level := optional_value_or found 1\<rparr>)) else Return Player) (\<lambda>sent.
     co_bind (Grpc_Read env p1 ''xp'') (\<lambda>(res, p2).
     co_bind (if has_value res then co_bind (co_outcome (expected_get res)) (\<lambda>found.
         Return (sent\<lparr>xp := optional_value_or found 0\<rparr>)) else Return sent) (\<lambda>sent.
     Return (sent, p2)))))"

definition Grpc_GiveXp :: "client_env \<Rightarrow> int \<Rightarrow> 'c channel_provider \<Rightarrow> ('c, int) service_co" where
  "Grpc_GiveXp env ammount p =
     co_bind (Grpc_Read env p ''xp'') (\<lambda>(res, p1).
     let cur_xp = optional_value_or (value_or res None) 0 in
     co_bind (co_outcome (int64_add cur_xp ammount)) (\<lambda>new_xp.
     co_bind (Grpc_Write env p1 ''xp'' new_xp) (\<lambda>(res, p2).
     Return (cur_xp, p2))))"

definition Grpc_LevelUp :: "client_env \<Rightarrow> 'c channel_provider \<Rightarrow> ('c, int) service_co" where
  "Grpc_LevelUp env p =
     co_bind (Grpc_Read env p ''level'') (\<lambda>(res, p1).
     let cur_level = optional_value_or (value_or res None) 1 in
     co_bind (co_outcome (int64_add cur_level 1)) (\<lambda>new_level.
     co_bind (Grpc_Write env p1 ''level'' new_level) (\<lambda>(res, p2).
     co_bind (Grpc_Write env p2 ''xp'' 0) (\<lambda>(res, p3).
     Return (cur_level, p3)))))"

definition Grpc_Reset :: "client_env \<Rightarrow> 'c channel_provider \<Rightarrow> ('c, unit) service_co" where
  "Grpc_Reset env p =
     co_bind (Grpc_Del env p ''level'') (\<lambda>(res, p1).
     co_bind (Grpc_Del env p1 ''xp'') (\<lambda>(res, p2).
     Return ((), p2)))"

section \<open>The remote service over a network\<close>

text \<open>The player a storage holds.\<close>

definition player_in :: "storage \<Rightarrow> player" where
  "player_in m = \<lparr>level = optional_value_or (m ''level'') 1, xp = optional_value_or (m ''xp'') 0\<rparr>"

lemma print_known: "known st \<Longrightarrow> \<exists>s. print_status number st = Ok s"
proof -
  assume "known st"
  then have "\<exists>s. to_string (error_code st) = Ok s" by (cases "error_code st") (auto simp: known_def)
  then show ?thesis by (auto simp: print_status_def print_code_def)
qed

lemma co_exec_log [simp]: "co_exec serve (service_log line c) w = co_exec serve c w"
  by (simp add: service_log_def)

lemma co_exec_log_status: "known st \<Longrightarrow> co_exec serve (service_log_status env line st c) w = co_exec serve c w"
  using print_known [of st "code_number env"] by (auto simp: service_log_status_def)

lemmas expected_ops = expected_value_def expected_unexpected_def expected_default_def

text \<open>Reads and writes, whatever happens to the attempts.\<close>

lemma Grpc_Read_exec:
  assumes "m_channels p \<noteq> []" and "\<forall>f \<in> set fs. transport_fate f"
  shows "\<exists>res p' fs'. co_exec (network var_call) (Grpc_Read env p k) (m, fs) = (Ok (res, p'), (m, fs')) \<and>
     (res = Value (m k) \<or> \<not> has_value res) \<and> m_channels p' \<noteq> [] \<and> (\<forall>f \<in> set fs'. transport_fate f)"
proof -
  from variables.retry_tells [OF assms(1) known_simps(3) assms(2), of "\<lambda>_ _. []" "clock env" 0 "ReadRequest k" "ReadResponse 0" m]
  obtain b response st p' m' fs' where
    run: "co_exec (network var_call) (AutoRetryUnary (\<lambda>_ _. []) (clock env) p 0 (ReadRequest k) (ReadResponse 0) Status_CANCELLED) (m, fs) =
      (Ok ((b, response, st), p'), (m', fs'))"
    and tells: "tells (ReadRequest k) m (b, response, st) m'"
    and rest: "m_channels p' \<noteq> []" "\<forall>f \<in> set fs'. transport_fate f"
    by (auto simp del: tells.simps)
  from tells have st: "known st" and m': "m' = m" by (auto split: option.splits)
  show ?thesis
    using rest tells m'
    by (cases "b \<and> status_ok st"; cases "b \<and> error_code st = NOT_FOUND")
       (auto simp: Grpc_Read_def co_exec_bind run co_exec_log_status [OF st] expected_ops split: if_splits)
qed

lemma Grpc_Write_exec:
  assumes "m_channels p \<noteq> []" and "\<forall>f \<in> set fs. transport_fate f"
  shows "\<exists>res p' m' fs'. co_exec (network var_call) (Grpc_Write env p k v) (m, fs) = (Ok (res, p'), (m', fs')) \<and>
     (m' = m(k \<mapsto> v) \<or> m' = m \<and> \<not> has_value res) \<and> m_channels p' \<noteq> [] \<and> (\<forall>f \<in> set fs'. transport_fate f)"
proof -
  from variables.retry_tells [OF assms(1) known_simps(3) assms(2), of "\<lambda>_ _. []" "clock env" 0 "WriteRequest k v" "WriteResponse False" m]
  obtain b response st p' m' fs' where
    run: "co_exec (network var_call) (AutoRetryUnary (\<lambda>_ _. []) (clock env) p 0 (WriteRequest k v) (WriteResponse False) Status_CANCELLED) (m, fs) =
      (Ok ((b, response, st), p'), (m', fs'))"
    and tells: "tells (WriteRequest k v) m (b, response, st) m'"
    and rest: "m_channels p' \<noteq> []" "\<forall>f \<in> set fs'. transport_fate f"
    by (auto simp del: tells.simps)
  from tells have st: "known st" by simp
  show ?thesis
    using rest tells
    by (cases "b \<and> status_ok st")
       (auto simp: Grpc_Write_def co_exec_bind run co_exec_log_status [OF st] expected_ops split: if_splits)
qed

lemma Grpc_Del_exec:
  assumes "m_channels p \<noteq> []" and "\<forall>f \<in> set fs. transport_fate f"
  shows "\<exists>res p' m' fs'. co_exec (network var_call) (Grpc_Del env p k) (m, fs) = (Ok (res, p'), (m', fs')) \<and>
     (m' = m(k := None) \<or> m' = m \<and> \<not> has_value res) \<and> m_channels p' \<noteq> [] \<and> (\<forall>f \<in> set fs'. transport_fate f)"
proof -
  from variables.retry_tells [OF assms(1) known_simps(3) assms(2), of "\<lambda>_ _. []" "clock env" 0 "DelRequest k" "DelResponse False" m]
  obtain b response st p' m' fs' where
    run: "co_exec (network var_call) (AutoRetryUnary (\<lambda>_ _. []) (clock env) p 0 (DelRequest k) (DelResponse False) Status_CANCELLED) (m, fs) =
      (Ok ((b, response, st), p'), (m', fs'))"
    and tells: "tells (DelRequest k) m (b, response, st) m'"
    and rest: "m_channels p' \<noteq> []" "\<forall>f \<in> set fs'. transport_fate f"
    by (auto simp del: tells.simps)
  from tells have st: "known st" by simp
  show ?thesis
    using rest tells
    by (cases "b \<and> status_ok st")
       (auto simp: Grpc_Del_def co_exec_bind run co_exec_log_status [OF st] expected_ops split: if_splits)
qed

text \<open>With no failures to come every request is delivered.\<close>

lemma reliable_exec [simp]:
  assumes "m_channels p \<noteq> []"
  shows "co_exec (network var_call) (Grpc_Read env p k) (m, []) = (Ok (Value (m k), next_channel p), (m, []))"
    and "co_exec (network var_call) (Grpc_Write env p k v) (m, []) = (Ok (Value (), next_channel p), (m(k \<mapsto> v), []))"
    and "co_exec (network var_call) (Grpc_Del env p k) (m, []) = (Ok (Value (), next_channel p), (m(k := None), []))"
  by (cases "m k", simp_all add: assms Grpc_Read_def Grpc_Write_def Grpc_Del_def co_exec_bind AutoRetryUnary_exec
      retried_def Let_def expected_ops)

section \<open>The contract of the service\<close>

text \<open>
  What \<^verbatim>\<open>character_service.hpp\<close> promises of the stored player, and, in the extended contract,
  of the values returned.
\<close>

locale character_state =
  fixes player_of :: "'s \<Rightarrow> player"
    and get_player :: "'s \<Rightarrow> player outcome \<times> 's"
    and give_xp :: "int \<Rightarrow> 's \<Rightarrow> int outcome \<times> 's"
    and level_up :: "'s \<Rightarrow> int outcome \<times> 's"
    and reset :: "'s \<Rightarrow> unit outcome \<times> 's"
  assumes get_player: "fst (get_player s) = Ok (player_of s)" "player_of (snd (get_player s)) = player_of s"
    and give_xp: "int64 (xp (player_of s) + a) \<Longrightarrow>
      (\<exists>r. fst (give_xp a s) = Ok r) \<and> player_of (snd (give_xp a s)) = (player_of s)\<lparr>xp := xp (player_of s) + a\<rparr>"
    and level_up: "int64 (level (player_of s) + 1) \<Longrightarrow>
      (\<exists>r. fst (level_up s) = Ok r) \<and> player_of (snd (level_up s)) = \<lparr>level = level (player_of s) + 1, xp = 0\<rparr>"
    and reset: "fst (reset s) = Ok ()" "player_of (snd (reset s)) = Player"

locale character_service = character_state +
  assumes give_xp_returns: "int64 (xp (player_of s) + a) \<Longrightarrow> fst (give_xp a s) = Ok (xp (player_of s) + a)"
    and level_up_returns: "int64 (level (player_of s) + 1) \<Longrightarrow> fst (level_up s) = Ok (level (player_of s) + 1)"

text \<open>Requests one after the other, and what they should make of the player.\<close>

datatype service_request = GetPlayer | GiveXp int | LevelUp | Reset

fun player_after :: "service_request \<Rightarrow> player \<Rightarrow> player" where
  "player_after GetPlayer p = p"
| "player_after (GiveXp a) p = p\<lparr>xp := xp p + a\<rparr>"
| "player_after LevelUp p = \<lparr>level = level p + 1, xp = 0\<rparr>"
| "player_after Reset p = Player"

fun representable :: "service_request list \<Rightarrow> player \<Rightarrow> bool" where
  "representable [] p \<longleftrightarrow> True"
| "representable (q # qs) p \<longleftrightarrow> int64 (level (player_after q p)) \<and> int64 (xp (player_after q p)) \<and>
     representable qs (player_after q p)"

fun handle :: "('s \<Rightarrow> player outcome \<times> 's) \<Rightarrow> (int \<Rightarrow> 's \<Rightarrow> int outcome \<times> 's) \<Rightarrow> ('s \<Rightarrow> int outcome \<times> 's)
    \<Rightarrow> ('s \<Rightarrow> unit outcome \<times> 's) \<Rightarrow> service_request \<Rightarrow> 's \<Rightarrow> 's" where
  "handle get give up reset GetPlayer s = snd (get s)"
| "handle get give up reset (GiveXp a) s = snd (give a s)"
| "handle get give up reset LevelUp s = snd (up s)"
| "handle get give up reset Reset s = snd (reset s)"

context character_state begin

lemma handle_all:
  "representable qs (player_of s) \<Longrightarrow>
     player_of (fold (handle get_player give_xp level_up reset) qs s) = fold player_after qs (player_of s)"
proof (induction qs arbitrary: s)
  case (Cons q qs)
  have "player_of (handle get_player give_xp level_up reset q s) = player_after q (player_of s)"
    using Cons.prems get_player give_xp level_up reset by (cases q) simp_all
  with Cons.prems Cons.IH [of "handle get_player give_xp level_up reset q s"] show ?case by simp
qed simp

end

text \<open>The service in memory keeps the whole contract.\<close>

interpretation memory: character_service "\<lambda>s. s" Memory_GetPlayer Memory_GiveXp Memory_LevelUp Memory_Reset
  by unfold_locales (simp_all add: Memory_GetPlayer_def Memory_GiveXp_def Memory_LevelUp_def Memory_Reset_def Let_def)

text \<open>
  The remote one over a network without failures: its state is the storage of the variable
  service and the counter of its client's single channel.
\<close>

type_synonym remote = "storage \<times> 64 word"

definition m_client :: "64 word \<Rightarrow> unit channel_provider" where
  "m_client c = \<lparr>m_channels = [()], m_nextChannel = c\<rparr>"

definition remote_run :: "(unit channel_provider \<Rightarrow> (unit, 'a) service_co) \<Rightarrow> remote \<Rightarrow> 'a outcome \<times> remote" where
  "remote_run c s = (case co_exec (network var_call) (c (m_client (snd s))) (fst s, []) of
      (Ok (a, p), (m, fs)) \<Rightarrow> (Ok a, (m, m_nextChannel p))
    | (Fault x, (m, fs)) \<Rightarrow> (Fault x, (m, snd s))
    | (OutOfFuel, (m, fs)) \<Rightarrow> (OutOfFuel, (m, snd s)))"

lemma m_client_channels [simp]: "m_channels (m_client c) \<noteq> []"
  by (simp add: m_client_def)

lemma remote_GetPlayer:
  "fst (remote_run (Grpc_GetPlayer env) s) = Ok (player_in (fst s))"
  "fst (snd (remote_run (Grpc_GetPlayer env) s)) = fst s"
  by (simp_all add: remote_run_def Grpc_GetPlayer_def co_exec_bind player_in_def Player_def)

lemma remote_GiveXp:
  assumes "int64 (xp (player_in (fst s)) + a)"
  shows "fst (remote_run (Grpc_GiveXp env a) s) = Ok (xp (player_in (fst s)))"
    and "fst (snd (remote_run (Grpc_GiveXp env a) s)) = (fst s)(''xp'' \<mapsto> xp (player_in (fst s)) + a)"
  using assms by (simp_all add: remote_run_def Grpc_GiveXp_def co_exec_bind player_in_def Let_def)

lemma remote_LevelUp:
  assumes "int64 (level (player_in (fst s)) + 1)"
  shows "fst (remote_run (Grpc_LevelUp env) s) = Ok (level (player_in (fst s)))"
    and "fst (snd (remote_run (Grpc_LevelUp env) s)) =
      (fst s)(''level'' \<mapsto> level (player_in (fst s)) + 1, ''xp'' \<mapsto> 0)"
  using assms by (simp_all add: remote_run_def Grpc_LevelUp_def co_exec_bind player_in_def Let_def)

lemma remote_Reset:
  "fst (remote_run (Grpc_Reset env) s) = Ok ()"
  "fst (snd (remote_run (Grpc_Reset env) s)) = (fst s)(''level'' := None, ''xp'' := None)"
  by (simp_all add: remote_run_def Grpc_Reset_def co_exec_bind)

text \<open>It keeps the part of the contract about the stored player.\<close>

interpretation remote: character_state "\<lambda>s. player_in (fst s)" "remote_run (Grpc_GetPlayer env)"
    "\<lambda>a. remote_run (Grpc_GiveXp env a)" "remote_run (Grpc_LevelUp env)" "remote_run (Grpc_Reset env)"
  by unfold_locales
     (simp_all add: remote_GetPlayer remote_GiveXp remote_LevelUp remote_Reset, simp_all add: player_in_def Player_def)

section \<open>Two calls at once\<close>

text \<open>
  \<open>co_step\<close> runs a tree up to and with its next operation; in \<open>interleaved\<close> two jobs of the
  executor take turns.
\<close>

fun co_step :: "('op \<Rightarrow> 'w \<Rightarrow> 'r \<times> 'w) \<Rightarrow> ('e, 'op, 'r, 'a) co \<times> 'w \<Rightarrow> ('e, 'op, 'r, 'a) co \<times> 'w" where
  "co_step serve (Return a, w) = (Return a, w)"
| "co_step serve (Undefined x, w) = (Undefined x, w)"
| "co_step serve (Do e c, w) = co_step serve (c, w)"
| "co_step serve (Submit op k, w) = (case serve op w of (x, w') \<Rightarrow> (k x, w'))"

fun interleaved :: "('op \<Rightarrow> 'w \<Rightarrow> 'r \<times> 'w) \<Rightarrow> bool list \<Rightarrow> ('e, 'op, 'r, 'a) co \<Rightarrow> ('e, 'op, 'r, 'a) co \<Rightarrow> 'w
    \<Rightarrow> ('e, 'op, 'r, 'a) co \<times> ('e, 'op, 'r, 'a) co \<times> 'w" where
  "interleaved serve [] c d w = (c, d, w)"
| "interleaved serve (True # turns) c d w = (case co_step serve (c, w) of (c', w') \<Rightarrow> interleaved serve turns c' d w')"
| "interleaved serve (False # turns) c d w = (case co_step serve (d, w) of (d', w') \<Rightarrow> interleaved serve turns c d' w')"

definition zero_env :: client_env where
  "zero_env = \<lparr>clock = (\<lambda>n. 0), code_number = (\<lambda>c. 0)\<rparr>"

section \<open>Properties\<close>

text \<open>
  The remote service keeps the same player as the one in memory.  After any sequence of
  requests whose values fit 64 bits, starting from a new player and an empty storage, over a
  network without failures, both hold the same level and experience.
\<close>

theorem remote_equals_memory:
  assumes "representable qs Player"
  shows "player_in (fst (fold (handle (remote_run (Grpc_GetPlayer env)) (\<lambda>a. remote_run (Grpc_GiveXp env a))
      (remote_run (Grpc_LevelUp env)) (remote_run (Grpc_Reset env))) qs (Map.empty, c))) =
    fold (handle Memory_GetPlayer Memory_GiveXp Memory_LevelUp Memory_Reset) qs Player"
proof -
  have "player_in (fst (Map.empty, c)) = Player" by (simp add: player_in_def Player_def)
  with remote.handle_all [of qs "(Map.empty, c)" env] memory.handle_all [of qs Player] assms
  show ?thesis by simp
qed

theorem remote_equals_memory_witness:
  "player_in (fst (fold (handle (remote_run (Grpc_GetPlayer zero_env)) (\<lambda>a. remote_run (Grpc_GiveXp zero_env a))
      (remote_run (Grpc_LevelUp zero_env)) (remote_run (Grpc_Reset zero_env))) [GiveXp 100, LevelUp, GiveXp 100] (Map.empty, 0))) =
    \<lparr>level = 2, xp = 100\<rparr>"
proof -
  have "representable [GiveXp 100, LevelUp, GiveXp 100] Player"
    by (simp add: Player_def int64_def)
  from remote_equals_memory [OF this, of zero_env 0] show ?thesis
    by (simp add: Memory_GiveXp_def Memory_LevelUp_def Let_def Player_def int64_def)
qed

text \<open>
  What \<open>GiveXp\<close> returns.  The header promises the new amount; the service in memory returns
  it, the remote service returns the amount before, although both store the new one.
\<close>

theorem give_xp_returns:
  assumes "int64 (xp (player_in m) + a)"
  shows "fst (remote_run (Grpc_GiveXp env a) (m, c)) = Ok (xp (player_in m)) \<and>
     player_in (fst (snd (remote_run (Grpc_GiveXp env a) (m, c)))) = (player_in m)\<lparr>xp := xp (player_in m) + a\<rparr> \<and>
     Memory_GiveXp a (player_in m) = (Ok (xp (player_in m) + a), (player_in m)\<lparr>xp := xp (player_in m) + a\<rparr>)"
  using assms remote_GiveXp [of "(m, c)" a env] by (simp add: player_in_def Memory_GiveXp_def)

theorem give_xp_returns_witness:
  "fst (remote_run (Grpc_GiveXp zero_env 100) ([''xp'' \<mapsto> 900], 0)) = Ok 900 \<and>
   fst (Memory_GiveXp 100 (player_in [''xp'' \<mapsto> 900])) = Ok 1000"
proof -
  have "int64 (xp (player_in [''xp'' \<mapsto> 900]) + 100)" by (simp add: player_in_def int64_def)
  from give_xp_returns [OF this, of zero_env 0] show ?thesis by (simp add: player_in_def)
qed

text \<open>
  C17. \<open>GiveXp\<close> over any network.  It returns, with some amount \<open>r\<close> that is the stored one or 0,
  and the storage is unchanged or has \<open>r\<close> plus the gift as the experience, nothing else changed.
\<close>

theorem give_xp_any_network:
  assumes "m_channels p \<noteq> []" and "\<forall>f \<in> set fs. transport_fate f"
    and "int64 (xp (player_in m) + a)" and "int64 a"
  shows "\<exists>r p' m' fs'. co_exec (network var_call) (Grpc_GiveXp env a p) (m, fs) = (Ok (r, p'), (m', fs')) \<and>
     (r = xp (player_in m) \<or> r = 0) \<and> (m' = m \<or> m' = m(''xp'' \<mapsto> r + a))"
proof -
  from Grpc_Read_exec [OF assms(1,2), of env "''xp''" m] obtain res p1 fs1 where
    read: "co_exec (network var_call) (Grpc_Read env p ''xp'') (m, fs) = (Ok (res, p1), (m, fs1))"
      "res = Value (m ''xp'') \<or> \<not> has_value res" "m_channels p1 \<noteq> []" "\<forall>f \<in> set fs1. transport_fate f" by blast
  define r where "r = optional_value_or (value_or res None) 0"
  have r: "r = xp (player_in m) \<or> r = 0"
    using read(2) by (cases res) (auto simp: r_def player_in_def)
  then have "int64 (r + a)" using assms(3,4) by auto
  from Grpc_Write_exec [OF read(3,4), of env "''xp''" "r + a" m] obtain res' p2 m' fs2 where
    wr: "co_exec (network var_call) (Grpc_Write env p1 ''xp'' (r + a)) (m, fs1) = (Ok (res', p2), (m', fs2))"
      "m' = m(''xp'' \<mapsto> r + a) \<or> m' = m" by blast
  have "co_exec (network var_call) (Grpc_GiveXp env a p) (m, fs) = (Ok (r, p2), (m', fs2))"
    using read(1) wr(1) \<open>int64 (r + a)\<close> by (simp add: Grpc_GiveXp_def co_exec_bind Let_def r_def)
  with r wr(2) show ?thesis by blast
qed

theorem give_xp_any_network_witness:
  "\<exists>r p' m' fs'. co_exec (network var_call) (Grpc_GiveXp zero_env 100 (m_client 0)) ([''xp'' \<mapsto> 900], [CallCancelled False]) =
     (Ok (r, p'), (m', fs')) \<and> (r = 900 \<or> r = 0)"
proof -
  have "int64 (xp (player_in [''xp'' \<mapsto> 900]) + 100)" "int64 100" by (simp_all add: player_in_def int64_def)
  from give_xp_any_network [OF m_client_channels [of 0] _ this, of "[CallCancelled False]" zero_env]
  show ?thesis by (auto simp: player_in_def)
qed

text \<open>
  A failed read loses experience.  When the read of the experience is answered with an
  error that is not retried, \<open>GiveXp\<close> goes on with 0 and overwrites what was stored.
\<close>

theorem failed_read_overwrites:
  assumes "m_channels p \<noteq> []" and "transport_fate (RequestLost st)" and "error_code st \<noteq> UNAVAILABLE" and "int64 a"
  shows "\<exists>p'. co_exec (network var_call) (Grpc_GiveXp env a p) (m, [RequestLost st]) = (Ok (0, p'), (m(''xp'' \<mapsto> a), []))"
proof -
  have "known st" using assms(2) by (simp add: known_def)
  then have "co_exec (network var_call) (Grpc_Read env p ''xp'') (m, [RequestLost st]) =
      (Ok (Error st, next_channel p), (m, []))"
    using assms by (simp add: Grpc_Read_def co_exec_bind AutoRetryUnary_exec retried_def Let_def expected_ops
        co_exec_log_status)
  then show ?thesis using assms by (simp add: Grpc_GiveXp_def co_exec_bind Let_def)
qed

theorem failed_read_overwrites_witness:
  "\<exists>p'. co_exec (network var_call) (Grpc_GiveXp zero_env 100 (m_client 0)) ([''xp'' \<mapsto> 900], [RequestLost (Status UNKNOWN [])]) =
     (Ok (0, p'), ([''xp'' \<mapsto> 100], []))"
proof -
  have "transport_fate (RequestLost (Status UNKNOWN []))" "error_code (Status UNKNOWN []) \<noteq> UNAVAILABLE" "int64 100"
    by (simp_all add: int64_def)
  from failed_read_overwrites [OF m_client_channels [of 0] this, of zero_env "[''xp'' \<mapsto> 900]"] show ?thesis by simp
qed

text \<open>
  C33. Concurrent gifts can get lost.  Two calls of \<open>GiveXp\<close> whose reads both come before their
  writes add the gift once: both return the same amount and one of the two writes is lost.
\<close>

theorem concurrent_gift_lost:
  assumes "m_channels p \<noteq> []" and "int64 (xp (player_in m) + a)"
  shows "\<exists>c d p'. interleaved (network var_call) [True, False, True, False] (Grpc_GiveXp env a p) (Grpc_GiveXp env a p) (m, []) =
     (c, d, (m(''xp'' \<mapsto> xp (player_in m) + a), [])) \<and>
     co_exec (network var_call) c (m, []) = (Ok (xp (player_in m), p'), (m, [])) \<and>
     co_exec (network var_call) d (m, []) = (Ok (xp (player_in m), p'), (m, []))"
proof -
  have cur: "xp (player_in m) = optional_value_or (m ''xp'') 0" by (simp add: player_in_def)
  show ?thesis
    using assms
    by (cases "m ''xp''")
       (simp_all add: cur Grpc_GiveXp_def Grpc_Read_def Grpc_Write_def AutoRetryUnary.simps CallUnary_eq service_log_def
         Let_def expected_ops DefaultRetryPolicy_def)
qed

theorem concurrent_gift_lost_witness:
  "\<exists>c d. interleaved (network var_call) [True, False, True, False] (Grpc_GiveXp zero_env 100 (m_client 0))
      (Grpc_GiveXp zero_env 100 (m_client 0)) ([''xp'' \<mapsto> 900], []) = (c, d, ([''xp'' \<mapsto> 1000], []))"
proof -
  have "int64 (xp (player_in [''xp'' \<mapsto> 900]) + 100)" by (simp add: player_in_def int64_def)
  from concurrent_gift_lost [OF m_client_channels [of 0] this, of zero_env]
  show ?thesis by (auto simp: player_in_def)
qed

end
