(* ===== verification/EchoClient.thy ===== *)
theory EchoClient
  imports Client
begin

text \<open>
  The echo client program, \<^verbatim>\<open>async_grpc/client/main.cpp\<close>: its commands, the choice of a command
  from an input line and the main loop.  \<open>Noop\<close> and \<open>NestedEcho\<close> are bodies with nested tasks,
  \<open>UnaryEcho\<close> and \<open>ClientStreamEcho\<close> trees, and the two commands that loop over a stream are
  programs of the coroutine machine.  The text protobuf prints for a message is a parameter.
\<close>

section \<open>Messages\<close>

datatype echo_request =
    UnaryEchoRequest string
  | ClientStreamEchoRequest string
  | ServerStreamEchoRequest string "32 word" "32 word"   \<comment> \<open>message, count, delay in milliseconds\<close>
  | BidirectionalMessage string "32 word"
  | BidirectionalStart
  | BidirectionalStop
  | BidirectionalNotSet                                 \<comment> \<open>no field of the \<open>oneof\<close> is set\<close>

datatype echo_response =
    UnaryEchoResponse string
  | ClientStreamEchoResponse "string list"
  | ServerStreamEchoResponse string "32 word"
  | BidirectionalStreamEchoResponse string

record echo_env =
  debug_request :: "echo_request \<Rightarrow> string"
  debug_response :: "echo_response \<Rightarrow> string"
  echo_code :: "status_code \<Rightarrow> int"
  echo_clock :: "nat \<Rightarrow> int"

definition bracket :: "string \<Rightarrow> string" where
  "bracket s = ''['' @ s @ '']''"

section \<open>Nested tasks\<close>

text \<open>The values of the tasks that the nested commands await.\<close>

datatype echo_value = NoValue | StringValue string | CallValue bool echo_response status

type_synonym echo_body = "(client_effect, echo_request client_op, echo_response completion, echo_value) body"

text \<open>A tree as a body; what it gives becomes a value.\<close>

primrec embed :: "('a \<Rightarrow> 'v) \<Rightarrow> ('e, 'op, 'r, 'a) co \<Rightarrow> ('e, 'op, 'r, 'v) body" where
  "embed g (Return a) = BReturn (g a)"
| "embed g (Do e c) = BDo e (embed g c)"
| "embed g (Submit op k) = BSubmit op (\<lambda>r. embed g (k r))"
| "embed g (Undefined x) = BUndefined x"

lemma flatten_embed: "flatten (embed g c) = co_bind c (\<lambda>a. Return (g a))"
  by (induction c) simp_all

fun string_value :: "echo_value \<Rightarrow> string" where
  "string_value (StringValue s) = s"
| "string_value _ = []"

text \<open>
  \<open>utils::Log() << "End " << co_await \<dots>\<close>: the line is printed when the awaited task is done.
\<close>

definition Noop_sub2 :: echo_body where
  "Noop_sub2 = BDo (LogLine ''Sub2'') (BReturn (StringValue ''sub2''))"

definition Noop_sub1 :: echo_body where
  "Noop_sub1 = BDo (LogLine ''Start sub1'') (BAwait Noop_sub2 (\<lambda>v.
     BDo (LogLine (''End '' @ string_value v)) (BReturn (StringValue ''sub1''))))"

definition Noop :: echo_body where
  "Noop = BDo (LogLine ''Start'') (BAwait Noop_sub1 (\<lambda>v.
     BDo (LogLine (''End '' @ string_value v)) (BReturn NoValue)))"

text \<open>\<open>auto out = utils::Log() << "Received [" << status << ']'\<close>, with the response when \<open>OK\<close>.\<close>

definition received_line :: "echo_env \<Rightarrow> string \<Rightarrow> status \<Rightarrow> echo_response \<Rightarrow> string outcome" where
  "received_line env gap st response = obind (print_status (echo_code env) st) (\<lambda>text.
     Ok (''Received '' @ bracket text @ (if status_ok st then gap @ bracket (debug_response env response) else '''')))"

fun log_outcome :: "string outcome \<Rightarrow> ('e, 'op, 'r, 'v) body \<Rightarrow> (string \<Rightarrow> 'e) \<Rightarrow> ('e, 'op, 'r, 'v) body" where
  "log_outcome (Ok line) b log = BDo (log line) b"
| "log_outcome (Fault x) b log = BUndefined x"
| "log_outcome OutOfFuel b log = BUndefined AssertFailed"

definition NestedEcho_sub2 :: "echo_env \<Rightarrow> 'c channel_provider \<Rightarrow> echo_body" where
  "NestedEcho_sub2 env m_echo = (let request = UnaryEchoRequest ''hello''; end_sub2 = BDo (LogLine ''End sub2'') (BReturn NoValue) in
     BDo (LogLine ''Start sub2'') (
     BDo NewContext (
     BDo (LogLine (''Sending '' @ bracket (debug_request env request))) (
     BAwait (embed (\<lambda>((done, response, st), p). CallValue done response st)
         (CallUnary m_echo request (UnaryEchoResponse '''') Status_OK)) (\<lambda>v. case v of
       CallValue done response st \<Rightarrow> if done
         then log_outcome (received_line env '' '' st response) end_sub2 LogLine
         else BDo (LogLine ''Cancelled'') end_sub2
     | _ \<Rightarrow> BUndefined AssertFailed)))))"

definition NestedEcho_sub1 :: "echo_env \<Rightarrow> 'c channel_provider \<Rightarrow> echo_body" where
  "NestedEcho_sub1 env m_echo = BDo (LogLine ''Start sub1'') (BAwait (NestedEcho_sub2 env m_echo) (\<lambda>v.
     BDo (LogLine ''End sub1'') (BReturn NoValue)))"

definition NestedEcho :: "echo_env \<Rightarrow> 'c channel_provider \<Rightarrow> echo_body" where
  "NestedEcho env m_echo = BDo (LogLine ''Start'') (BAwait (NestedEcho_sub1 env m_echo) (\<lambda>v.
     BDo (LogLine ''End'') (BReturn NoValue)))"

section \<open>UnaryEcho and ClientStreamEcho\<close>

type_synonym ('c, 'a) echo_co = "(echo_request, echo_response, 'a \<times> 'c channel_provider) client_co"

definition log_then :: "string \<Rightarrow> ('q, 's, 'a) client_co \<Rightarrow> ('q, 's, 'a) client_co" where
  "log_then line c = Do (LogLine line) c"

text \<open>
  The line the retry policy of \<open>UnaryEcho\<close> prints.  A status code outside gRPC's enumeration,
  which \<open>to_string\<close> refuses, prints as nothing here.
\<close>

definition status_text :: "echo_env \<Rightarrow> status \<Rightarrow> string" where
  "status_text env st = (case print_status (echo_code env) st of Ok text \<Rightarrow> text | _ \<Rightarrow> '''')"

definition UnaryEcho_policy :: "echo_env \<Rightarrow> status \<Rightarrow> bool \<Rightarrow> client_effect list" where
  "UnaryEcho_policy env st sent = [LogLine (''Got ['' @ status_text env st @
     (if sent then ''] will '' else ''] will not '') @ ''retry'')]"

definition UnaryEcho :: "echo_env \<Rightarrow> 'c channel_provider \<Rightarrow> ('c, unit) echo_co" where
  "UnaryEcho env m_echo = (let request = UnaryEchoRequest ''hello'' in
     log_then ''Start'' (
     log_then (''Sending '' @ bracket (debug_request env request)) (
     co_bind (AutoRetryUnary (UnaryEcho_policy env) (echo_clock env) m_echo 0 request (UnaryEchoResponse '''') Status_OK)
       (\<lambda>((done, response, st), p). co_bind
         (if done then co_bind (co_outcome (received_line env '' '' st response)) (\<lambda>line. log_then line (Return ()))
          else log_then ''Cancelled'' (Return ()))
         (\<lambda>u. log_then ''End'' (Return ((), p)))))))"

text \<open>The three messages \<open>ClientStreamEcho\<close> writes, each with the buffer hint set.\<close>

fun ClientStreamEcho_writes :: "echo_env \<Rightarrow> call \<Rightarrow> string list \<Rightarrow> (echo_request, echo_response, bool) client_co" where
  "ClientStreamEcho_writes env call [] = Return True"
| "ClientStreamEcho_writes env call (msg # msgs) = (let request = ClientStreamEchoRequest msg in
     log_then (''Sending '' @ bracket (debug_request env request)) (
     co_bind (ClientClientStreamCall_Write_options call request True) (\<lambda>done.
       if done then ClientStreamEcho_writes env call msgs else Return False)))"

text \<open>\<open>response\<close> is written when the call finishes, by the completion of \<open>Finish\<close>.\<close>

definition ClientStreamEcho :: "echo_env \<Rightarrow> 'c channel_provider \<Rightarrow> ('c, unit) echo_co" where
  "ClientStreamEcho env m_echo = (let cancelled = (\<lambda>p. log_then ''Cancelled'' (Return ((), p))) in
     log_then ''Start'' (Do NewContext (
     co_bind (CallClientStream m_echo) (\<lambda>(started_call, p). case started_call of
       None \<Rightarrow> cancelled p
     | Some call \<Rightarrow> co_bind (ClientStreamEcho_writes env call [''Hello!'', ''World!'', ''Bye!'']) (\<lambda>written_all.
         if \<not> written_all then cancelled p
         else log_then ''Closing write stream'' (
           co_bind (ClientClientStreamCall_WritesDone call) (\<lambda>done.
           if \<not> done then cancelled p
           else log_then ''Awaiting response'' (
             co_bind (ClientClientStreamCall_Finish call (ClientStreamEchoResponse []) Status_OK) (\<lambda>(done, response, st).
             co_bind (if \<not> done then log_then ''Cancelled'' (Return ())
                else co_bind (co_outcome (received_line env [] st response)) (\<lambda>line. log_then line (Return ())))
               (\<lambda>u. log_then ''End'' (Return ((), p))))))))))))"

section \<open>Choosing a command\<close>

datatype command = CmdNoop | CmdNestedEcho | CmdUnaryEcho | CmdClientStreamEcho | CmdServerStreamEcho | CmdBidirectionalStreamEcho

text \<open>\<open>m_handlers\<close> is a \<^verbatim>\<open>std::map\<close>: its entries come in the order of their names.\<close>

definition m_handlers :: "(string \<times> command) list" where
  "m_handlers = [(''BidirectionalStreamEcho'', CmdBidirectionalStreamEcho), (''ClientStreamEcho'', CmdClientStreamEcho),
     (''NestedEcho'', CmdNestedEcho), (''Noop'', CmdNoop), (''ServerStreamEcho'', CmdServerStreamEcho),
     (''UnaryEcho'', CmdUnaryEcho)]"

definition AvailableCommands :: "string list" where
  "AvailableCommands = map fst m_handlers"

text \<open>\<open>Process\<close> starts the first handler whose name the line starts with.\<close>

definition Process :: "string \<Rightarrow> command option" where
  "Process line = map_option snd (find (\<lambda>(name, handler). prefix name line) m_handlers)"

datatype main_action = Ready | Help string | Started command | UnknownCommand

fun join_commands :: "string \<Rightarrow> string list \<Rightarrow> string" where
  "join_commands delim [] = []"
| "join_commands delim (cmd # cmds) = delim @ cmd @ join_commands '', '' cmds"

text \<open>The loop of \<open>main\<close> over the lines of the standard input.\<close>

fun main_loop :: "string list \<Rightarrow> main_action list" where
  "main_loop [] = []"
| "main_loop (line # lines) = (if line = ''quit'' then []
     else if line = ''help'' then Help (''Available commands: '' @ join_commands [] AvailableCommands) # main_loop lines
     else (case Process line of Some c \<Rightarrow> Started c | None \<Rightarrow> UnknownCommand) # main_loop lines)"

definition main :: "string list \<Rightarrow> main_action list" where
  "main input = Ready # main_loop input"

lemma find_unique:
  "distinct xs \<Longrightarrow> (\<And>x y. x \<in> set xs \<Longrightarrow> y \<in> set xs \<Longrightarrow> P x \<Longrightarrow> P y \<Longrightarrow> x = y) \<Longrightarrow> x \<in> set xs \<Longrightarrow> P x \<Longrightarrow> find P xs = Some x"
  by (induction xs) auto

lemma handlers_incomparable:
  "h \<in> set m_handlers \<Longrightarrow> h' \<in> set m_handlers \<Longrightarrow> prefix (fst h) line \<Longrightarrow> prefix (fst h') line \<Longrightarrow> h = h'"
proof -
  have "\<forall>h \<in> set m_handlers. \<forall>h' \<in> set m_handlers. prefix (fst h) (fst h') \<longrightarrow> h = h'" by code_simp
  then show "h \<in> set m_handlers \<Longrightarrow> h' \<in> set m_handlers \<Longrightarrow> prefix (fst h) line \<Longrightarrow> prefix (fst h') line \<Longrightarrow> h = h'"
    using prefix_same_cases [of "fst h" line "fst h'"] by blast
qed

lemma find_member: "find P xs = Some x \<Longrightarrow> x \<in> set xs \<and> P x"
  by (induction xs) (auto split: if_splits)

section \<open>Properties\<close>

text \<open>
  A line starts the command whose name it begins with, whatever the order of the table: no
  name is a prefix of another one, so there is never a choice.
\<close>

theorem process_dispatch:
  "Process line = Some c \<longleftrightarrow> (\<exists>name. (name, c) \<in> set m_handlers \<and> prefix name line)"
proof
  assume "Process line = Some c"
  then obtain name where "find (\<lambda>(name, handler). prefix name line) m_handlers = Some (name, c)"
    by (auto simp: Process_def)
  then show "\<exists>name. (name, c) \<in> set m_handlers \<and> prefix name line"
    by (auto dest: find_member)
next
  assume "\<exists>name. (name, c) \<in> set m_handlers \<and> prefix name line"
  then obtain name where name: "(name, c) \<in> set m_handlers" "prefix name line" by blast
  have "find (\<lambda>(name, handler). prefix name line) m_handlers = Some (name, c)"
  proof (rule find_unique)
    show "distinct m_handlers" by (simp add: m_handlers_def)
    show "x = y" if "x \<in> set m_handlers" "y \<in> set m_handlers" "case x of (name, handler) \<Rightarrow> prefix name line"
        "case y of (name, handler) \<Rightarrow> prefix name line" for x y
      using handlers_incomparable [OF that(1,2), of line] that(3,4) by (simp add: case_prod_beta)
  qed (use name in simp_all)
  then show "Process line = Some c" by (simp add: Process_def)
qed

lemma CallUnary_tree:
  "m_channels p \<noteq> [] \<Longrightarrow> embed g (CallUnary p q response st) = BSubmit (attempt p q)
     (\<lambda>c. BReturn (g ((ok c, written response (reply c), written st (reply_status c)), next_channel p)))"
  by (simp add: CallUnary_eq attempt_def next_channel_def)

text \<open>
  A nested echo, on the machine.  Its four tasks (the command, two nested ones and the
  call) submit one operation; when that completes, the lines come out in the order of the call
  stack, and the job is gone.
\<close>

theorem nested_echo_prints:
  assumes "m_channels p \<noteq> []" and "fresh_above w"
    and "received_line env '' '' (written Status_OK (reply_status c)) (written (UnaryEchoResponse []) (reply c)) = Ok line"
  shows "\<exists>n w1 w2. (\<forall>m \<ge> n. Spawn body_prog m e (NestedEcho env p) w = Ok w1) \<and> serves body_prog w1 [c] w2 \<and>
     shared w2 = shared w @ [LogLine ''Start'', LogLine ''Start sub1'', LogLine ''Start sub2'', NewContext,
       LogLine (''Sending '' @ bracket (debug_request env (UnaryEchoRequest ''hello''))),
       LogLine (if ok c then line else ''Cancelled''),
       LogLine ''End sub2'', LogLine ''End sub1'', LogLine ''End''] \<and>
     ops_of w2 = ops_of w @ [attempt p (UnaryEchoRequest ''hello'')] \<and> heap w2 (fresh w) = None"
proof -
  have "co_run (flatten (NestedEcho env p)) [c] = ([LogLine ''Start'', LogLine ''Start sub1'', LogLine ''Start sub2'',
      NewContext, LogLine (''Sending '' @ bracket (debug_request env (UnaryEchoRequest ''hello''))),
      LogLine (if ok c then line else ''Cancelled''), LogLine ''End sub2'', LogLine ''End sub1'', LogLine ''End''],
     [attempt p (UnaryEchoRequest ''hello'')], CoReturned NoValue [])"
    using assms(3)
    by (simp add: NestedEcho_def NestedEcho_sub1_def NestedEcho_sub2_def CallUnary_tree [OF assms(1)] Let_def)
  from body_refines_tree [OF this _ assms(2), of e] show ?thesis by simp
qed

definition plain_env :: echo_env where
  "plain_env = \<lparr>debug_request = (\<lambda>q. ''request''), debug_response = (\<lambda>s. ''response''), echo_code = (\<lambda>c. 0), echo_clock = (\<lambda>n. 0)\<rparr>"

theorem nested_echo_prints_witness:
  "\<exists>n w1 w2. (\<forall>m \<ge> n. Spawn body_prog m 0 (NestedEcho plain_env (ChannelProvider_one ())) (empty_world []) = Ok w1) \<and>
     serves body_prog w1 [\<lparr>ok = True, reply = None, reply_status = Some (Status ABORTED ''no''), started = 0\<rparr>] w2 \<and>
     LogLine ''Received [ABORTED(0): no]'' \<in> set (shared w2)"
proof -
  have p: "m_channels (ChannelProvider_one ()) \<noteq> []" by (simp add: ChannelProvider_one_def)
  have fa: "fresh_above (empty_world [])" by (simp add: fresh_above_def empty_world_def)
  let ?c = "\<lparr>ok = True, reply = None, reply_status = Some (Status ABORTED ''no''), started = 0\<rparr> :: echo_response completion"
  have "received_line plain_env '' '' (written Status_OK (reply_status ?c)) (written (UnaryEchoResponse []) (reply ?c)) =
      Ok ''Received [ABORTED(0): no]''"
    by (simp add: received_line_def print_status_def print_code_def plain_env_def code_int_def show_int_def
        show_nat.simps digit_def bracket_def) (simp add: char_of_def bit_simps)
  from nested_echo_prints [OF p fa this, of 0] show ?thesis by fastforce
qed

text \<open>
  \<open>ClientStreamEcho\<close> stops at the first failure.  Its operations are the start of the
  stream, the three messages in order, the end of the writes and the finish, up to and with the
  first one whose completion is not \<open>ok\<close>; nothing is submitted after that.
\<close>

definition client_stream_schedule :: "'c channel_provider \<Rightarrow> call \<Rightarrow> echo_request client_op list" where
  "client_stream_schedule p call =
     [StartClientStream (unat (m_nextChannel p + 1) mod length (m_channels p)),
      StreamWrite call (ClientStreamEchoRequest ''Hello!'') (Some True),
      StreamWrite call (ClientStreamEchoRequest ''World!'') (Some True),
      StreamWrite call (ClientStreamEchoRequest ''Bye!'') (Some True),
      StreamWritesDone call, StreamFinish call]"

lemma co_run_co_outcome [simp]: "fst (snd (co_run (co_bind (co_outcome x) f) xs)) =
    (case x of Ok a \<Rightarrow> fst (snd (co_run (f a) xs)) | _ \<Rightarrow> [])"
  by (cases x) simp_all

theorem client_stream_stops:
  assumes "m_channels p \<noteq> []"
  shows "fst (snd (co_run (ClientStreamEcho env p) xs)) =
     take (Suc (length (takeWhile ok xs))) (client_stream_schedule p (started (hd xs)))"
proof -
  have tree: "ClientStreamEcho env p = log_then ''Start'' (Do NewContext (Submit
      (StartClientStream (unat (m_nextChannel p + 1) mod length (m_channels p))) (\<lambda>c. co_bind
        (Return (if ok c then Some (started c) else None, next_channel p))
        (\<lambda>(started_call, p). case started_call of None \<Rightarrow> log_then ''Cancelled'' (Return ((), p))
          | Some call \<Rightarrow> co_bind (ClientStreamEcho_writes env call [''Hello!'', ''World!'', ''Bye!'']) (\<lambda>written_all.
             if \<not> written_all then log_then ''Cancelled'' (Return ((), p))
             else log_then ''Closing write stream'' (
               co_bind (ClientClientStreamCall_WritesDone call) (\<lambda>done.
               if \<not> done then log_then ''Cancelled'' (Return ((), p))
               else log_then ''Awaiting response'' (
                 co_bind (ClientClientStreamCall_Finish call (ClientStreamEchoResponse []) Status_OK) (\<lambda>(done, response, st).
                 co_bind (if \<not> done then log_then ''Cancelled'' (Return ())
                    else co_bind (co_outcome (received_line env [] st response)) (\<lambda>line. log_then line (Return ())))
                   (\<lambda>u. log_then ''End'' (Return ((), p))))))))))))"
    unfolding ClientStreamEcho_def CallClientStream_def start_stream_eq [OF assms] Let_def by simp
  have submit: "fst (snd (co_run (Submit op k) xs)) =
      op # (case xs of [] \<Rightarrow> [] | x # xs' \<Rightarrow> fst (snd (co_run (k x) xs')))" for op k and xs :: "echo_response completion list"
    by (simp split: list.split prod.split)
  have effect: "fst (snd (co_run (Do e c) xs)) = fst (snd (co_run c xs))" for e c and xs :: "echo_response completion list"
    by (simp split: prod.split)
  have last: "(case xs of [] \<Rightarrow> [] | x # xs' \<Rightarrow> []) = []" for xs :: "echo_response completion list"
    by (cases xs) simp_all
  have tail: "fst (snd (co_run (co_bind (co_bind (co_outcome o1) (\<lambda>line. Do (e line) (Return ()))) (\<lambda>u. Do e' (Return a))) xs)) = []"
    for o1 :: "string outcome" and e e' a and xs :: "echo_response completion list"
    by (cases o1) simp_all
  show ?thesis
    by (simp add: tree log_then_def call_ops submit effect Let_def client_stream_schedule_def last tail if_distrib
        if_distribR case_prod_beta del: co_run.simps(2,3) split: list.split outcome.split cong: list.case_cong)
qed

theorem client_stream_stops_witness:
  "fst (snd (co_run (ClientStreamEcho plain_env (ChannelProvider_one ()))
     [\<lparr>ok = True, reply = None, reply_status = None, started = 7\<rparr>, \<lparr>ok = False, reply = None, reply_status = None, started = 0\<rparr>])) =
   [StartClientStream 0, StreamWrite 7 (ClientStreamEchoRequest ''Hello!'') (Some True)]"
proof -
  have p: "m_channels (ChannelProvider_one ()) \<noteq> []" by (simp add: ChannelProvider_one_def)
  show ?thesis unfolding client_stream_stops [OF p]
    by (simp add: client_stream_schedule_def ChannelProvider_one_def)
qed

end
