(* ===== verification/EchoStreams.thy ===== *)
theory EchoStreams
  imports EchoClient
begin

text \<open>
  The two commands of the echo client that loop over a stream, as programs of the coroutine
  machine: \<open>ServerStreamEcho\<close>, and \<open>BidirectionalStreamEcho\<close> with its read subroutine.  A point
  is where the body stands, with its locals; the shared state is the client and what was
  printed.
\<close>

record echo_state =
  m_echo :: "unit channel_provider"
  printed :: "client_effect list"

definition put :: "string \<Rightarrow> echo_state \<Rightarrow> echo_state" where
  "put line s = s\<lparr>printed := printed s @ [LogLine line]\<rparr>"

definition effect :: "client_effect \<Rightarrow> echo_state \<Rightarrow> echo_state" where
  "effect e s = s\<lparr>printed := printed s @ [e]\<rparr>"

datatype stream_point =
    SS_Begin
  | SS_Call channel
  | SS_StartRead call
  | SS_Read call echo_response
  | SS_Got call echo_response
  | SS_ReadDone call
  | SS_Finish call
  | SS_Finished bool status
  | BS_Begin
  | BS_Call channel
  | BS_StartRead call
  | BS_Start call
  | BS_Send1 call hdl
  | BS_Write1 call hdl
  | BS_Send2 call hdl
  | BS_Write2 call hdl
  | BS_Wait call hdl
  | BS_Alarm call hdl
  | BS_Send3 call hdl
  | BS_Write3 call hdl
  | BS_Close call hdl
  | BS_WritesDone call hdl
  | BS_Stop hdl
  | BS_Join hdl
  | BS_CancelledLeaving hdl
  | BS_Leaving hdl
  | RS_Begin call
  | RS_Read call echo_response
  | RS_Got call echo_response
  | RS_Done
  | NoChannel
  | LogCancelled
  | LogEnd
  | CoEnd

text \<open>\<open>MakeStub\<close>: the channel the call goes to.\<close>

definition with_stub :: "(channel \<Rightarrow> stream_point) \<Rightarrow> echo_state \<Rightarrow> echo_state \<times> stream_point" where
  "with_stub call s = (case SelectNextChannel (m_echo s) of
      Ok (stub, p) \<Rightarrow> (s\<lparr>m_echo := p\<rparr>, call stub) | _ \<Rightarrow> (s, NoChannel))"

definition server_stream_request :: echo_request where
  "server_stream_request = ServerStreamEchoRequest ''hola'' 3 1000"

text \<open>
  The local \<open>readTask\<close> of \<open>BidirectionalStreamEcho\<close> is the handle in its points.  When the body
  returns, the destructor of \<open>readTask\<close> runs.
\<close>

fun stream_code :: "echo_env \<Rightarrow> stream_point \<Rightarrow> (stream_point, echo_request client_op, echo_response completion, unit, echo_state) action" where
  "stream_code env SS_Begin = CoStep (\<lambda>s. with_stub SS_Call
     (put (''Sending '' @ bracket (debug_request env server_stream_request)) (effect NewContext (put ''Start'' s))))"
| "stream_code env (SS_Call stub) = CoSuspend (StartServerStream stub server_stream_request)
     (\<lambda>c. if ok c then SS_StartRead (started c) else LogCancelled)"
| "stream_code env (SS_StartRead call) = CoStep (\<lambda>s. (put ''Start Read'' s, SS_Read call (ServerStreamEchoResponse [] 0)))"
| "stream_code env (SS_Read call response) = CoSuspend (StreamRead call)
     (\<lambda>c. if ok c then SS_Got call (written response (reply c)) else SS_ReadDone call)"
| "stream_code env (SS_Got call response) = CoStep (\<lambda>s.
     (put (''Received '' @ bracket (debug_response env response)) s, SS_Read call response))"
| "stream_code env (SS_ReadDone call) = CoStep (\<lambda>s. (put ''Read done, getting status...'' s, SS_Finish call))"
| "stream_code env (SS_Finish call) = CoSuspend (StreamFinish call)
     (\<lambda>c. SS_Finished (ok c) (written Status_OK (reply_status c)))"
| "stream_code env (SS_Finished done st) = (if done then (case print_status (echo_code env) st of
        Ok text \<Rightarrow> CoStep (\<lambda>s. (put (''Received '' @ bracket text) s, LogEnd))
      | Fault x \<Rightarrow> CoFault x | OutOfFuel \<Rightarrow> CoFault AssertFailed)
     else CoStep (\<lambda>s. (put ''Cancelled'' s, LogEnd)))"
| "stream_code env BS_Begin = CoStep (\<lambda>s. with_stub BS_Call (effect NewContext (put ''Start'' s)))"
| "stream_code env (BS_Call stub) = CoSuspend (StartBidirectional stub)
     (\<lambda>c. if ok c then BS_StartRead (started c) else LogCancelled)"
| "stream_code env (BS_StartRead call) = CoStep (\<lambda>s. (put ''Starting read subroutine...'' s, BS_Start call))"
| "stream_code env (BS_Start call) = CoStart (RS_Begin call) (BS_Send1 call)"
| "stream_code env (BS_Send1 call readTask) = CoStep (\<lambda>s.
     (put (''Sending '' @ bracket (debug_request env (BidirectionalMessage ''guten tag'' 1000))) s, BS_Write1 call readTask))"
| "stream_code env (BS_Write1 call readTask) = CoSuspend (StreamWrite call (BidirectionalMessage ''guten tag'' 1000) None)
     (\<lambda>c. if ok c then BS_Send2 call readTask else BS_CancelledLeaving readTask)"
| "stream_code env (BS_Send2 call readTask) = CoStep (\<lambda>s.
     (put (''Sending '' @ bracket (debug_request env BidirectionalStart)) s, BS_Write2 call readTask))"
| "stream_code env (BS_Write2 call readTask) = CoSuspend (StreamWrite call BidirectionalStart None)
     (\<lambda>c. if ok c then BS_Wait call readTask else BS_CancelledLeaving readTask)"
| "stream_code env (BS_Wait call readTask) = CoStep (\<lambda>s. (put ''Waiting'' s, BS_Alarm call readTask))"
| "stream_code env (BS_Alarm call readTask) = CoSuspend (AlarmOp (Alarm_Start (Alarm_new (echo_clock env 0 + 3500))))
     (\<lambda>c. if ok c then BS_Send3 call readTask else BS_CancelledLeaving readTask)"
| "stream_code env (BS_Send3 call readTask) = CoStep (\<lambda>s.
     (put (''Sending '' @ bracket (debug_request env BidirectionalStop)) s, BS_Write3 call readTask))"
| "stream_code env (BS_Write3 call readTask) = CoSuspend (StreamWrite call BidirectionalStop None)
     (\<lambda>c. if ok c then BS_Close call readTask else BS_CancelledLeaving readTask)"
| "stream_code env (BS_Close call readTask) = CoStep (\<lambda>s. (put ''Closing write stream'' s, BS_WritesDone call readTask))"
| "stream_code env (BS_WritesDone call readTask) = CoSuspend (StreamWritesDone call)
     (\<lambda>c. if ok c then BS_Stop readTask else BS_CancelledLeaving readTask)"
| "stream_code env (BS_Stop readTask) = CoStep (\<lambda>s. (effect TryCancel (put ''Stopping subroutine'' s), BS_Join readTask))"
| "stream_code env (BS_Join readTask) = CoAwaitTask readTask (KVoid LogEnd)"
| "stream_code env (BS_CancelledLeaving readTask) = CoStep (\<lambda>s. (put ''Cancelled'' s, BS_Leaving readTask))"
| "stream_code env (BS_Leaving readTask) = (case Task_destroy (Task_of_promise readTask) of
      Ok u \<Rightarrow> CoReturnVoid | Fault x \<Rightarrow> CoFault x | OutOfFuel \<Rightarrow> CoFault AssertFailed)"
| "stream_code env (RS_Begin call) = CoStep (\<lambda>s. (put ''Read subroutine started'' s, RS_Read call (BidirectionalStreamEchoResponse [])))"
| "stream_code env (RS_Read call response) = CoSuspend (StreamRead call)
     (\<lambda>c. if ok c then RS_Got call (written response (reply c)) else RS_Done)"
| "stream_code env (RS_Got call response) = CoStep (\<lambda>s.
     (put (''Received '' @ bracket (debug_response env response)) s, RS_Read call response))"
| "stream_code env RS_Done = CoStep (\<lambda>s. (put ''Read subroutine done'' s, CoEnd))"
| "stream_code env NoChannel = CoFault DivisionByZero"
| "stream_code env LogCancelled = CoStep (\<lambda>s. (put ''Cancelled'' s, CoEnd))"
| "stream_code env LogEnd = CoStep (\<lambda>s. (put ''End'' s, CoEnd))"
| "stream_code env CoEnd = CoReturnVoid"

definition stream_prog :: "echo_env \<Rightarrow> (stream_point, echo_request client_op, echo_response completion, unit, echo_state) prog" where
  "stream_prog env = \<lparr>code = stream_code env, mode = (\<lambda>_. Immediate)\<rparr>"

section \<open>ServerStreamEcho\<close>

text \<open>The completions of a stream: a message, the end of the messages, the final status.\<close>

definition got :: "'s \<Rightarrow> 's completion" where
  "got m = \<lparr>ok = True, reply = Some m, reply_status = None, started = 0\<rparr>"

definition stream_ended :: "'s completion" where
  "stream_ended = \<lparr>ok = False, reply = None, reply_status = None, started = 0\<rparr>"

definition finished :: "status \<Rightarrow> 's completion" where
  "finished st = \<lparr>ok = True, reply = None, reply_status = Some st, started = 0\<rparr>"

definition stream_started :: "call \<Rightarrow> 's completion" where
  "stream_started call = \<lparr>ok = True, reply = None, reply_status = None, started = call\<rparr>"

lemma stream_completions [simp]:
  "ok (got m)" "reply (got m) = Some m" "\<not> ok stream_ended" "ok (finished st)" "reply_status (finished st) = Some st"
  "ok (stream_started call)" "started (stream_started call) = call"
  by (simp_all add: got_def stream_ended_def finished_def stream_started_def)

text \<open>One step of a body of this program on the abstract call stack.\<close>

lemma eval_stream:
  "eval (stream_prog env) (Body pc) s s' r \<longleftrightarrow> (case stream_code env pc of
      CoStep f \<Rightarrow> eval (stream_prog env) (Body (snd (f s))) (fst (f s)) s' r
    | CoSuspend op k \<Rightarrow> s' = s \<and> r = Blocked op (\<lambda>c. Body (k c)) []
    | CoReturnVoid \<Rightarrow> s' = s \<and> r = Returned None
    | _ \<Rightarrow> eval (stream_prog env) (Body pc) s s' r)"
proof -
  have "fetch (stream_prog env) (Body pc) = map_action Body id (stream_code env pc)"
    by (simp add: stream_prog_def)
  then show ?thesis
    by (cases "stream_code env pc") (simp_all add: eval_inversion comp_def)
qed

lemma eval_End: "eval (stream_prog env) (Body LogEnd) s (put ''End'' s) (Returned None)"
  by (subst eval_stream, simp, subst eval_stream, simp)

definition reading :: "call \<Rightarrow> echo_response \<Rightarrow> ((stream_point, unit) point, echo_request client_op, echo_response completion, unit) stop" where
  "reading call response = Blocked (StreamRead call)
     (\<lambda>c. Body (if ok c then SS_Got call (written response (reply c)) else SS_ReadDone call)) []"

lemma eval_Read: "eval (stream_prog env) (Body (SS_Read call response)) s s (reading call response)"
  by (subst eval_stream) (simp add: reading_def)

lemma eval_Got:
  "eval (stream_prog env) (Body (SS_Got call response)) s
     (put (''Received '' @ bracket (debug_response env response)) s) (reading call response)"
  by (subst eval_stream) (simp add: eval_Read)

lemma eval_ReadDone:
  "eval (stream_prog env) (Body (SS_ReadDone call)) s (put ''Read done, getting status...'' s)
     (Blocked (StreamFinish call) (\<lambda>c. Body (SS_Finished (ok c) (written Status_OK (reply_status c)))) [])"
  by (subst eval_stream, simp, subst eval_stream, simp)

lemma eval_Finished:
  assumes "print_status (echo_code env) st = Ok text"
  shows "eval (stream_prog env) (Body (SS_Finished True st)) s (put ''End'' (put (''Received '' @ bracket text) s)) (Returned None)"
  by (subst eval_stream) (simp add: assms eval_End)

lemma read_conversation:
  assumes "print_status (echo_code env) st = Ok text"
  shows "conversation (stream_prog env) s (reading call response) (map got ms @ [stream_ended, finished st])
     (s\<lparr>printed := printed s @ map (\<lambda>m. LogLine (''Received '' @ bracket (debug_response env m))) ms @
        [LogLine ''Read done, getting status...'', LogLine (''Received '' @ bracket text), LogLine ''End'']\<rparr>)
     (Returned None) (replicate (length ms) (StreamRead call) @ [StreamFinish call])"
proof (induction ms arbitrary: s response)
  case Nil
  let ?f = "\<lambda>c. Body (SS_Finished (ok c) (written Status_OK (reply_status c)))"
  let ?s1 = "put ''Read done, getting status...'' s"
  have e: "unwind (stream_prog env) (Body (SS_ReadDone call)) [] s ?s1 (Blocked (StreamFinish call) ?f [])"
    by (rule unwind_top) (rule eval_ReadDone)
  have "unwind (stream_prog env) (?f (finished st)) [] ?s1 (put ''End'' (put (''Received '' @ bracket text) ?s1)) (Returned None)"
    using unwind_finished [OF eval_Finished [OF assms]] by simp
  from converse_complete [where kr = ?f and x = "finished st" and op = "StreamFinish call", OF this converse_stop]
  have "conversation (stream_prog env) ?s1 (Blocked (StreamFinish call) ?f []) [finished st]
      (put ''End'' (put (''Received '' @ bracket text) ?s1)) (Returned None) []" by simp
  from converse_complete [where x = stream_ended and op = "StreamRead call" and ks = "[]" and
      kr = "\<lambda>c. Body (if ok c then SS_Got call (written response (reply c)) else SS_ReadDone call)", OF _ this] e
  show ?case by (simp add: reading_def put_def)
next
  case (Cons m ms)
  let ?s1 = "put (''Received '' @ bracket (debug_response env m)) s"
  have "unwind (stream_prog env) (Body (SS_Got call m)) [] s ?s1 (reading call m)"
    unfolding reading_def by (rule unwind_top) (rule eval_Got [unfolded reading_def])
  with converse_complete [where x = "got m" and op = "StreamRead call" and ks = "[]" and
      kr = "\<lambda>c. Body (if ok c then SS_Got call (written response (reply c)) else SS_ReadDone call)", OF _ Cons.IH [of ?s1 m]]
  show ?case by (simp add: reading_def put_def)
qed

text \<open>
  \<open>ServerStreamEcho\<close> prints every message.  However many messages the server sends before
  it ends the stream, the job reads until then, prints them in order, then asks for the status
  and prints it, and is destroyed at the end.
\<close>

theorem server_stream_prints:
  assumes "fresh_above w" and "m_channels (m_echo (shared w)) \<noteq> []"
    and "print_status (echo_code env) st = Ok text"
  shows "\<exists>n w1 w2. (\<forall>m \<ge> n. Spawn (stream_prog env) m e SS_Begin w = Ok w1) \<and>
     serves (stream_prog env) w1 (stream_started call # map got ms @ [stream_ended, finished st]) w2 \<and>
     printed (shared w2) = printed (shared w) @ [LogLine ''Start'', NewContext,
        LogLine (''Sending '' @ bracket (debug_request env server_stream_request)), LogLine ''Start Read''] @
        map (\<lambda>m. LogLine (''Received '' @ bracket (debug_response env m))) ms @
        [LogLine ''Read done, getting status...'', LogLine (''Received '' @ bracket text), LogLine ''End''] \<and>
     length (ops_of w2) = length (ops_of w) + length ms + 3 \<and> heap w2 (fresh w) = None"
proof -
  let ?P = "stream_prog env" and ?s = "shared w"
  obtain stub p where sel: "SelectNextChannel (m_echo ?s) = Ok (stub, p)"
    using assms(2) by (auto simp: SelectNextChannel_def Let_def)
  let ?begun = "put (''Sending '' @ bracket (debug_request env server_stream_request)) (effect NewContext (put ''Start'' ?s))"
  let ?s1 = "?begun\<lparr>m_echo := p\<rparr>"
  let ?kr = "\<lambda>c. Body (if ok c then SS_StartRead (started c) else LogCancelled)"
  have call: "eval ?P (Body (SS_Call stub)) ?s1 ?s1 (Blocked (StartServerStream stub server_stream_request) ?kr [])"
    by (subst eval_stream) simp
  have start: "eval ?P (Body SS_Begin) ?s ?s1 (Blocked (StartServerStream stub server_stream_request) ?kr [])"
  proof -
    have stub: "with_stub SS_Call ?begun = (?s1, SS_Call stub)"
      by (simp add: with_stub_def put_def effect_def sel)
    show ?thesis
      by (rule iffD2 [OF eval_stream]) (simp only: stream_code.simps action.case stub fst_conv snd_conv call)
  qed
  let ?s2 = "put ''Start Read'' ?s1"
  have "eval ?P (Body (SS_StartRead call)) ?s1 ?s2 (reading call (ServerStreamEchoResponse [] 0))"
    by (subst eval_stream) (simp add: eval_Read)
  then have "unwind ?P (?kr (stream_started call)) [] ?s1 ?s2 (reading call (ServerStreamEchoResponse [] 0))"
    unfolding reading_def by (simp add: unwind_top)
  from converse_complete [where kr = ?kr and op = "StartServerStream stub server_stream_request",
      OF this read_conversation [OF assms(3), of ?s2 call _ ms]]
  have conv: "conversation ?P ?s1 (Blocked (StartServerStream stub server_stream_request) ?kr [])
      (stream_started call # map got ms @ [stream_ended, finished st])
      (?s2\<lparr>printed := printed ?s2 @ map (\<lambda>m. LogLine (''Received '' @ bracket (debug_response env m))) ms @
        [LogLine ''Read done, getting status...'', LogLine (''Received '' @ bracket text), LogLine ''End'']\<rparr>)
      (Returned None) (StreamRead call # replicate (length ms) (StreamRead call) @ [StreamFinish call])"
    by (simp add: reading_def)
  have "mode ?P e = Immediate" by (simp add: stream_prog_def)
  from spawned_job_refines [OF this assms(1) start conv] show ?thesis
    by (fastforce simp: represents_def put_def effect_def)
qed

lemma plain_status_OK: "print_status (echo_code plain_env) Status_OK = Ok ''OK(0)''"
  by (simp add: print_status_def print_code_def plain_env_def code_int_def show_int_def show_nat.simps digit_def
      Status_OK_def status_ok_def) (simp add: char_of_def bit_simps)

theorem server_stream_prints_witness:
  "\<exists>n w1 w2. (\<forall>m \<ge> n. Spawn (stream_prog plain_env) m 0 SS_Begin
       (empty_world \<lparr>m_echo = ChannelProvider_one (), printed = []\<rparr>) = Ok w1) \<and>
     serves (stream_prog plain_env) w1 [stream_started 3, got (ServerStreamEchoResponse ''hola'' 1), stream_ended, finished Status_OK] w2 \<and>
     length (ops_of w2) = 4 \<and> heap w2 0 = None"
proof -
  let ?w = "empty_world \<lparr>m_echo = ChannelProvider_one (), printed = []\<rparr>
    :: (stream_point, echo_request client_op, echo_response completion, unit, echo_state) machine"
  have w: "fresh_above ?w" "fresh ?w = 0" "ops_of ?w = []"
    by (simp_all add: empty_world_def fresh_above_def ops_of_def)
  have p: "m_channels (m_echo (shared ?w)) \<noteq> []" by (simp add: empty_world_def ChannelProvider_one_def)
  from server_stream_prints [OF w(1) p plain_status_OK, of 0 3 "[ServerStreamEchoResponse ''hola'' 1]"] show ?thesis
    unfolding w(2,3) by fastforce
qed

section \<open>BidirectionalStreamEcho\<close>

text \<open>The points where the body waits while its read subroutine is alive.\<close>

definition writing_points :: "call \<Rightarrow> hdl \<Rightarrow> stream_point list" where
  "writing_points call readTask = [BS_Write1 call readTask, BS_Write2 call readTask, BS_Alarm call readTask,
     BS_Write3 call readTask, BS_WritesDone call readTask]"

lemma leaving_fetch:
  "fetch (stream_prog env) (Body (BS_CancelledLeaving t)) = CoStep (\<lambda>s. (put ''Cancelled'' s, Body (BS_Leaving t)))"
  "fetch (stream_prog env) (Body (BS_Leaving t)) = CoFault AssertFailed"
  by (simp_all add: stream_prog_def Task_destroy_def Task_of_promise_def fun_eq_iff)

lemma leaving_run:
  "run_body (stream_prog env) (exec_call (stream_prog env) (Suc n)) h (Body (BS_CancelledLeaving t)) w = Fault AssertFailed"
  by (simp only: exec_call_unfold run_body_def leaving_fetch action.case prod.case)

lemma cancelled_resume:
  assumes "pt \<in> set (writing_points call t)" and "stream_code env pt = CoSuspend op k" and "\<not> ok c"
    and "heap w h = Some f" and "status f = AwOp None (\<lambda>c. Body (k c))"
  shows "Resume (stream_prog env) (Suc (Suc (Suc (Suc n)))) h (complete h c w) = Fault AssertFailed"
proof -
  have k: "k c = BS_CancelledLeaving t" using assms(1-3) by (auto simp: writing_points_def)
  have "heap (complete h c w) h = Some (f\<lparr>status := AwOp (Some c) (\<lambda>c. Body (k c))\<rparr>)"
    using assms(4,5) by (simp add: complete_def on_frame_def)
  then show ?thesis
    by (simp add: exec_call_unfold Resume_body_def resume_handle_body_def k leaving_run del: exec_call.simps)
qed

text \<open>
  C37. Leaving early.  When the completion of a write, of the alarm or of \<open>WritesDone\<close> is not \<open>ok\<close>, the body
  prints a line and returns, and the destructor of its task \<open>readTask\<close>, which nobody awaited,
  fails its assertion: the program aborts, whatever the read subroutine did.
\<close>

theorem bidi_client_aborts:
  assumes "pt \<in> set (writing_points call t)" and "stream_code env pt = CoSuspend op k" and "\<not> ok c"
    and "heap w h = Some f" and "status f = AwOp None (\<lambda>c. Body (k c))" and "4 \<le> n"
  shows "Resume (stream_prog env) n h (complete h c w) = Fault AssertFailed"
proof -
  obtain m where "n = 4 + m" using le_Suc_ex [OF assms(6)] by blast
  then have "n = Suc (Suc (Suc (Suc m)))" by simp
  with cancelled_resume [OF assms(1-5)] show ?thesis by (simp only:)
qed

lemma bidi_starts:
  "\<exists>w1 w2 f. Spawn (stream_prog plain_env) 20 0 BS_Begin (empty_world \<lparr>m_echo = ChannelProvider_one (), printed = []\<rparr>) = Ok w1 \<and>
    Resume (stream_prog plain_env) 20 0 (complete 0 (stream_started 3) w1) = Ok w2 \<and> heap w2 0 = Some f \<and>
    status f = AwOp None (\<lambda>c. Body (if ok c then BS_Send2 3 1 else BS_CancelledLeaving 1))"
  by (simp add: Spawn_def world_defs eval_nat_numeral exec_call_unfold call_defs resume_handle_body_def run_body_def stream_prog_def
      with_stub_def SelectNextChannel_def ChannelProvider_one_def put_def effect_def comp_def map_prod_def del: exec_call.simps) (auto simp: fun_eq_iff numeral_3_eq_3)

theorem bidi_client_aborts_witness:
  "\<exists>w1 w2. Spawn (stream_prog plain_env) 20 0 BS_Begin (empty_world \<lparr>m_echo = ChannelProvider_one (), printed = []\<rparr>) = Ok w1 \<and>
    Resume (stream_prog plain_env) 20 0 (complete 0 (stream_started 3) w1) = Ok w2 \<and>
    Resume (stream_prog plain_env) 20 0 (complete 0 stream_ended w2) = Fault AssertFailed"
proof -
  from bidi_starts obtain w1 w2 f where
    w: "Spawn (stream_prog plain_env) 20 0 BS_Begin (empty_world \<lparr>m_echo = ChannelProvider_one (), printed = []\<rparr>) = Ok w1"
      "Resume (stream_prog plain_env) 20 0 (complete 0 (stream_started 3) w1) = Ok w2"
    and f: "heap w2 0 = Some f" "status f = AwOp None (\<lambda>c. Body (if ok c then BS_Send2 3 1 else BS_CancelledLeaving 1))" by blast
  have "BS_Write1 3 1 \<in> set (writing_points 3 1)" by (simp add: writing_points_def)
  from bidi_client_aborts [OF this stream_code.simps(14) _ f, of stream_ended 20] w show ?thesis by auto
qed

end
