(* ===== verification/EchoService.thy ===== *)
theory EchoService
  imports Server EchoClient
begin

text \<open>
  The echo service, \<^verbatim>\<open>async_grpc/server/echo_service_impl.cpp\<close>: the handlers of its unary, client
  stream and server stream methods as handlers of the server program of \<open>Server\<close>.  The points of
  the handler of the bidirectional method are a parameter here; it is a machine of two routines
  of its own, in \<open>EchoBidi\<close>.
\<close>

record echo_server = server +
  echo_log :: "string list"

definition print :: "string \<Rightarrow> 'a echo_server_scheme \<Rightarrow> 'a echo_server_scheme" where
  "print line s = s\<lparr>echo_log := echo_log s @ [line]\<rparr>"

datatype echo_method = MUnaryEcho | MClientStreamEcho | MServerStreamEcho | MBidirectionalStreamEcho

datatype 'b echo_point =
    UnaryEchoImpl echo_request
  | UnaryReply echo_response
  | UnaryEnd
  | ClientStreamEchoImpl
  | ClientStreamRead "string list"
  | ClientStreamGot "string list" echo_request
  | ClientStreamReply "string list"
  | ClientStreamFinish "string list"
  | ClientStreamEnd
  | ServerStreamEchoImpl echo_request
  | ServerStreamLoop echo_request "32 word"
  | ServerStreamWait echo_request "32 word"
  | ServerStreamSend echo_request "32 word"
  | ServerStreamWrite echo_request "32 word"
  | ServerStreamFinish
  | Bidirectional 'b
  | EchoEnd

fun request_message :: "echo_request \<Rightarrow> string" where
  "request_message (UnaryEchoRequest m) = m"
| "request_message (ClientStreamEchoRequest m) = m"
| "request_message (ServerStreamEchoRequest m count delay) = m"
| "request_message _ = []"

fun request_count :: "echo_request \<Rightarrow> 32 word" where
  "request_count (ServerStreamEchoRequest m count delay) = count"
| "request_count _ = 0"

fun request_delay :: "echo_request \<Rightarrow> 32 word" where
  "request_delay (ServerStreamEchoRequest m count delay) = delay"
| "request_delay _ = 0"

text \<open>
  The response of the \<open>n\<close>-th round; it keeps the message, which was moved out of the request.
  The deadline of its alarm: the clock is read once per round.
\<close>

definition round_response :: "echo_request \<Rightarrow> 32 word \<Rightarrow> echo_response" where
  "round_response request n = ServerStreamEchoResponse (request_message request) n"

definition round_alarm :: "echo_env \<Rightarrow> echo_request \<Rightarrow> 32 word \<Rightarrow> 'a context_op" where
  "round_alarm env request n =
     Wait (Alarm_Start (Alarm_new (echo_clock env (unat n) + uint (request_delay request))))"

text \<open>
  The handlers.  What a completion says is only looked at by the reads of the client stream.
\<close>

fun echo_impl :: "echo_env \<Rightarrow> ('b \<Rightarrow> ('b, echo_response context_op, echo_request server_completion, unit, 'a echo_server_scheme) action)
    \<Rightarrow> 'b echo_point \<Rightarrow> ('b echo_point, echo_response context_op, echo_request server_completion, unit, 'a echo_server_scheme) action" where
  "echo_impl env bidi (UnaryEchoImpl request) = CoStep (\<lambda>s. let response = UnaryEchoResponse (request_message request) in
     (print (''Sending Reply '' @ bracket (debug_response env response))
        (print (''Received UnaryEcho '' @ bracket (debug_request env request)) s), UnaryReply response))"
| "echo_impl env bidi (UnaryReply response) =
     CoSuspend (ServerUnaryContext_Finish response Status_OK) (\<lambda>c. UnaryEnd)"
| "echo_impl env bidi UnaryEnd = CoStep (\<lambda>s. (print ''End of UnaryEcho'' s, EchoEnd))"
| "echo_impl env bidi ClientStreamEchoImpl = CoStep (\<lambda>s.
     (print ''Start reading'' (print ''Received ClientStreamEcho'' s), ClientStreamRead []))"
| "echo_impl env bidi (ClientStreamRead messages) = CoSuspend ServerClientStreamContext_Read
     (\<lambda>c. if srv_ok c then ClientStreamGot messages (srv_message c) else ClientStreamReply messages)"
| "echo_impl env bidi (ClientStreamGot messages request) = CoStep (\<lambda>s.
     (print (''Got '' @ bracket (debug_request env request)) s, ClientStreamRead (messages @ [request_message request])))"
| "echo_impl env bidi (ClientStreamReply messages) = CoStep (\<lambda>s.
     (print (''Replying '' @ bracket (debug_response env (ClientStreamEchoResponse messages))) s, ClientStreamFinish messages))"
| "echo_impl env bidi (ClientStreamFinish messages) =
     CoSuspend (ServerClientStreamContext_Finish (ClientStreamEchoResponse messages) Status_OK) (\<lambda>c. ClientStreamEnd)"
| "echo_impl env bidi ClientStreamEnd = CoStep (\<lambda>s. (print ''End of ClientStreamEcho'' s, EchoEnd))"
| "echo_impl env bidi (ServerStreamEchoImpl request) = CoStep (\<lambda>s.
     (print (''Received ServerstreamEcho '' @ bracket (debug_request env request)) s, ServerStreamLoop request 1))"
| "echo_impl env bidi (ServerStreamLoop request n) = CoStep (\<lambda>s.
     if n \<le> request_count request then (print ''Started waiting'' s, ServerStreamWait request n)
     else (print ''End of ServerStreamEcho'' s, ServerStreamFinish))"
| "echo_impl env bidi (ServerStreamWait request n) =
     CoSuspend (round_alarm env request n) (\<lambda>c. ServerStreamSend request n)"
| "echo_impl env bidi (ServerStreamSend request n) = CoStep (\<lambda>s.
     (print (''Sending response '' @ bracket (debug_response env (round_response request n))) s, ServerStreamWrite request n))"
| "echo_impl env bidi (ServerStreamWrite request n) =
     CoSuspend (ServerServerStreamContext_Write (round_response request n) None) (\<lambda>c. ServerStreamLoop request (n + 1))"
| "echo_impl env bidi ServerStreamFinish = CoSuspend (ServerServerStreamContext_Finish Status_OK) (\<lambda>c. EchoEnd)"
| "echo_impl env bidi (Bidirectional b) = map_action Bidirectional id (bidi b)"
| "echo_impl env bidi EchoEnd = CoReturnVoid"

text \<open>\<open>EchoServiceImpl::StartListening\<close> registers the methods in this order.\<close>

definition echo_methods :: "echo_method list" where
  "echo_methods = [MUnaryEcho, MClientStreamEcho, MServerStreamEcho, MBidirectionalStreamEcho]"

fun echo_handler :: "'b \<Rightarrow> echo_method \<Rightarrow> echo_request \<Rightarrow> 'b echo_point" where
  "echo_handler b MUnaryEcho request = UnaryEchoImpl request"
| "echo_handler b MClientStreamEcho request = ClientStreamEchoImpl"
| "echo_handler b MServerStreamEcho request = ServerStreamEchoImpl request"
| "echo_handler b MBidirectionalStreamEcho request = Bidirectional b"

definition EchoService_StartListening where
  "EchoService_StartListening env bidi b n w = Server_start (echo_handler b) (echo_impl env bidi) n echo_methods w"

abbreviation echo_prog where
  "echo_prog env bidi b \<equiv> server_prog (echo_handler b) (echo_impl env bidi)"

section \<open>The handlers on the call stack\<close>

lemmas eval_echo = eval_handler [of "echo_handler b" "echo_impl env bidi" for b env bidi]

text \<open>A point that suspends at once, and one that prints before.\<close>

definition waits :: "('m, 'a) server_op \<Rightarrow> (echo_request server_completion \<Rightarrow> 'b echo_point)
    \<Rightarrow> ((('m, 'q, 'b echo_point) server_point, 'v) point, ('m, 'a) server_op, echo_request server_completion, 'v) stop" where
  "waits op k = Blocked op (\<lambda>c. Body (Handler (k c))) []"

lemma echo_completes:
  assumes "eval (echo_prog env bidi b) (Body (Handler (k x))) s s1 r1" "r1 = Returned v \<or> r1 = waits op' k'"
    and "conversation (echo_prog env bidi b) s1 r1 xs s2 r2 ops"
  shows "conversation (echo_prog env bidi b) s (waits op k) (x # xs) s2 r2 (pending r1 @ ops)"
proof -
  have "unwind (echo_prog env bidi b) (Body (Handler (k x))) [] s s1 r1"
    using assms(1,2) by (auto simp: waits_def intro: unwind_top unwind_finished)
  from converse_complete [where kr = "\<lambda>c. Body (Handler (k c))", OF this assms(3)]
  show ?thesis by (simp add: waits_def)
qed

lemma pending_waits [simp]: "pending (waits op k) = [op]"
  by (simp add: waits_def)

section \<open>UnaryEcho and ClientStreamEcho\<close>

lemma eval_EchoEnd: "eval (echo_prog env bidi b) (Body (Handler EchoEnd)) s s (Returned None)"
  by (subst eval_echo) simp

definition unary_waits where
  "unary_waits request = waits (ContextOp (Finish (Some (UnaryEchoResponse (request_message request))) Status_OK)) (\<lambda>c. UnaryEnd)"

lemma unary_start:
  "eval (echo_prog env bidi b) (Body (Handler (UnaryEchoImpl request))) s
     (print (''Sending Reply '' @ bracket (debug_response env (UnaryEchoResponse (request_message request))))
        (print (''Received UnaryEcho '' @ bracket (debug_request env request)) s))
     (unary_waits request)"
  by (subst eval_echo, simp add: Let_def, subst eval_echo, simp add: unary_waits_def waits_def context_ops)

lemma unary_conversation:
  "conversation (echo_prog env bidi b) s (unary_waits request) [c] (print ''End of UnaryEcho'' s) (Returned None) []"
proof -
  have "eval (echo_prog env bidi b) (Body (Handler UnaryEnd)) s (print ''End of UnaryEcho'' s) (Returned None)"
    by (subst eval_echo) (simp add: eval_EchoEnd)
  from echo_completes [where k = "\<lambda>c. UnaryEnd", OF this disjI1 converse_stop] show ?thesis by (simp add: unary_waits_def)
qed

definition stream_waits where
  "stream_waits messages = waits (ContextOp Read)
     (\<lambda>c. if srv_ok c then ClientStreamGot messages (srv_message c) else ClientStreamReply messages)"

lemma stream_read: "eval (echo_prog env bidi b) (Body (Handler (ClientStreamRead messages))) s s (stream_waits messages)"
  by (subst eval_echo) (simp add: stream_waits_def waits_def context_ops)

lemma stream_got: "eval (echo_prog env bidi b) (Body (Handler (ClientStreamGot messages request))) s
    (print (''Got '' @ bracket (debug_request env request)) s) (stream_waits (messages @ [request_message request]))"
  by (subst eval_echo) (simp add: stream_read)

definition message :: "'q \<Rightarrow> 'q server_completion" where
  "message q = \<lparr>srv_ok = True, srv_message = q\<rparr>"

lemma message_simps [simp]: "srv_ok (message q)" "srv_message (message q) = q"
  by (simp_all add: message_def)

lemma stream_conversation:
  assumes "\<not> srv_ok ended"
  shows "\<exists>s'. conversation (echo_prog env bidi b) s (stream_waits messages) (map message requests @ [ended, c]) s' (Returned None)
     (replicate (length requests) (ContextOp Read) @
      [ContextOp (Finish (Some (ClientStreamEchoResponse (messages @ map request_message requests))) Status_OK)])"
proof (induction requests arbitrary: s messages)
  case Nil
  let ?P = "echo_prog env bidi b" and ?response = "ClientStreamEchoResponse messages"
  let ?s1 = "print (''Replying '' @ bracket (debug_response env ?response)) s"
  let ?fin = "waits (ContextOp (Finish (Some ?response) Status_OK)) (\<lambda>c. ClientStreamEnd)"
  have reply: "eval ?P (Body (Handler (ClientStreamReply messages))) s ?s1 ?fin"
    by (subst eval_echo, simp, subst eval_echo, simp add: waits_def context_ops)
  have "eval ?P (Body (Handler ClientStreamEnd)) ?s1 (print ''End of ClientStreamEcho'' ?s1) (Returned None)"
    by (subst eval_echo) (simp add: eval_EchoEnd)
  from echo_completes [where k = "\<lambda>c. ClientStreamEnd", OF this disjI1 converse_stop]
  have "conversation ?P ?s1 ?fin [c] (print ''End of ClientStreamEcho'' ?s1) (Returned None) []" by simp
  note final = this
  let ?k = "\<lambda>c. if srv_ok c then ClientStreamGot messages (srv_message c) else ClientStreamReply messages"
  have "eval ?P (Body (Handler (?k ended))) s ?s1 ?fin" using reply assms by simp
  from echo_completes [where k = ?k, OF this disjI2 [OF refl] final]
  show ?case by (auto simp: stream_waits_def)
next
  case (Cons q requests)
  let ?k = "\<lambda>c. if srv_ok c then ClientStreamGot messages (srv_message c) else ClientStreamReply messages"
  from Cons.IH [of "print (''Got '' @ bracket (debug_request env q)) s" "messages @ [request_message q]"] obtain s' where
    IH: "conversation (echo_prog env bidi b) (print (''Got '' @ bracket (debug_request env q)) s)
      (stream_waits (messages @ [request_message q])) (map message requests @ [ended, c]) s' (Returned None)
      (replicate (length requests) (ContextOp Read) @
       [ContextOp (Finish (Some (ClientStreamEchoResponse ((messages @ [request_message q]) @ map request_message requests))) Status_OK)])"
    by blast
  have "eval (echo_prog env bidi b) (Body (Handler (?k (message q)))) s
      (print (''Got '' @ bracket (debug_request env q)) s) (stream_waits (messages @ [request_message q]))"
    using stream_got by simp
  from echo_completes [where k = ?k, OF this [unfolded stream_waits_def] disjI2 [OF refl] IH [unfolded stream_waits_def]]
  show ?case by (auto simp: stream_waits_def)
qed

section \<open>ServerStreamEcho\<close>

definition round_op :: "echo_env \<Rightarrow> echo_request \<Rightarrow> 32 word \<Rightarrow> echo_response context_op" where
  "round_op env request n = (if n \<le> request_count request then round_alarm env request n else Finish None Status_OK)"

definition round_waits where
  "round_waits env request n = waits (ContextOp (round_op env request n))
     (\<lambda>c. if n \<le> request_count request then ServerStreamSend request n else EchoEnd)"

definition write_waits where
  "write_waits request n = waits (ContextOp (Write (round_response request n) None)) (\<lambda>c. ServerStreamLoop request (n + 1))"

lemma round_start: "eval (echo_prog env bidi b) (Body (Handler (ServerStreamLoop request n))) s
    (print (if n \<le> request_count request then ''Started waiting'' else ''End of ServerStreamEcho'') s) (round_waits env request n)"
  by (subst eval_echo, cases "n \<le> request_count request"; simp; subst eval_echo, simp add: round_waits_def round_op_def waits_def context_ops)

lemma round_send: "eval (echo_prog env bidi b) (Body (Handler (ServerStreamSend request n))) s
    (print (''Sending response '' @ bracket (debug_response env (round_response request n))) s) (write_waits request n)"
  by (subst eval_echo, simp, subst eval_echo, simp add: write_waits_def waits_def context_ops)

lemma alarm_completes:
  assumes "n \<le> request_count request"
    and "\<And>s. \<exists>s'. conversation (echo_prog env bidi b) s (write_waits request n) xs s' r ops"
  shows "\<exists>s'. conversation (echo_prog env bidi b) s (round_waits env request n) (x # xs) s' r
     (ContextOp (Write (round_response request n) None) # ops)"
proof -
  let ?k = "\<lambda>c. if n \<le> request_count request then ServerStreamSend request n else EchoEnd"
  obtain s1 where s1: "eval (echo_prog env bidi b) (Body (Handler (?k x))) s s1 (write_waits request n)"
    using round_send assms(1) by fastforce
  obtain s' where s': "conversation (echo_prog env bidi b) s1 (write_waits request n) xs s' r ops" using assms(2) by blast
  from echo_completes [where k = ?k and op = "ContextOp (round_op env request n)" and x = x, OF s1 disjI2 [OF write_waits_def] s']
  show ?thesis unfolding round_waits_def write_waits_def by auto
qed

lemma write_completes:
  assumes "\<And>s. \<exists>s'. conversation (echo_prog env bidi b) s (round_waits env request (n + 1)) xs s' r ops"
  shows "\<exists>s'. conversation (echo_prog env bidi b) s (write_waits request n) (x # xs) s' r
     (ContextOp (round_op env request (n + 1)) # ops)"
proof -
  let ?k = "\<lambda>c. ServerStreamLoop request (n + 1)"
  obtain s1 where s1: "eval (echo_prog env bidi b) (Body (Handler (?k x))) s s1 (round_waits env request (n + 1))"
    by (meson round_start)
  obtain s' where s': "conversation (echo_prog env bidi b) s1 (round_waits env request (n + 1)) xs s' r ops" using assms by blast
  from echo_completes [where k = ?k and op = "ContextOp (Write (round_response request n) None)" and x = x, OF s1 disjI2 [OF round_waits_def] s']
  show ?thesis unfolding round_waits_def write_waits_def by auto
qed

text \<open>All the operations of the rounds from \<open>n\<close> on, \<open>k\<close> of them.\<close>

fun rounds :: "echo_env \<Rightarrow> echo_request \<Rightarrow> 32 word \<Rightarrow> nat \<Rightarrow> echo_response context_op list" where
  "rounds env request n 0 = [Finish None Status_OK]"
| "rounds env request n (Suc k) =
     round_alarm env request n # Write (round_response request n) None # rounds env request (n + 1) k"

lemma rounds_head:
  "unat n + k = Suc (unat (request_count request)) \<Longrightarrow>
     rounds env request n k = round_op env request n # tl (rounds env request n k)"
  by (cases k) (simp_all add: round_op_def word_le_nat_alt)

lemma unat_next: "n \<le> m \<Longrightarrow> m \<noteq> - 1 \<Longrightarrow> unat (n + 1) = Suc (unat n)" for n m :: "32 word"
  using unatSuc [of n] by (metis add.commute eq_neg_iff_add_eq_0 word_order.extremum_uniqueI)

lemma rounds_conversation:
  assumes "unat n + k = Suc (unat (request_count request))" "request_count request \<noteq> - 1" "length xs = Suc (2 * k)"
  shows "\<exists>s'. conversation (echo_prog env bidi b) s (round_waits env request n) xs s' (Returned None)
     (map ContextOp (tl (rounds env request n k)))"
  using assms
proof (induction k arbitrary: n xs s)
  case 0
  then have n: "\<not> n \<le> request_count request" by (simp add: word_le_nat_alt)
  obtain x where xs: "xs = [x]" using 0 by (cases xs) auto
  have "eval (echo_prog env bidi b) (Body (Handler (if n \<le> request_count request then ServerStreamSend request n else EchoEnd))) s s (Returned None)"
    using n eval_EchoEnd by simp
  from echo_completes [where k = "\<lambda>c. if n \<le> request_count request then ServerStreamSend request n else EchoEnd"
      and op = "ContextOp (round_op env request n)" and x = x, OF this disjI1 [OF refl] converse_stop]
  show ?case unfolding round_waits_def xs by auto
next
  case (Suc k)
  have le: "n \<le> request_count request" using Suc.prems(1) by (simp add: word_le_nat_alt)
  with Suc.prems(1,2) have n1: "unat (n + 1) + k = Suc (unat (request_count request))" by (simp add: unat_next)
  obtain x y ys where xs: "xs = x # y # ys" "length ys = Suc (2 * k)" using Suc.prems(3)
    by (cases xs rule: list.exhaust; cases "tl xs") auto
  have IH: "\<exists>s'. conversation (echo_prog env bidi b) s (round_waits env request (n + 1)) ys s' (Returned None)
     (map ContextOp (tl (rounds env request (n + 1) k)))" for s
    by (rule Suc.IH [OF n1 Suc.prems(2) xs(2)])
  obtain rest where "rounds env request (n + 1) k = round_op env request (n + 1) # rest"
    using rounds_head [OF n1, of env] by metis
  with alarm_completes [OF le write_completes [OF IH], of s x y] show ?case by (simp add: xs)
qed

text \<open>With the largest count the loop variable wraps around and the condition never fails.\<close>

lemma endless_conversation:
  assumes "request_count request = - 1"
  shows "(\<exists>s' op k ops. conversation (echo_prog env bidi b) s (round_waits env request n) xs s' (waits op k) ops \<and>
        length ops = length xs) \<and>
    (\<exists>s' op k ops. conversation (echo_prog env bidi b) s (write_waits request n) xs s' (waits op k) ops \<and>
        length ops = length xs)"
proof (induction xs arbitrary: s n)
  case Nil
  show ?case unfolding round_waits_def write_waits_def by (fastforce intro: converse_stop)
next
  case (Cons x xs)
  let ?P = "echo_prog env bidi b" and ?k = "\<lambda>c. if n \<le> request_count request then ServerStreamSend request n else EchoEnd"
  have le: "n \<le> request_count request" by (simp add: assms)
  obtain s1 where s1: "eval ?P (Body (Handler (?k x))) s s1 (write_waits request n)" using round_send le by fastforce
  from Cons.IH [of s1 n] obtain s2 op2 k2 ops2 where
    c1: "conversation ?P s1 (write_waits request n) xs s2 (waits op2 k2) ops2" "length ops2 = length xs" by blast
  obtain s3 where s3: "eval ?P (Body (Handler (ServerStreamLoop request (n + 1)))) s s3 (round_waits env request (n + 1))"
    by (meson round_start)
  from Cons.IH [of s3 "n + 1"] obtain s4 op4 k4 ops4 where
    c3: "conversation ?P s3 (round_waits env request (n + 1)) xs s4 (waits op4 k4) ops4" "length ops4 = length xs" by blast
  show ?case
  proof
    from echo_completes [where k = ?k and op = "ContextOp (round_op env request n)" and x = x, OF s1 disjI2 [OF write_waits_def] c1(1)] c1(2)
    show "\<exists>s' op k ops. conversation ?P s (round_waits env request n) (x # xs) s' (waits op k) ops \<and> length ops = length (x # xs)"
      unfolding round_waits_def write_waits_def by fastforce
    from echo_completes [where k = "\<lambda>c. ServerStreamLoop request (n + 1)" and op = "ContextOp (Write (round_response request n) None)" and x = x,
        OF s3 disjI2 [OF round_waits_def] c3(1)] c3(2)
    show "\<exists>s' op k ops. conversation ?P s (write_waits request n) (x # xs) s' (waits op k) ops \<and> length ops = length (x # xs)"
      unfolding round_waits_def write_waits_def by fastforce
  qed
qed

lemma stream_begin: "\<exists>s'. eval (echo_prog env bidi b) (Body (Handler (ServerStreamEchoImpl request))) s s' (round_waits env request 1)"
  by (subst eval_echo, simp) (meson round_start)

section \<open>Properties\<close>

text \<open>
  C21. Messages come back.  The handler of a unary call replies with the message of the request; the
  handler of a client stream, when the stream ends, with all its messages in order.  Both send
  one reply, with status \<open>OK\<close>, and their frames are destroyed.
\<close>

theorem echo_replies:
  assumes "fresh_above w" and "\<not> srv_ok ended"
  shows "(\<exists>n w1 w2. (\<forall>m \<ge> n. Spawn (echo_prog env bidi b) m e (Handler (UnaryEchoImpl request)) w = Ok w1) \<and>
      serves (echo_prog env bidi b) w1 [c] w2 \<and> heap w2 (fresh w) = None \<and>
      ops_of w2 = ops_of w @ [ContextOp (Finish (Some (UnaryEchoResponse (request_message request))) Status_OK)]) \<and>
    (\<exists>n w1 w2. (\<forall>m \<ge> n. Spawn (echo_prog env bidi b) m e (Handler ClientStreamEchoImpl) w = Ok w1) \<and>
      serves (echo_prog env bidi b) w1 (map message requests @ [ended, c]) w2 \<and> heap w2 (fresh w) = None \<and>
      ops_of w2 = ops_of w @ replicate (Suc (length requests)) (ContextOp Read) @
        [ContextOp (Finish (Some (ClientStreamEchoResponse (map request_message requests))) Status_OK)])"
proof
  let ?P = "echo_prog env bidi b"
  have mode: "mode ?P e = Immediate" by (simp add: server_prog_def)
  from spawned_job_refines [OF mode assms(1) unary_start [where request = request] unary_conversation [where c = c]]
  show "\<exists>n w1 w2. (\<forall>m \<ge> n. Spawn ?P m e (Handler (UnaryEchoImpl request)) w = Ok w1) \<and>
      serves ?P w1 [c] w2 \<and> heap w2 (fresh w) = None \<and>
      ops_of w2 = ops_of w @ [ContextOp (Finish (Some (UnaryEchoResponse (request_message request))) Status_OK)]"
    by (fastforce simp: represents_def unary_waits_def)
  let ?s1 = "print ''Start reading'' (print ''Received ClientStreamEcho'' (shared w))"
  have start: "eval ?P (Body (Handler ClientStreamEchoImpl)) (shared w) ?s1 (stream_waits [])"
    by (subst eval_echo) (simp add: stream_read)
  from stream_conversation [where env = env and bidi = bidi and b = b and s = ?s1 and messages = "[]" and requests = requests and c = c,
      OF assms(2)] obtain s' where
    conv: "conversation ?P ?s1 (stream_waits []) (map message requests @ [ended, c]) s' (Returned None)
      (replicate (length requests) (ContextOp Read) @
       [ContextOp (Finish (Some (ClientStreamEchoResponse (map request_message requests))) Status_OK)])" by auto
  from spawned_job_refines [OF mode assms(1) start conv]
  show "\<exists>n w1 w2. (\<forall>m \<ge> n. Spawn ?P m e (Handler ClientStreamEchoImpl) w = Ok w1) \<and>
      serves ?P w1 (map message requests @ [ended, c]) w2 \<and> heap w2 (fresh w) = None \<and>
      ops_of w2 = ops_of w @ replicate (Suc (length requests)) (ContextOp Read) @
        [ContextOp (Finish (Some (ClientStreamEchoResponse (map request_message requests))) Status_OK)]"
    by (fastforce simp: represents_def stream_waits_def)
qed

text \<open>
  C22. \<open>count\<close> responses.  For any count below the largest one the handler of a server stream waits and
  writes that many times, numbers from 1, and then finishes, whatever the completions say: also
  when a write failed or an alarm was cancelled it goes on.
\<close>

theorem server_stream_sends:
  assumes "fresh_above w" and "request_count request \<noteq> - 1"
    and "length xs = Suc (2 * unat (request_count request))"
  shows "\<exists>n w1 w2. (\<forall>m \<ge> n. Spawn (echo_prog env bidi b) m e (Handler (ServerStreamEchoImpl request)) w = Ok w1) \<and>
      serves (echo_prog env bidi b) w1 xs w2 \<and> heap w2 (fresh w) = None \<and>
      ops_of w2 = ops_of w @ map ContextOp (rounds env request 1 (unat (request_count request)))"
proof -
  let ?P = "echo_prog env bidi b" and ?k = "unat (request_count request)"
  have mode: "mode ?P e = Immediate" by (simp add: server_prog_def)
  have one: "unat (1 :: 32 word) + ?k = Suc ?k" by simp
  obtain s1 where s1: "eval ?P (Body (Handler (ServerStreamEchoImpl request))) (shared w) s1 (round_waits env request 1)"
    by (meson stream_begin)
  obtain s2 where conv: "conversation ?P s1 (round_waits env request 1) xs s2 (Returned None)
      (map ContextOp (tl (rounds env request 1 ?k)))"
    by (meson rounds_conversation [OF one assms(2,3)])
  obtain rest where "rounds env request 1 ?k = round_op env request 1 # rest"
    using rounds_head [OF one, of env] by metis
  with spawned_job_refines [OF mode assms(1) s1 conv] show ?thesis
    by (fastforce simp: represents_def round_waits_def)
qed

text \<open>
  C36. The largest count has no end.  With \<open>count = 2 ^ 32 - 1\<close> the handler asks for another operation
  after every completion, however many there were.
\<close>

theorem server_stream_endless:
  assumes "fresh_above w" and "request_count request = - 1"
  shows "\<exists>n w1 w2. (\<forall>m \<ge> n. Spawn (echo_prog env bidi b) m e (Handler (ServerStreamEchoImpl request)) w = Ok w1) \<and>
      serves (echo_prog env bidi b) w1 xs w2 \<and> length (ops_of w2) = length (ops_of w) + Suc (length xs)"
proof -
  let ?P = "echo_prog env bidi b"
  have mode: "mode ?P e = Immediate" by (simp add: server_prog_def)
  obtain s1 where s1: "eval ?P (Body (Handler (ServerStreamEchoImpl request))) (shared w) s1 (round_waits env request 1)"
    by (meson stream_begin)
  obtain s2 op k ops where "conversation ?P s1 (round_waits env request 1) xs s2 (waits op k) ops" "length ops = length xs"
    by (meson endless_conversation [OF assms(2)])
  with spawned_job_refines [OF mode assms(1) s1] show ?thesis
    by (fastforce simp: round_waits_def)
qed

text \<open>A server for the witnesses, without a bidirectional method.\<close>

definition no_bidi :: "unit \<Rightarrow> (unit, echo_response context_op, echo_request server_completion, unit, unit echo_server_scheme) action" where
  "no_bidi b = CoReturnVoid"

definition plain_echo :: "unit echo_server_scheme" where
  "plain_echo = \<lparr>m_executors = [], m_nextExecutor = 0, echo_log = [], \<dots> = ()\<rparr>"

lemma empty_world_fresh: "fresh_above (empty_world s)" "fresh (empty_world s) = 0" "ops_of (empty_world s) = []"
  by (simp_all add: empty_world_def fresh_above_def ops_of_def)

theorem echo_replies_witness:
  "\<exists>n w1 w2. (\<forall>m \<ge> n. Spawn (echo_prog plain_env no_bidi ()) m 0 (Handler ClientStreamEchoImpl) (empty_world plain_echo) = Ok w1) \<and>
     serves (echo_prog plain_env no_bidi ()) w1 [message (ClientStreamEchoRequest ''a''), message (ClientStreamEchoRequest ''b''),
       \<lparr>srv_ok = False, srv_message = BidirectionalStop\<rparr>, message BidirectionalStop] w2 \<and>
     last (ops_of w2) = ContextOp (Finish (Some (ClientStreamEchoResponse [''a'', ''b''])) Status_OK)"
proof -
  have "\<not> srv_ok \<lparr>srv_ok = False, srv_message = BidirectionalStop\<rparr>" by simp
  from conjunct2 [OF echo_replies [where requests = "[ClientStreamEchoRequest ''a'', ClientStreamEchoRequest ''b'']" and
      env = plain_env and bidi = no_bidi and b = "()" and e = 0 and c = "message BidirectionalStop",
      OF empty_world_fresh(1) [of plain_echo] this]]
  show ?thesis by (fastforce simp: empty_world_fresh)
qed

theorem server_stream_sends_witness:
  "\<exists>n w1 w2. (\<forall>m \<ge> n. Spawn (echo_prog plain_env no_bidi ()) m 0 (Handler (ServerStreamEchoImpl (ServerStreamEchoRequest ''hola'' 1 1000))) (empty_world plain_echo) = Ok w1) \<and>
     serves (echo_prog plain_env no_bidi ()) w1 [message BidirectionalStop, message BidirectionalStop, message BidirectionalStop] w2 \<and>
     ops_of w2 = [ContextOp (Wait (AlarmSet 1000)), ContextOp (Write (ServerStreamEchoResponse ''hola'' 1) None), ContextOp (Finish None Status_OK)]"
proof -
  let ?q = "ServerStreamEchoRequest ''hola'' 1 1000" and ?xs = "[message BidirectionalStop, message BidirectionalStop, message BidirectionalStop]"
  have "request_count ?q \<noteq> - 1" "length ?xs = Suc (2 * unat (request_count ?q))" by simp_all
  from server_stream_sends [where env = plain_env and bidi = no_bidi and b = "()" and e = 0,
      OF empty_world_fresh(1) [of plain_echo] this]
  show ?thesis by (simp add: empty_world_fresh round_alarm_def round_response_def Alarm_Start_def Alarm_new_def plain_env_def) fast
qed

theorem server_stream_endless_witness:
  "\<exists>n w1 w2. (\<forall>m \<ge> n. Spawn (echo_prog plain_env no_bidi ()) m 0 (Handler (ServerStreamEchoImpl (ServerStreamEchoRequest ''hola'' 4294967295 1000))) (empty_world plain_echo) = Ok w1) \<and>
     serves (echo_prog plain_env no_bidi ()) w1 (replicate 1000 (message BidirectionalStop)) w2 \<and> length (ops_of w2) = 1001"
proof -
  have "request_count (ServerStreamEchoRequest ''hola'' 4294967295 1000) = - 1" by simp
  from server_stream_endless [where env = plain_env and bidi = no_bidi and b = "()" and e = 0 and
      xs = "replicate 1000 (message BidirectionalStop)", OF empty_world_fresh(1) [of plain_echo] this]
  show ?thesis by (simp add: empty_world_fresh)
qed

end
