(* ===== verification/EchoBidi.thy ===== *)
theory EchoBidi
  imports EchoService
begin

text \<open>
  The handler of the bidirectional method, \<open>BidirectionalStreamEchoImpl\<close> of
  \<^verbatim>\<open>async_grpc/server/echo_service_impl.cpp\<close>: its main loop and its write subroutine, which
  share the locals \<open>response\<close>, \<open>delay_ms\<close> and \<open>alarm\<close>.  A state is where the two routines stand,
  with the locals, and the operations submitted so far; a step delivers the completion of one
  operation, and the routine runs to its next suspension.
\<close>

section \<open>State\<close>

text \<open>The command of a request; the last one is a request whose \<open>oneof\<close> is not set.\<close>

datatype bidi_command = KMessage string "32 word" | KStart | KStop | CommandNotSet

text \<open>
  The main routine waits for a request, for the subroutine (after a stop command or at the end),
  or for its last operation; the write subroutine for its alarm, or for its write.  \<open>AtAlarm\<close>
  says whether the alarm was cancelled while it was pending.
\<close>

datatype main_point = AtRead | AtStop | AtLast | AtFinish | MainEnd

datatype writer_point = AtAlarm bool | AtWrite | WriterDone

text \<open>\<open>writer\<close> is the task \<open>subroutine\<close>: \<open>None\<close> when the \<open>Task\<close> is empty.\<close>

record bidi =
  main_at :: main_point
  writer :: "writer_point option"
  response :: string
  delay_ms :: "32 word"
  call_status :: status
  ops :: "echo_response context_op list"
  bidi_log :: "string list"

definition write_log :: "string \<Rightarrow> bidi \<Rightarrow> bidi" where
  "write_log line c = c\<lparr>bidi_log := bidi_log c @ [line]\<rparr>"

definition submit :: "echo_response context_op \<Rightarrow> bidi \<Rightarrow> bidi" where
  "submit op c = c\<lparr>ops := ops c @ [op]\<rparr>"

section \<open>The write subroutine\<close>

text \<open>The top of its loop, at time \<open>now\<close>.\<close>

definition writer_loop :: "int \<Rightarrow> bidi \<Rightarrow> bidi" where
  "writer_loop now c = (submit (Wait (Alarm_Start (Alarm_new (now + uint (delay_ms c)))))
     (write_log ''Write subroutine waiting'' c))\<lparr>writer := Some (AtAlarm False)\<rparr>"

definition writer_end :: "string \<Rightarrow> bidi \<Rightarrow> bidi" where
  "writer_end line c = (write_log ''Write subroutine stopping'' (write_log line c))\<lparr>writer := Some WriterDone\<rparr>"

definition writer_write :: "bidi \<Rightarrow> bidi" where
  "writer_write c = (submit (ServerBidirectionalStreamContext_Write (BidirectionalStreamEchoResponse (response c)) None)
     (write_log ''Write subroutine writing'' c))\<lparr>writer := Some AtWrite\<rparr>"

section \<open>The main routine\<close>

text \<open>After the loop: \<open>Finish()\<close> is called without the status, so it sends \<open>OK\<close>.\<close>

definition send_status :: "(status \<Rightarrow> string) \<Rightarrow> bidi \<Rightarrow> bidi" where
  "send_status text_of c = (submit (ServerBidirectionalStreamContext_Finish Status_OK)
     (write_log (''Sending status '' @ bracket (text_of (call_status c))) c))\<lparr>main_at := AtFinish\<rparr>"

text \<open>
  \<open>alarm.Cancel()\<close>: it only concerns an alarm that is pending.  Then \<open>co_await\<close> of the
  subroutine: it goes on at once when that is done, and empties the \<open>Task\<close>.
\<close>

definition cancel_alarm :: "bidi \<Rightarrow> bidi" where
  "cancel_alarm c = (case writer c of Some (AtAlarm b) \<Rightarrow> c\<lparr>writer := Some (AtAlarm True)\<rparr> | _ \<Rightarrow> c)"

definition after_loop :: "(status \<Rightarrow> string) \<Rightarrow> bidi \<Rightarrow> bidi" where
  "after_loop text_of c = (if writer c = None then send_status text_of c
     else (let c = cancel_alarm (write_log ''Stopping subroutine'' c) in
       if writer c = Some WriterDone then send_status text_of (write_log ''Subroutine stopped'' (c\<lparr>writer := None\<rparr>))
       else c\<lparr>main_at := AtLast\<rparr>))"

text \<open>\<open>while (status.ok() && co_await context->Read(request))\<close>\<close>

definition bidi_loop :: "(status \<Rightarrow> string) \<Rightarrow> bidi \<Rightarrow> bidi" where
  "bidi_loop text_of c = (if status_ok (call_status c) then (submit ServerBidirectionalStreamContext_Read c)\<lparr>main_at := AtRead\<rparr>
     else after_loop text_of c)"

definition failed_precondition :: "string \<Rightarrow> status" where
  "failed_precondition text = Status FAILED_PRECONDITION text"

text \<open>The body of the loop, for a request at time \<open>now\<close>.\<close>

definition on_request :: "(status \<Rightarrow> string) \<Rightarrow> (bidi_command \<Rightarrow> string) \<Rightarrow> int \<Rightarrow> bidi_command \<Rightarrow> bidi \<Rightarrow> bidi outcome" where
  "on_request text_of debug now request c = (let c = write_log (''Received message '' @ bracket (debug request)) c in
     case request of
       KMessage text delay \<Rightarrow> Ok (bidi_loop text_of (if writer c \<noteq> None
         then c\<lparr>call_status := failed_precondition ''Can not change message while running''\<rparr>
         else (write_log ''Setting message'' c)\<lparr>response := text, delay_ms := delay\<rparr>))
     | KStart \<Rightarrow> Ok (bidi_loop text_of (if writer c \<noteq> None
         then c\<lparr>call_status := failed_precondition ''Can not start when already started''\<rparr>
         else if response c = [] \<or> delay_ms c = 0
         then c\<lparr>call_status := failed_precondition ''Can not start with invalid message set''\<rparr>
         else writer_loop now (write_log ''Starting write subroutine'' c)))
     | KStop \<Rightarrow> Ok (if writer c = None
         then bidi_loop text_of (c\<lparr>call_status := failed_precondition ''Can not stop when not running''\<rparr>)
         else (let c = cancel_alarm (write_log ''Stopping subroutine'' c) in
           if writer c = Some WriterDone
           then bidi_loop text_of (write_log ''Subroutine stopped'' (c\<lparr>writer := None\<rparr>))
           else c\<lparr>main_at := AtStop\<rparr>))
     | CommandNotSet \<Rightarrow> Fault AssertFailed)"

text \<open>The routine that awaits the subroutine is resumed when that is done.\<close>

definition joined :: "(status \<Rightarrow> string) \<Rightarrow> bidi \<Rightarrow> bidi" where
  "joined text_of c = (case main_at c of
      AtStop \<Rightarrow> bidi_loop text_of (write_log ''Subroutine stopped'' (c\<lparr>writer := None\<rparr>))
    | AtLast \<Rightarrow> send_status text_of (write_log ''Subroutine stopped'' (c\<lparr>writer := None\<rparr>))
    | _ \<Rightarrow> c)"

definition bidi_start :: "(status \<Rightarrow> string) \<Rightarrow> bidi" where
  "bidi_start text_of = bidi_loop text_of (write_log ''Received BidirectionalStreamEcho''
     \<lparr>main_at = AtRead, writer = None, response = [], delay_ms = 0, call_status = Status_OK, ops = [], bidi_log = []\<rparr>)"

section \<open>Steps\<close>

text \<open>
  Completions: of the read, with a request or the end of the stream; of the alarm, which is \<open>ok\<close>
  when its time has come (also when it is cancelled afterwards) and not \<open>ok\<close> when it was
  cancelled; of the write; of \<open>Finish\<close>.
\<close>

datatype completion_event = GotRequest bidi_command | StreamEnded | AlarmFired | AlarmCancelled | Written | WriteFailed | Finished

inductive bidi_step :: "(status \<Rightarrow> string) \<Rightarrow> (bidi_command \<Rightarrow> string) \<Rightarrow> completion_event \<Rightarrow> bidi \<Rightarrow> bidi \<Rightarrow> bool" for text_of debug where
  got_request: "main_at c = AtRead \<Longrightarrow> on_request text_of debug now request c = Ok c' \<Longrightarrow>
     bidi_step text_of debug (GotRequest request) c c'"
| stream_ended: "main_at c = AtRead \<Longrightarrow> bidi_step text_of debug StreamEnded c (after_loop text_of c)"
| alarm_fired: "writer c = Some (AtAlarm b) \<Longrightarrow> bidi_step text_of debug AlarmFired c (writer_write c)"
| alarm_cancelled: "writer c = Some (AtAlarm True) \<Longrightarrow>
     bidi_step text_of debug AlarmCancelled c (joined text_of (writer_end ''Alarm cancelled'' c))"
| written: "writer c = Some AtWrite \<Longrightarrow> bidi_step text_of debug Written c (writer_loop now c)"
| write_failed: "writer c = Some AtWrite \<Longrightarrow>
     bidi_step text_of debug WriteFailed c (joined text_of (writer_end ''Write cancelled'' c))"
| finished: "main_at c = AtFinish \<Longrightarrow>
     bidi_step text_of debug Finished c ((write_log ''End of BidirectionalStreamEcho'' c)\<lparr>main_at := MainEnd\<rparr>)"

inductive bidi_run :: "(status \<Rightarrow> string) \<Rightarrow> (bidi_command \<Rightarrow> string) \<Rightarrow> completion_event list \<Rightarrow> bidi \<Rightarrow> bidi \<Rightarrow> bool" for text_of debug where
  run_none: "bidi_run text_of debug [] c c"
| run_step: "bidi_step text_of debug e c c1 \<Longrightarrow> bidi_run text_of debug es c1 c2 \<Longrightarrow> bidi_run text_of debug (e # es) c c2"

lemmas bidi_defs = write_log_def submit_def writer_loop_def writer_end_def writer_write_def send_status_def
  cancel_alarm_def after_loop_def bidi_loop_def joined_def failed_precondition_def

section \<open>The invariant\<close>

fun is_finish :: "'a context_op \<Rightarrow> bool" where
  "is_finish (Finish r st) = True"
| "is_finish (FinishWithError st) = True"
| "is_finish (WriteAndFinish r opt st) = True"
| "is_finish op = False"

text \<open>The operations that end a call are the last: one \<open>Finish\<close> with status \<open>OK\<close>.\<close>

definition finishing :: "bidi \<Rightarrow> bool" where
  "finishing c \<longleftrightarrow> (\<exists>before. ops c = before @ [Finish None Status_OK] \<and> \<not> list_ex is_finish before)"

definition bidi_inv :: "bidi \<Rightarrow> bool" where
  "bidi_inv c \<longleftrightarrow> (if main_at c \<in> {AtFinish, MainEnd} then writer c = None \<and> finishing c else \<not> list_ex is_finish (ops c)) \<and>
     (main_at c \<in> {AtStop, AtLast} \<longrightarrow> writer c \<notin> {None, Some WriterDone}) \<and>
     (main_at c \<in> {AtRead, AtStop} \<longrightarrow> status_ok (call_status c)) \<and>
     (writer c \<noteq> None \<longrightarrow> response c \<noteq> [] \<and> delay_ms c \<noteq> 0)"

text \<open>While no operation has ended the call and the writer has a message.\<close>

definition bidi_open :: "bidi \<Rightarrow> bool" where
  "bidi_open c \<longleftrightarrow> \<not> list_ex is_finish (ops c) \<and> (writer c \<noteq> None \<longrightarrow> response c \<noteq> [] \<and> delay_ms c \<noteq> 0)"

lemma bidi_openI: "bidi_inv c \<Longrightarrow> main_at c \<notin> {AtFinish, MainEnd} \<Longrightarrow> bidi_open c"
  by (auto simp: bidi_inv_def bidi_open_def)

lemma send_status_inv: "bidi_open c \<Longrightarrow> writer c = None \<Longrightarrow> bidi_inv (send_status text_of c)"
  by (auto simp: bidi_inv_def bidi_open_def bidi_defs context_ops finishing_def)

lemma after_loop_inv:
  assumes "bidi_open c"
  shows "bidi_inv (after_loop text_of c)"
proof (cases "writer c")
  case None
  with assms show ?thesis by (simp add: after_loop_def send_status_inv)
next
  case (Some w)
  show ?thesis
  proof (cases w)
    case WriterDone
    have "bidi_open (write_log ''Subroutine stopped'' (write_log ''Stopping subroutine'' c\<lparr>writer := None\<rparr>))"
      using assms by (simp add: bidi_open_def write_log_def)
    from send_status_inv [OF this] Some WriterDone show ?thesis
      by (simp add: after_loop_def cancel_alarm_def write_log_def)
  qed (use assms Some in \<open>simp_all add: bidi_open_def bidi_inv_def after_loop_def cancel_alarm_def write_log_def\<close>)
qed

lemma bidi_loop_inv: "bidi_open c \<Longrightarrow> bidi_inv (bidi_loop text_of c)"
  by (cases "status_ok (call_status c)")
     (simp_all add: bidi_loop_def after_loop_inv, simp add: bidi_inv_def bidi_open_def submit_def context_ops)

lemma bidi_open_fields [simp]:
  "bidi_open (write_log l c) = bidi_open c" "bidi_open (c\<lparr>call_status := st\<rparr>) = bidi_open c"
  "bidi_open c \<Longrightarrow> bidi_open (c\<lparr>writer := None\<rparr>)"
  "writer c = None \<Longrightarrow> bidi_open (c\<lparr>response := t, delay_ms := d\<rparr>) = bidi_open c"
  "response c \<noteq> [] \<Longrightarrow> delay_ms c \<noteq> 0 \<Longrightarrow> bidi_open c \<Longrightarrow> bidi_open (writer_loop now c)"
  by (simp_all add: bidi_open_def writer_loop_def submit_def write_log_def)

lemma write_log_fields [simp]:
  "writer (write_log l c) = writer c" "response (write_log l c) = response c" "delay_ms (write_log l c) = delay_ms c"
  "main_at (write_log l c) = main_at c" "call_status (write_log l c) = call_status c" "ops (write_log l c) = ops c"
  by (simp_all add: write_log_def)

lemma on_request_inv:
  assumes "bidi_inv c" "main_at c = AtRead" "on_request text_of debug now request c = Ok c'"
  shows "bidi_inv c'"
proof -
  have opened: "bidi_open c" using bidi_openI [OF assms(1)] assms(2) by simp
  show ?thesis
  proof (cases request)
    case (KMessage msg delay)
    with assms(3) opened show ?thesis
      by (cases "writer c") (auto simp: on_request_def Let_def intro!: bidi_loop_inv)
  next
    case KStart
    with assms(3) opened show ?thesis
      by (cases "writer c") (auto simp: on_request_def Let_def intro!: bidi_loop_inv split: if_splits)
  next
    case KStop
    show ?thesis
    proof (cases "writer c")
      case None
      with KStop assms(3) opened show ?thesis by (auto simp: on_request_def Let_def intro!: bidi_loop_inv)
    next
      case (Some w)
      show ?thesis
      proof (cases w)
        case WriterDone
        with Some KStop assms(3) opened show ?thesis
          by (auto simp: on_request_def Let_def cancel_alarm_def intro!: bidi_loop_inv)
      qed (use Some KStop assms in \<open>auto simp: on_request_def Let_def cancel_alarm_def bidi_inv_def\<close>)
    qed
  next
    case CommandNotSet
    with assms(3) show ?thesis by (simp add: on_request_def)
  qed
qed

lemma joined_inv:
  assumes "bidi_inv c" "writer c = Some w" "w \<noteq> WriterDone"
  shows "bidi_inv (joined text_of (writer_end line c))"
proof -
  have main: "main_at c \<in> {AtRead, AtStop, AtLast}" using assms(1,2) by (cases "main_at c") (simp_all add: bidi_inv_def)
  then have "bidi_open c" using bidi_openI [OF assms(1)] by auto
  then have opened: "bidi_open (write_log l (writer_end line c\<lparr>writer := None\<rparr>))" for l
    by (simp add: bidi_open_def writer_end_def write_log_def)
  consider "main_at c = AtRead" | "main_at c = AtStop" | "main_at c = AtLast" using main by blast
  then show ?thesis
  proof cases
    case 1
    with assms show ?thesis by (simp add: joined_def bidi_inv_def writer_end_def write_log_def)
  next
    case 2
    then have "joined text_of (writer_end line c) = bidi_loop text_of (write_log ''Subroutine stopped'' (writer_end line c\<lparr>writer := None\<rparr>))"
      by (simp add: joined_def writer_end_def write_log_def)
    with bidi_loop_inv [OF opened] show ?thesis by simp
  next
    case 3
    then have "joined text_of (writer_end line c) = send_status text_of (write_log ''Subroutine stopped'' (writer_end line c\<lparr>writer := None\<rparr>))"
      by (simp add: joined_def writer_end_def write_log_def)
    with send_status_inv [OF opened] show ?thesis by (simp add: write_log_def)
  qed
qed

lemma writer_step_inv:
  assumes "bidi_inv c" "writer c = Some w" "w \<noteq> WriterDone"
  shows "bidi_inv (writer_write c)" "bidi_inv (writer_loop now c)"
  using assms by (cases "main_at c"; simp add: bidi_inv_def writer_write_def writer_loop_def submit_def write_log_def context_ops)+

lemma bidi_step_inv: "bidi_step text_of debug e c c' \<Longrightarrow> bidi_inv c \<Longrightarrow> bidi_inv c'"
proof (induction rule: bidi_step.induct)
  case (got_request c now request c')
  then show ?case using on_request_inv by blast
next
  case (stream_ended c)
  then show ?case using bidi_openI after_loop_inv by simp
next
  case (finished c)
  then show ?case by (auto simp: bidi_inv_def write_log_def finishing_def)
qed (auto intro: writer_step_inv joined_inv)

lemma bidi_run_inv: "bidi_run text_of debug es c c' \<Longrightarrow> bidi_inv c \<Longrightarrow> bidi_inv c'"
  by (induction rule: bidi_run.induct) (auto intro: bidi_step_inv)

lemma bidi_start_inv: "bidi_inv (bidi_start text_of)"
  unfolding bidi_start_def by (rule bidi_loop_inv) (simp add: bidi_open_def write_log_def)

section \<open>Stop commands that are not heard\<close>

text \<open>
  The main routine waits for the subroutine, whose alarm is not cancelled: it was writing when
  the alarm was cancelled, and has set it again since.
\<close>

definition unheard :: "bidi \<Rightarrow> bool" where
  "unheard c \<longleftrightarrow> main_at c = AtStop \<and> writer c \<in> {Some AtWrite, Some (AtAlarm False)}"

lemma unheard_step: "bidi_step text_of debug e c c' \<Longrightarrow> unheard c \<Longrightarrow> e \<noteq> WriteFailed \<Longrightarrow> unheard c'"
  by (induction rule: bidi_step.induct) (auto simp: unheard_def bidi_defs)

lemma unheard_run: "bidi_run text_of debug es c c' \<Longrightarrow> unheard c \<Longrightarrow> WriteFailed \<notin> set es \<Longrightarrow> unheard c'"
  by (induction rule: bidi_run.induct) (auto intro: unheard_step)

lemma unheard_goes_on:
  "writer c = Some AtWrite \<Longrightarrow> \<exists>c'. bidi_run text_of debug (concat (replicate n [Written, AlarmFired])) c c' \<and>
     length (ops c') = length (ops c) + 2 * n"
proof (induction n arbitrary: c)
  case 0
  show ?case by (auto intro: run_none)
next
  case (Suc n)
  let ?c1 = "writer_loop 0 c"
  have c1: "bidi_step text_of debug Written c ?c1" using Suc.prems by (rule written)
  have w: "writer ?c1 = Some (AtAlarm False)" by (simp add: writer_loop_def)
  from alarm_fired [OF w] have c2: "bidi_step text_of debug AlarmFired ?c1 (writer_write ?c1)" .
  have "writer (writer_write ?c1) = Some AtWrite" by (simp add: writer_write_def)
  from Suc.IH [OF this] obtain c' where
    "bidi_run text_of debug (concat (replicate n [Written, AlarmFired])) (writer_write ?c1) c'"
    "length (ops c') = length (ops (writer_write ?c1)) + 2 * n" by blast
  with c1 c2 show ?case by (fastforce intro: run_step simp: writer_write_def writer_loop_def submit_def)
qed

section \<open>Pending operations\<close>

definition main_waits :: "bidi \<Rightarrow> bool" where
  "main_waits c \<longleftrightarrow> main_at c \<in> {AtRead, AtFinish}"

definition writer_waits :: "bidi \<Rightarrow> bool" where
  "writer_waits c \<longleftrightarrow> (case writer c of None \<Rightarrow> False | Some w \<Rightarrow> w \<noteq> WriterDone)"

text \<open>
  Operations submitted that no routine waits for, counted while the main routine runs
  (\<open>settled\<close>) and between two steps (\<open>balance\<close>).
\<close>

definition settled :: "bidi \<Rightarrow> int" where
  "settled c = int (length (ops c)) - of_bool (writer_waits c)"

definition balance :: "bidi \<Rightarrow> int" where
  "balance c = settled c - of_bool (main_waits c)"

lemmas balance_defs = balance_def settled_def main_waits_def writer_waits_def

lemma settled_fields [simp]:
  "settled (write_log l c) = settled c" "settled (c\<lparr>call_status := st\<rparr>) = settled c"
  "settled (c\<lparr>response := t, delay_ms := d\<rparr>) = settled c" "settled (c\<lparr>main_at := m\<rparr>) = settled c"
  "settled (cancel_alarm c) = settled c"
  "writer c = None \<Longrightarrow> settled (writer_loop now c) = settled c"
  by (simp_all add: settled_def writer_waits_def write_log_def cancel_alarm_def writer_loop_def submit_def
      split: option.split writer_point.split)

lemma settled_done [simp]: "writer c = Some WriterDone \<Longrightarrow> settled (c\<lparr>writer := None\<rparr>) = settled c"
  by (simp add: settled_def writer_waits_def)

lemma balance_between: "m \<noteq> AtRead \<Longrightarrow> m \<noteq> AtFinish \<Longrightarrow> balance (c\<lparr>main_at := m\<rparr>) = settled c"
  "main_at c = AtRead \<or> main_at c = AtFinish \<Longrightarrow> balance c = settled c - 1"
  "main_at c \<noteq> AtRead \<Longrightarrow> main_at c \<noteq> AtFinish \<Longrightarrow> balance c = settled c"
  by (auto simp: balance_defs)

lemma send_status_balance: "balance (send_status text_of c) = settled c"
  by (simp add: balance_defs send_status_def submit_def write_log_def)

lemma after_loop_balance: "balance (after_loop text_of c) = settled c"
proof (cases "writer c = None")
  case False
  define d where "d = cancel_alarm (write_log ''Stopping subroutine'' c)"
  have d: "settled d = settled c" by (simp add: d_def)
  have "after_loop text_of c = (if writer d = Some WriterDone
      then send_status text_of (write_log ''Subroutine stopped'' (d\<lparr>writer := None\<rparr>)) else d\<lparr>main_at := AtLast\<rparr>)"
    unfolding after_loop_def d_def Let_def using False by (simp only: if_False)
  with d show ?thesis by (cases "writer d = Some WriterDone") (simp_all add: send_status_balance balance_between)
qed (simp add: after_loop_def send_status_balance)

lemma bidi_loop_balance: "balance (bidi_loop text_of c) = settled c"
proof (cases "status_ok (call_status c)")
  case True
  then show ?thesis by (simp add: bidi_loop_def balance_defs submit_def)
qed (simp add: bidi_loop_def after_loop_balance)

text \<open>The state after a request that has a command.\<close>

definition request_ok :: "(status \<Rightarrow> string) \<Rightarrow> (bidi_command \<Rightarrow> string) \<Rightarrow> int \<Rightarrow> bidi_command \<Rightarrow> bidi \<Rightarrow> bidi" where
  "request_ok text_of debug now request c = (case on_request text_of debug now request c of Ok c' \<Rightarrow> c' | _ \<Rightarrow> c)"

lemma on_request_cases:
  "on_request text_of debug now request c =
     (if request = CommandNotSet then Fault AssertFailed else Ok (request_ok text_of debug now request c))"
  by (cases request) (simp_all add: request_ok_def on_request_def Let_def)

lemma on_request_balance:
  assumes "on_request text_of debug now request c = Ok c'"
  shows "balance c' = settled c"
proof (cases request)
  case (KMessage msg delay)
  with assms show ?thesis by (auto simp: on_request_def Let_def bidi_loop_balance)
next
  case KStart
  with assms show ?thesis by (auto simp: on_request_def Let_def bidi_loop_balance)
next
  case KStop
  show ?thesis
  proof (cases "writer c = None")
    case True
    with KStop assms show ?thesis by (auto simp: on_request_def Let_def bidi_loop_balance)
  next
    case False
    define d where "d = cancel_alarm (write_log ''Stopping subroutine''
        (write_log (''Received message '' @ bracket (debug KStop)) c))"
    have d: "settled d = settled c" by (simp add: d_def)
    have "writer (write_log (''Received message '' @ bracket (debug KStop)) c) \<noteq> None" using False by simp
    then have "on_request text_of debug now KStop c = Ok (if writer d = Some WriterDone
        then bidi_loop text_of (write_log ''Subroutine stopped'' (d\<lparr>writer := None\<rparr>)) else d\<lparr>main_at := AtStop\<rparr>)"
      unfolding on_request_def Let_def d_def by (simp only: if_False bidi_command.case)
    with assms KStop have "c' = (if writer d = Some WriterDone
        then bidi_loop text_of (write_log ''Subroutine stopped'' (d\<lparr>writer := None\<rparr>)) else d\<lparr>main_at := AtStop\<rparr>)" by simp
    with d show ?thesis by (cases "writer d = Some WriterDone") (simp_all add: bidi_loop_balance balance_between)
  qed
next
  case CommandNotSet
  with assms show ?thesis by (simp add: on_request_def)
qed

lemma joined_balance:
  assumes "writer_waits c"
  shows "balance (joined text_of (writer_end line c)) = balance c + 1"
proof -
  let ?d = "writer_end line c"
  have d: "settled ?d = settled c + 1" "writer ?d = Some WriterDone" "main_at ?d = main_at c"
    using assms by (simp_all add: settled_def writer_waits_def writer_end_def write_log_def)
  show ?thesis
    by (cases "main_at c") (use d in \<open>simp_all add: joined_def bidi_loop_balance send_status_balance balance_between\<close>)
qed

lemma bidi_step_balance: "bidi_step text_of debug e c c' \<Longrightarrow> balance c' = balance c + 1"
proof (induction rule: bidi_step.induct)
  case (got_request c now request c')
  from on_request_balance [OF got_request(2)] got_request(1) show ?case by (simp add: balance_def main_waits_def)
next
  case (stream_ended c)
  then have "balance c = settled c - 1" by (simp add: balance_def main_waits_def)
  with after_loop_balance show ?case by simp
next
  case (alarm_fired c b)
  then show ?case by (simp add: balance_defs writer_write_def submit_def write_log_def)
next
  case (alarm_cancelled c)
  then show ?case by (simp add: joined_balance writer_waits_def)
next
  case (written c now)
  then show ?case by (simp add: balance_defs writer_loop_def submit_def write_log_def)
next
  case (write_failed c)
  then show ?case by (simp add: joined_balance writer_waits_def)
next
  case (finished c)
  then show ?case by (simp add: balance_defs write_log_def)
qed

lemma bidi_run_balance_from: "bidi_run text_of debug es c c' \<Longrightarrow> balance c' = balance c + int (length es)"
  by (induction rule: bidi_run.induct) (simp_all add: bidi_step_balance)

lemma bidi_run_balance:
  assumes "bidi_run text_of debug es (bidi_start text_of) c"
  shows "length (ops c) = length es + (if main_waits c then 1 else 0) + (if writer_waits c then 1 else 0)"
proof -
  have "balance (bidi_start text_of) = 0"
    by (simp add: bidi_start_def bidi_loop_balance) (simp add: settled_def writer_waits_def)
  with bidi_run_balance_from [OF assms] have "balance c = int (length es)" by simp
  then have "int (length (ops c)) = int (length es) + of_bool (main_waits c) + of_bool (writer_waits c)"
    by (simp add: balance_def settled_def)
  then show ?thesis by (cases "main_waits c"; cases "writer_waits c") simp_all
qed

lemma bidi_progress:
  assumes "bidi_inv c" "main_at c \<noteq> MainEnd"
  shows "\<exists>e c'. bidi_step text_of debug e c c'"
proof (cases "main_at c = AtRead \<or> main_at c = AtFinish")
  case True
  then show ?thesis by (meson stream_ended finished)
next
  case False
  with assms have "main_at c \<in> {AtStop, AtLast}" by (cases "main_at c") simp_all
  with assms(1) have "writer c \<notin> {None, Some WriterDone}" unfolding bidi_inv_def by blast
  then obtain w where "writer c = Some w" "w \<noteq> WriterDone" by (cases "writer c") auto
  then show ?thesis by (cases w) (meson alarm_fired written)+
qed

lemma two_requests:
  "\<exists>c. bidi_run (\<lambda>st. []) (\<lambda>q. []) [GotRequest (KMessage ''hi'' 5), GotRequest KStart] (bidi_start (\<lambda>st. [])) c \<and>
     main_waits c \<and> writer_waits c"
proof -
  let ?c1 = "request_ok (\<lambda>st. []) (\<lambda>q. []) 0 (KMessage ''hi'' 5) (bidi_start (\<lambda>st. []))"
  let ?c2 = "request_ok (\<lambda>st. []) (\<lambda>q. []) 0 KStart ?c1"
  note defs = request_ok_def on_request_def bidi_start_def bidi_loop_def submit_def write_log_def Status_OK_def status_ok_def
    writer_loop_def main_waits_def writer_waits_def
  have "main_at (bidi_start (\<lambda>st. [])) = AtRead" "main_at ?c1 = AtRead" "main_waits ?c2" "writer_waits ?c2"
    by (simp_all add: defs)
  moreover from this have "bidi_step (\<lambda>st. []) (\<lambda>q. []) (GotRequest (KMessage ''hi'' 5)) (bidi_start (\<lambda>st. [])) ?c1"
    "bidi_step (\<lambda>st. []) (\<lambda>q. []) (GotRequest KStart) ?c1 ?c2"
    by (auto intro!: got_request [where now = 0] simp: on_request_cases)
  ultimately show ?thesis by (meson run_none run_step)
qed

text \<open>A stop command while the alarm is pending.\<close>

lemma stop_at_alarm:
  assumes "main_at c0 = AtRead" "status_ok (call_status c0)" "on_request text_of debug now KStop c0 = Ok c"
    and w: "writer c0 = Some (AtAlarm b)"
  shows "main_at c = AtStop \<and> writer c = Some (AtAlarm True) \<and> ops c = ops c0 \<and>
      (\<exists>c'. bidi_step text_of debug AlarmCancelled c c') \<and>
      (\<forall>e c'. bidi_step text_of debug e c c' \<longrightarrow>
        e = AlarmCancelled \<and> main_at c' = AtRead \<and> writer c' = None \<and> ops c' = ops c0 @ [Read] \<or>
        e = AlarmFired \<and> writer c' = Some AtWrite) \<and>
      (\<forall>es c'. bidi_run text_of debug (AlarmFired # es) c c' \<and> WriteFailed \<notin> set es \<longrightarrow> main_at c' = AtStop)"
proof -
  have c: "main_at c = AtStop" "writer c = Some (AtAlarm True)" "ops c = ops c0" "call_status c = call_status c0"
    using assms(3) w by (auto simp: on_request_def Let_def cancel_alarm_def write_log_def)
  have steps: "e = AlarmCancelled \<and> main_at c' = AtRead \<and> writer c' = None \<and> ops c' = ops c0 @ [Read] \<or>
      e = AlarmFired \<and> writer c' = Some AtWrite \<and> unheard c'" if "bidi_step text_of debug e c c'" for e c'
    using that c assms(2)
    by (auto elim!: bidi_step.cases simp: joined_def writer_end_def writer_write_def bidi_loop_def submit_def context_ops unheard_def)
  have "main_at c' = AtStop" if "bidi_run text_of debug (AlarmFired # es) c c'" "WriteFailed \<notin> set es" for es c'
  proof -
    from that(1) obtain c1 where "bidi_step text_of debug AlarmFired c c1" "bidi_run text_of debug es c1 c'"
      by (auto elim: bidi_run.cases)
    with steps [of AlarmFired c1] unheard_run [of text_of debug es c1 c'] that(2) show ?thesis by (auto simp: unheard_def)
  qed
  with c alarm_cancelled [OF c(2)] steps show ?thesis by blast
qed

text \<open>A handler that has read a stop command, with the subroutine at \<open>w\<close>.\<close>

definition stopping :: "writer_point \<Rightarrow> bidi" where
  "stopping w = \<lparr>main_at = AtRead, writer = Some w, response = ''hi'', delay_ms = 1000, call_status = Status_OK,
     ops = [Read], bidi_log = []\<rparr>"

section \<open>Properties\<close>

text \<open>
  C23. One \<open>Finish\<close>, at the end.  In every state the handler reaches, with any completions, no
  operation has ended the call before the main routine sends the status; from then on the last
  operation is the only one that ends it, the write subroutine is gone, and the status sent is
  \<open>OK\<close>, also when the handler found a request it had to refuse.
\<close>

theorem bidi_finishes_once:
  assumes "bidi_run text_of debug es (bidi_start text_of) c"
  shows "if main_at c \<in> {AtFinish, MainEnd}
    then writer c = None \<and> (\<exists>before. ops c = before @ [Finish None Status_OK] \<and> \<not> list_ex is_finish before)
    else \<not> list_ex is_finish (ops c)"
  using bidi_run_inv [OF assms bidi_start_inv] by (simp add: bidi_inv_def finishing_def split: if_splits)

theorem bidi_finishes_once_witness:
  "\<exists>c before. bidi_run (\<lambda>st. error_message st) (\<lambda>q. ''stop'') [GotRequest KStop] (bidi_start (\<lambda>st. error_message st)) c \<and>
     call_status c = Status FAILED_PRECONDITION ''Can not stop when not running'' \<and> ops c = before @ [Finish None Status_OK]"
proof -
  let ?start = "bidi_start (\<lambda>st. error_message st)"
  have start: "main_at ?start = AtRead" "writer ?start = None"
    by (simp_all add: bidi_start_def bidi_loop_def submit_def Status_OK_def status_ok_def)
  obtain c where c: "on_request (\<lambda>st. error_message st) (\<lambda>q. ''stop'') 0 KStop ?start = Ok c" "main_at c = AtFinish"
    "call_status c = Status FAILED_PRECONDITION ''Can not stop when not running''"
    by (simp add: on_request_def start bidi_defs status_ok_def Let_def)
  have run: "bidi_run (\<lambda>st. error_message st) (\<lambda>q. ''stop'') [GotRequest KStop] ?start c"
    by (rule run_step [OF got_request [OF start(1) c(1)] run_none])
  from bidi_finishes_once [OF run] c(2) run c(3) show ?thesis by auto
qed

text \<open>
  C24. Stopping.  A stop command that finds the subroutine at its alarm cancels that alarm and waits
  for the subroutine, and only two completions can then come.  The cancelled one ends the
  subroutine, and the next request is read.  But the time of the alarm may have come before
  \<open>Cancel\<close>: then the subroutine writes, and the command is not heard; nor is one that finds it
  writing.  As long as no write fails the main routine then waits, while the subroutine may go on
  for any number of rounds.
\<close>

theorem stop_command:
  assumes "main_at c0 = AtRead" "status_ok (call_status c0)"
    and "on_request text_of debug now KStop c0 = Ok c"
  shows "(writer c0 = Some (AtAlarm b) \<longrightarrow>
      main_at c = AtStop \<and> writer c = Some (AtAlarm True) \<and> ops c = ops c0 \<and>
      (\<exists>c'. bidi_step text_of debug AlarmCancelled c c') \<and>
      (\<forall>e c'. bidi_step text_of debug e c c' \<longrightarrow>
        e = AlarmCancelled \<and> main_at c' = AtRead \<and> writer c' = None \<and> ops c' = ops c0 @ [Read] \<or>
        e = AlarmFired \<and> writer c' = Some AtWrite) \<and>
      (\<forall>es c'. bidi_run text_of debug (AlarmFired # es) c c' \<and> WriteFailed \<notin> set es \<longrightarrow> main_at c' = AtStop)) \<and>
    (writer c0 = Some AtWrite \<longrightarrow>
      (\<forall>es c'. bidi_run text_of debug es c c' \<and> WriteFailed \<notin> set es \<longrightarrow> main_at c' = AtStop) \<and>
      (\<forall>n. \<exists>es c'. bidi_run text_of debug es c c' \<and> WriteFailed \<notin> set es \<and> length (ops c') = length (ops c0) + 2 * n))"
proof (intro conjI impI)
  assume w: "writer c0 = Some (AtAlarm b)"
  from stop_at_alarm [OF assms w] show "main_at c = AtStop" "writer c = Some (AtAlarm True)" "ops c = ops c0"
    "\<exists>c'. bidi_step text_of debug AlarmCancelled c c'"
    "\<forall>e c'. bidi_step text_of debug e c c' \<longrightarrow>
        e = AlarmCancelled \<and> main_at c' = AtRead \<and> writer c' = None \<and> ops c' = ops c0 @ [Read] \<or>
        e = AlarmFired \<and> writer c' = Some AtWrite"
    "\<forall>es c'. bidi_run text_of debug (AlarmFired # es) c c' \<and> WriteFailed \<notin> set es \<longrightarrow> main_at c' = AtStop"
    by blast+
next
  assume w: "writer c0 = Some AtWrite"
  with assms(3) have c: "unheard c" "writer c = Some AtWrite" "ops c = ops c0"
    by (auto simp: on_request_def Let_def cancel_alarm_def unheard_def)
  show "\<forall>es c'. bidi_run text_of debug es c c' \<and> WriteFailed \<notin> set es \<longrightarrow> main_at c' = AtStop"
    using unheard_run [OF _ c(1)] by (auto simp: unheard_def)
  show "\<forall>n. \<exists>es c'. bidi_run text_of debug es c c' \<and> WriteFailed \<notin> set es \<and> length (ops c') = length (ops c0) + 2 * n"
  proof
    fix n
    from unheard_goes_on [OF c(2)] obtain c' where "bidi_run text_of debug (concat (replicate n [Written, AlarmFired])) c c'"
      "length (ops c') = length (ops c0) + 2 * n" using c(3) by metis
    moreover have "WriteFailed \<notin> set (concat (replicate n [Written, AlarmFired]))" by (induction n) auto
    ultimately show "\<exists>es c'. bidi_run text_of debug es c c' \<and> WriteFailed \<notin> set es \<and> length (ops c') = length (ops c0) + 2 * n" by blast
  qed
qed

text \<open>A stop command that is heard, and one that finds the subroutine writing.\<close>

theorem stop_command_witness:
  "(\<exists>c c'. on_request (\<lambda>st. []) (\<lambda>q. []) 0 KStop (stopping (AtAlarm False)) = Ok c \<and>
     bidi_step (\<lambda>st. []) (\<lambda>q. []) AlarmCancelled c c' \<and> main_at c' = AtRead \<and> ops c' = [Read, Read]) \<and>
   (\<exists>c. on_request (\<lambda>st. []) (\<lambda>q. []) 0 KStop (stopping AtWrite) = Ok c \<and>
     (\<exists>es c'. bidi_run (\<lambda>st. []) (\<lambda>q. []) es c c' \<and> main_at c' = AtStop \<and> length (ops c') = 2001))"
proof
  have at: "main_at (stopping w) = AtRead" "status_ok (call_status (stopping w))" "writer (stopping w) = Some w"
    "ops (stopping w) = [Read]" for w
    by (simp_all add: stopping_def Status_OK_def status_ok_def)
  obtain c where c: "on_request (\<lambda>st. []) (\<lambda>q. []) 0 KStop (stopping (AtAlarm False)) = Ok c"
    by (simp add: on_request_def Let_def stopping_def cancel_alarm_def)
  note heard = conjunct1 [OF stop_command [OF at(1,2) c], rule_format, OF at(3)]
  then obtain c' where "bidi_step (\<lambda>st. []) (\<lambda>q. []) AlarmCancelled c c'" by blast
  moreover from heard this have "main_at c' = AtRead \<and> ops c' = [Read, Read]" using at(4) by auto
  ultimately show "\<exists>c c'. on_request (\<lambda>st. []) (\<lambda>q. []) 0 KStop (stopping (AtAlarm False)) = Ok c \<and>
     bidi_step (\<lambda>st. []) (\<lambda>q. []) AlarmCancelled c c' \<and> main_at c' = AtRead \<and> ops c' = [Read, Read]" using c by blast
  obtain c1 where c1: "on_request (\<lambda>st. []) (\<lambda>q. []) 0 KStop (stopping AtWrite) = Ok c1"
    by (simp add: on_request_def Let_def stopping_def cancel_alarm_def)
  note unheard = conjunct2 [OF stop_command [OF at(1,2) c1], rule_format, OF at(3)]
  from spec [OF conjunct2 [OF unheard], of 1000] obtain es c' where
    "bidi_run (\<lambda>st. []) (\<lambda>q. []) es c1 c'" "WriteFailed \<notin> set es" "length (ops c') = 2001" using at(4) by auto
  with conjunct1 [OF unheard] c1
  show "\<exists>c. on_request (\<lambda>st. []) (\<lambda>q. []) 0 KStop (stopping AtWrite) = Ok c \<and>
     (\<exists>es c'. bidi_run (\<lambda>st. []) (\<lambda>q. []) es c c' \<and> main_at c' = AtStop \<and> length (ops c') = 2001)" by blast
qed

text \<open>
  C38. Nothing is lost.  Every operation submitted has completed or is waited for by one of the two
  routines, each by its own; until the handler has ended one of them waits, so some completion
  moves it.  A request that is read is handled, unless its command is not set: then the
  assertion of the \<open>default\<close> branch fails and the server ends.
\<close>

theorem bidi_pending:
  assumes "bidi_run text_of debug es (bidi_start text_of) c"
  shows "length (ops c) = length es + (if main_waits c then 1 else 0) + (if writer_waits c then 1 else 0) \<and>
    (main_at c \<noteq> MainEnd \<longrightarrow> (\<exists>e c'. bidi_step text_of debug e c c')) \<and>
    (\<forall>now request. on_request text_of debug now request c =
      (if request = CommandNotSet then Fault AssertFailed else Ok (request_ok text_of debug now request c)))"
  using bidi_run_balance [OF assms] bidi_progress [OF bidi_run_inv [OF assms bidi_start_inv]] on_request_cases by simp

theorem bidi_pending_witness:
  "\<exists>c. bidi_run (\<lambda>st. []) (\<lambda>q. []) [GotRequest (KMessage ''hi'' 5), GotRequest KStart] (bidi_start (\<lambda>st. [])) c \<and>
     length (ops c) = 4"
proof -
  obtain c where "bidi_run (\<lambda>st. []) (\<lambda>q. []) [GotRequest (KMessage ''hi'' 5), GotRequest KStart] (bidi_start (\<lambda>st. [])) c"
    "main_waits c" "writer_waits c"
    using two_requests by blast
  with bidi_pending [OF this(1)] show ?thesis by auto
qed

end
