(* ===== verification/AsyncSteps.thy ===== *)
theory AsyncSteps
  imports AsyncCalls
begin

text \<open>
  Running a coroutine one action at a time: frame \<open>h\<close> goes on at \<open>pt\<close> in world \<open>w\<close>, and the
  \<open>Resume\<close> that made it has an outcome with every large enough budget (\<open>ends\<close>).  One rule per action, with the world it leaves written out; for the coroutines whose routines run beside each
  other and share their state, which are not calls on one stack.
\<close>

section \<open>Outcomes of a resumption\<close>


definition runs :: "('pc, 'op, 'r, 'v, 's) prog \<Rightarrow> hdl \<Rightarrow> ('pc, 'v) point
    \<Rightarrow> ('pc, 'op, 'r, 'v, 's) machine \<Rightarrow> ('pc, 'op, 'r, 'v, 's) machine \<Rightarrow> bool" where
  "runs P h pt w w' \<longleftrightarrow> (\<exists>n. \<forall>m \<ge> n. exec_call P m (CRun h pt) w = Ok w')"

lemma runsI: "exec_call P n (CRun h pt) w = Ok w' \<Longrightarrow> runs P h pt w w'"
  unfolding runs_def using exec_call_Ok_mono by blast

lemma ends_after:
  assumes "runs P h pt w w1" and "\<And>m. n \<le> m \<Longrightarrow> after_resume (exec_call P m) h w1 = r"
  shows "ends P h pt w r"
proof -
  from assms(1) obtain k where "\<forall>m \<ge> k. exec_call P m (CRun h pt) w = Ok w1" by (auto simp: runs_def)
  with assms(2) show ?thesis unfolding ends_def by (intro exI [of _ "max k n"]) simp
qed

lemma ends_call:
  assumes "\<And>m. n \<le> m \<Longrightarrow> exec_call P (m + i) (CRun h pt) w = exec_call P m (CRun h pt1) w1" and "ends P h pt1 w1 r"
  shows "ends P h pt w r"
proof -
  from assms(2) obtain k where k: "\<forall>m \<ge> k. \<forall>m' \<ge> k.
      obind (exec_call P m (CRun h pt1) w1) (after_resume (exec_call P m') h) = r" by (auto simp: ends_def)
  have "obind (exec_call P m (CRun h pt) w) (after_resume (exec_call P m') h) = r"
    if "i + max n k \<le> m" "i + max n k \<le> m'" for m m'
  proof -
    define j where "j = m - i"
    from that have j: "m = j + i" "n \<le> j" "k \<le> j" "k \<le> m'" by (simp_all add: j_def)
    from assms(1) [OF j(2)] k j(3,4) show ?thesis by (simp add: j(1))
  qed
  then show ?thesis unfolding ends_def by blast
qed

section \<open>One rule per action\<close>

lemma runs_suspend:
  assumes "fetch P pt = CoSuspend op k" "heap w h = Some f"
    and "w' = w\<lparr>heap := (heap w)(h \<mapsto> f\<lparr>status := AwOp None k\<rparr>), events := events w @ [Submitted h op]\<rparr>"
  shows "runs P h pt w w'"
proof (rule runsI)
  show "exec_call P (Suc 0) (CRun h pt) w = Ok w'"
    using assms by (simp add: exec_call_unfold run_body_def frame_defs del: exec_call.simps)
qed

lemma runs_step:
  assumes "fetch P pt = CoStep g" "g (shared w) = (s, pt1)" "runs P h pt1 (w\<lparr>shared := s\<rparr>) w'"
  shows "runs P h pt w w'"
proof -
  from assms(3) obtain n where "exec_call P n (CRun h pt1) (w\<lparr>shared := s\<rparr>) = Ok w'" by (auto simp: runs_def)
  then have "exec_call P (Suc n) (CRun h pt) w = Ok w'"
    using assms(1,2) by (simp add: exec_call_unfold run_body_def del: exec_call.simps)
  then show ?thesis by (rule runsI)
qed

lemma ends_suspend:
  assumes "fetch P pt = CoSuspend op k" "heap w h = Some f"
    and "r = Ok (w\<lparr>heap := (heap w)(h \<mapsto> f\<lparr>status := AwOp None k\<rparr>), events := events w @ [Submitted h op]\<rparr>)"
  shows "ends P h pt w r"
  by (rule ends_after [OF runs_suspend [OF assms(1,2) refl]]) (use assms(3) in \<open>simp add: after_resume_def\<close>)

lemma ends_step:
  assumes "fetch P pt = CoStep g" "g (shared w) = (s, pt1)" "ends P h pt1 (w\<lparr>shared := s\<rparr>) r"
  shows "ends P h pt w r"
  by (rule ends_call [where i = 1, OF _ assms(3)])
     (use assms(1,2) in \<open>simp add: exec_call_unfold run_body_def del: exec_call.simps\<close>)

lemma ends_fault:
  assumes "fetch P pt = CoFault x"
  shows "ends P h pt w (Fault x)"
  unfolding ends_def
proof (intro exI [of _ "Suc 0"] allI impI)
  fix m m' assume "Suc 0 \<le> m" "Suc 0 \<le> m'"
  then obtain j where "m = Suc j" by (cases m) auto
  with assms show "obind (exec_call P m (CRun h pt) w) (after_resume (exec_call P m') h) = Fault x"
    by (simp add: exec_call_unfold run_body_def del: exec_call.simps)
qed

lemma runs_return:
  assumes "fetch P pt = CoReturnVoid" "heap w h = Some f"
  shows "runs P h pt w (w\<lparr>heap := (heap w)(h \<mapsto> f\<lparr>status := Final\<rparr>)\<rparr>)"
proof (rule runsI)
  show "exec_call P (Suc 0) (CRun h pt) w = Ok (w\<lparr>heap := (heap w)(h \<mapsto> f\<lparr>status := Final\<rparr>)\<rparr>)"
    using assms by (simp add: exec_call_unfold run_body_def finish_def on_frame_def del: exec_call.simps)
qed

text \<open>The end of a job, of a task nobody awaits, and of a task that is awaited.\<close>

lemma ends_return_job:
  assumes "fetch P pt = CoReturnVoid" "heap w h = Some f" "parent f = None" "destroyOnDone f"
    and "r = Ok (w\<lparr>heap := (heap w)(h := None), events := events w @ [Destroyed h]\<rparr>)"
  shows "ends P h pt w r"
  by (rule ends_after [OF runs_return [OF assms(1,2)]])
     (use assms(3-5) in \<open>simp add: after_resume_def Let_def destroy_def\<close>)

lemma ends_return_task:
  assumes "fetch P pt = CoReturnVoid" "heap w h = Some f" "parent f = None" "\<not> destroyOnDone f"
    and "r = Ok (w\<lparr>heap := (heap w)(h \<mapsto> f\<lparr>status := Final\<rparr>)\<rparr>)"
  shows "ends P h pt w r"
  by (rule ends_after [OF runs_return [OF assms(1,2)]])
     (use assms(3-5) in \<open>simp add: after_resume_def Let_def\<close>)

lemma ends_return_awaited:
  assumes "fetch P pt = CoReturnVoid" "heap w h = Some f" "parent f = Some p" "\<not> destroyOnDone f"
    and "heap w p = Some fp" "status fp = AwTask h (KVoid pt1)" "p \<noteq> h"
    and rest: "ends P p pt1 (w\<lparr>heap := (heap w)(h := None, p \<mapsto> fp\<lparr>status := Running\<rparr>),
      events := events w @ [Destroyed h]\<rparr>) r"
  shows "ends P h pt w r"
proof -
  let ?w1 = "w\<lparr>heap := (heap w)(h \<mapsto> f\<lparr>status := Final\<rparr>)\<rparr>"
  have "exec_call P (Suc n) (CResumeHandle p) ?w1 = exec_call P n (CRun p pt1)
      (w\<lparr>heap := (heap w)(h := None, p \<mapsto> fp\<lparr>status := Running\<rparr>), events := events w @ [Destroyed h]\<rparr>)" for n
    using assms(5-7) by (cases w) (simp add: exec_call_unfold resume_handle_body_def is_done_def take_result_def destroy_def
        set_status_def on_frame_def del: exec_call.simps)
  from Resume_ends [OF rest this] obtain n where n: "\<forall>m \<ge> n. Resume P m p ?w1 = r" by blast
  show ?thesis
    by (rule ends_after [OF runs_return [OF assms(1,2)], where n = n])
       (use assms(3,4) n in \<open>simp add: after_resume_def Let_def\<close>)
qed

text \<open>Awaiting a task that was started: it is done, or the coroutine waits.\<close>

lemma await_done_call:
  assumes "fetch P pt = CoAwaitTask c k" "heap w c = Some fc" "status fc = Final" "apply_kont k (result fc) = Ok pt1"
  shows "exec_call P (Suc (Suc m)) (CRun h pt) w = exec_call P m (CRun h pt1) (destroy c w)"
  using assms by (simp add: exec_call_unfold run_body_def await_task_body_def is_done_def take_result_def del: exec_call.simps)

lemma await_blocked_call:
  assumes "fetch P pt = CoAwaitTask c k" "heap w c = Some fc" "\<not> is_Final (status fc)" "executor fc = Some e"
    and "heap w h = Some fh" "executor fh = Some e" "h \<noteq> c"
  shows "exec_call P (Suc (Suc m)) (CRun h pt) w =
    Ok (w\<lparr>heap := (heap w)(c \<mapsto> fc\<lparr>parent := Some h\<rparr>, h \<mapsto> fh\<lparr>status := AwTask c k\<rparr>)\<rparr>)"
  using assms by (simp add: exec_call_unfold run_body_def await_task_body_def frame_defs Let_def del: exec_call.simps)

lemma ends_await_done:
  assumes "fetch P pt = CoAwaitTask c (KVoid pt1)" "heap w c = Some fc" "status fc = Final"
    and "ends P h pt1 (w\<lparr>heap := (heap w)(c := None), events := events w @ [Destroyed c]\<rparr>) r"
  shows "ends P h pt w r"
proof (rule ends_call [where i = 2 and n = 0, OF _ assms(4)])
  show "exec_call P (m + 2) (CRun h pt) w = exec_call P m (CRun h pt1)
      (w\<lparr>heap := (heap w)(c := None), events := events w @ [Destroyed c]\<rparr>)" for m
    using await_done_call [OF assms(1-3), of pt1 m h] by (simp add: destroy_def numeral_2_eq_2)
qed

lemma ends_await_blocked:
  assumes "fetch P pt = CoAwaitTask c k" "heap w c = Some fc" "\<not> is_Final (status fc)" "executor fc = Some e"
    and "heap w h = Some fh" "executor fh = Some e" "h \<noteq> c"
    and "r = Ok (w\<lparr>heap := (heap w)(c \<mapsto> fc\<lparr>parent := Some h\<rparr>, h \<mapsto> fh\<lparr>status := AwTask c k\<rparr>)\<rparr>)"
  shows "ends P h pt w r"
  using ends_after [OF runsI [OF await_blocked_call [OF assms(1-7)]]] assms(5,8) by (simp add: after_resume_def)

text \<open>Starting a task beside the running coroutine.\<close>

lemma start_call:
  assumes "fetch P pt = CoStart p k" "heap w h = Some f" "executor f = Some e" "h \<noteq> fresh w"
    and "runs P (fresh w) p (w\<lparr>heap := (heap w)(fresh w \<mapsto> \<lparr>status = Running, result = None, destroyOnDone = False,
      executor = Some e, parent = None\<rparr>), fresh := Suc (fresh w)\<rparr>) w1"
  shows "\<exists>n. \<forall>m \<ge> n. exec_call P (Suc m) (CRun h pt) w = exec_call P m (CRun h (k (fresh w))) w1"
proof -
  let ?c = "fresh w"
  let ?w0 = "w\<lparr>heap := (heap w)(?c \<mapsto> \<lparr>status = Running, result = None, destroyOnDone = False,
      executor = Some e, parent = None\<rparr>), fresh := Suc ?c\<rparr>"
  from assms(5) obtain n where n: "\<forall>m \<ge> n. exec_call P m (CRun ?c p) ?w0 = Ok w1" by (auto simp: runs_def)
  have "exec_call P (Suc m) (CRun h pt) w = exec_call P m (CRun h (k ?c)) w1" if "n + 2 \<le> m" for m
  proof -
    from that obtain j where j: "m = Suc (Suc j)" "n \<le> j" by (metis Suc_le_D add_2_eq_Suc' Suc_le_mono)
    have w0: "set_status ?c Running (on_frame ?c (\<lambda>g. g\<lparr>executor := executor f\<rparr>) (snd (allocate p w))) = ?w0"
      using assms(3) by (cases w) (simp add: frame_defs)
    have "exec_call P m (CStartTask h ?c) (snd (allocate p w)) = Ok w1"
      using n j(2) assms(2,4) w0
      by (simp add: j(1) exec_call_unfold start_task_body_def resume_handle_body_def on_frame_def allocate_def
          new_frame_def del: exec_call.simps)
    then show ?thesis
      using assms(1) by (simp add: exec_call_unfold run_body_def allocate_def del: exec_call.simps)
  qed
  then show ?thesis by blast
qed

lemma ends_start:
  assumes "fetch P pt = CoStart p k" "heap w h = Some f" "executor f = Some e" "h \<noteq> fresh w"
    and "runs P (fresh w) p (w\<lparr>heap := (heap w)(fresh w \<mapsto> \<lparr>status = Running, result = None, destroyOnDone = False,
      executor = Some e, parent = None\<rparr>), fresh := Suc (fresh w)\<rparr>) w1"
    and "ends P h (k (fresh w)) w1 r"
  shows "ends P h pt w r"
  using start_call [OF assms(1-5)] ends_call [where i = 1, OF _ assms(6)] by auto

section \<open>Completions and spawning\<close>

lemma ends_complete:
  assumes "heap w h = Some f" "status f = AwOp v k"
    and "ends P h (k x) (w\<lparr>heap := (heap w)(h \<mapsto> f\<lparr>status := Running\<rparr>)\<rparr>) r"
  shows "\<exists>n. \<forall>m \<ge> n. Resume P m h (complete h x w) = r"
proof (rule Resume_ends [OF assms(3)])
  show "exec_call P (Suc n) (CResumeHandle h) (complete h x w) =
      exec_call P n (CRun h (k x)) (w\<lparr>heap := (heap w)(h \<mapsto> f\<lparr>status := Running\<rparr>)\<rparr>)" for n
    using assms(1,2) by (simp add: exec_call_unfold resume_handle_body_def complete_def frame_defs del: exec_call.simps)
qed

lemma ends_spawn:
  assumes "mode P e = Immediate"
    and "ends P (fresh w) (Body pc) (w\<lparr>heap := (heap w)(fresh w \<mapsto> \<lparr>status = Running, result = None, destroyOnDone = True,
      executor = Some e, parent = None\<rparr>), fresh := Suc (fresh w)\<rparr>) r"
  shows "\<exists>n. \<forall>m \<ge> n. Spawn P m e pc w = r"
proof -
  let ?c = "fresh w"
  let ?f = "\<lambda>st. \<lparr>status = st, result = None, destroyOnDone = True, executor = Some e, parent = None\<rparr>"
  let ?w1 = "w\<lparr>heap := (heap w)(?c \<mapsto> ?f (Initial (Body pc))), fresh := Suc ?c\<rparr>"
  have "exec_call P (Suc n) (CResumeHandle ?c) ?w1 = exec_call P n (CRun ?c (Body pc))
      (w\<lparr>heap := (heap w)(?c \<mapsto> ?f Running), fresh := Suc ?c\<rparr>)" for n
    by (cases w) (simp add: exec_call_unfold resume_handle_body_def frame_defs del: exec_call.simps)
  from Resume_ends [OF assms(2) this] obtain n where n: "\<forall>m \<ge> n. Resume P m ?c ?w1 = r" by blast
  have "Spawn P m e pc w = r" if "n + 2 \<le> m" for m
  proof -
    from that obtain j where j: "m = Suc (Suc j)" "n \<le> j" by (metis Suc_le_D add_2_eq_Suc' Suc_le_mono)
    have "on_frame ?c (\<lambda>f. f\<lparr>executor := Some e, destroyOnDone := True\<rparr>) (snd (allocate (Body pc) w)) = ?w1"
      by (cases w) (simp add: frame_defs)
    then have "Spawn P m e pc w = Resume P j ?c ?w1"
      using assms(1) by (simp add: j(1) Spawn_def allocate_def exec_call_unfold Spawn_body_def spawn_job_body_def
          del: exec_call.simps)
    with n j(2) show ?thesis by simp
  qed
  then show ?thesis by blast
qed

section \<open>Straight runs\<close>

text \<open>
  A run of ordinary code up to the next operation, without tasks in between: the machine creates
  no frame and leaves exactly the world one expects.
\<close>

inductive straight :: "('pc, 'op, 'r, 'v, 's) prog \<Rightarrow> ('pc, 'v) point \<Rightarrow> 's \<Rightarrow> 's \<Rightarrow> 'op \<Rightarrow> ('r \<Rightarrow> ('pc, 'v) point) \<Rightarrow> bool"
  for P where
  straight_step: "fetch P pt = CoStep f \<Longrightarrow> f s = (s1, pt1) \<Longrightarrow> straight P pt1 s1 s2 op kr \<Longrightarrow> straight P pt s s2 op kr"
| straight_suspend: "fetch P pt = CoSuspend op kr \<Longrightarrow> straight P pt s s op kr"

lemma straight_CoStep: "fetch P pt = CoStep f \<Longrightarrow> straight P pt s s' op kr \<longleftrightarrow> straight P (snd (f s)) (fst (f s)) s' op kr"
  by (subst straight.simps) (auto simp: prod_eq_iff)

lemma straight_CoSuspend: "fetch P pt = CoSuspend op' k \<Longrightarrow> straight P pt s s' op kr \<longleftrightarrow> s' = s \<and> op = op' \<and> kr = k"
  by (subst straight.simps) auto

lemma straight_eval: "straight P pt s s' op kr \<Longrightarrow> eval P pt s s' (Blocked op kr [])"
  by (induction rule: straight.induct) (auto intro: eval_step eval_suspend)

lemma ends_straight:
  assumes "straight P pt (shared w) s' op kr" and "heap w h = Some f"
  shows "ends P h pt w (Ok (w\<lparr>heap := (heap w)(h \<mapsto> f\<lparr>status := AwOp None kr\<rparr>), shared := s',
    events := events w @ [Submitted h op]\<rparr>))"
  using assms
proof (induction pt "shared w" s' op kr arbitrary: w rule: straight.induct)
  case (straight_step pt g s1 pt1 s2 op kr)
  from straight_step.hyps(4) [of "w\<lparr>shared := s1\<rparr>"] straight_step.prems
  show ?case by (intro ends_step [OF straight_step.hyps(1,2)]) simp
next
  case (straight_suspend pt op kr)
  then show ?case by (intro ends_suspend [OF straight_suspend.hyps]) simp_all
qed

lemma spawn_straight:
  assumes "mode P e = Immediate" and "straight P (Body pc) (shared w) s' op kr"
  shows "\<exists>n. \<forall>m \<ge> n. Spawn P m e pc w = Ok (w\<lparr>heap := (heap w)(fresh w \<mapsto> \<lparr>status = AwOp None kr, result = None,
      destroyOnDone = True, executor = Some e, parent = None\<rparr>), fresh := Suc (fresh w), shared := s',
      events := events w @ [Submitted (fresh w) op]\<rparr>)"
proof (rule ends_spawn [OF assms(1)])
  let ?w0 = "w\<lparr>heap := (heap w)(fresh w \<mapsto> \<lparr>status = Running, result = None, destroyOnDone = True,
      executor = Some e, parent = None\<rparr>), fresh := Suc (fresh w)\<rparr>"
  have "straight P (Body pc) (shared ?w0) s' op kr" using assms(2) by simp
  from ends_straight [OF this, of "fresh w" "\<lparr>status = Running, result = None, destroyOnDone = True,
      executor = Some e, parent = None\<rparr>"]
  show "ends P (fresh w) (Body pc) ?w0 (Ok (w\<lparr>heap := (heap w)(fresh w \<mapsto> \<lparr>status = AwOp None kr, result = None,
      destroyOnDone = True, executor = Some e, parent = None\<rparr>), fresh := Suc (fresh w), shared := s',
      events := events w @ [Submitted (fresh w) op]\<rparr>))" by (cases w) simp
qed

text \<open>A completed operation: the frame goes on to its next operation, or it was a job and ends.\<close>

lemma complete_straight:
  assumes "heap w h = Some f" "status f = AwOp v k" and "straight P (k x) (shared w) s' op kr"
  shows "\<exists>n. \<forall>m \<ge> n. Resume P m h (complete h x w) = Ok (w\<lparr>heap := (heap w)(h \<mapsto> f\<lparr>status := AwOp None kr\<rparr>),
      shared := s', events := events w @ [Submitted h op]\<rparr>)"
proof (rule ends_complete [OF assms(1,2)])
  let ?w0 = "w\<lparr>heap := (heap w)(h \<mapsto> f\<lparr>status := Running\<rparr>)\<rparr>"
  have "straight P (k x) (shared ?w0) s' op kr" using assms(3) by simp
  from ends_straight [OF this, of h "f\<lparr>status := Running\<rparr>"]
  show "ends P h (k x) ?w0 (Ok (w\<lparr>heap := (heap w)(h \<mapsto> f\<lparr>status := AwOp None kr\<rparr>),
      shared := s', events := events w @ [Submitted h op]\<rparr>))" by simp
qed

text \<open>The same up to the end of the coroutine.\<close>

inductive straight_end :: "('pc, 'op, 'r, 'v, 's) prog \<Rightarrow> ('pc, 'v) point \<Rightarrow> 's \<Rightarrow> 's \<Rightarrow> bool" for P where
  straight_end_step: "fetch P pt = CoStep f \<Longrightarrow> f s = (s1, pt1) \<Longrightarrow> straight_end P pt1 s1 s2 \<Longrightarrow> straight_end P pt s s2"
| straight_end_return: "fetch P pt = CoReturnVoid \<Longrightarrow> straight_end P pt s s"

lemma straight_end_CoStep: "fetch P pt = CoStep f \<Longrightarrow> straight_end P pt s s' \<longleftrightarrow> straight_end P (snd (f s)) (fst (f s)) s'"
  by (subst straight_end.simps) (auto simp: prod_eq_iff)

lemma straight_end_CoReturnVoid: "fetch P pt = CoReturnVoid \<Longrightarrow> straight_end P pt s s' \<longleftrightarrow> s' = s"
  by (subst straight_end.simps) auto

lemma ends_straight_end:
  assumes "straight_end P pt (shared w) s'" and "heap w h = Some f" "parent f = None" "destroyOnDone f"
  shows "ends P h pt w (Ok (w\<lparr>heap := (heap w)(h := None), shared := s', events := events w @ [Destroyed h]\<rparr>))"
  using assms
proof (induction pt "shared w" s' arbitrary: w rule: straight_end.induct)
  case (straight_end_step pt g s1 pt1 s2)
  from straight_end_step.hyps(4) [of "w\<lparr>shared := s1\<rparr>"] straight_end_step.prems
  show ?case by (intro ends_step [OF straight_end_step.hyps(1,2)]) simp
next
  case (straight_end_return pt)
  then show ?case by (intro ends_return_job [OF straight_end_return.hyps straight_end_return.prems]) simp
qed

lemma complete_straight_end:
  assumes "heap w h = Some f" "status f = AwOp v k" "parent f = None" "destroyOnDone f" and "straight_end P (k x) (shared w) s'"
  shows "\<exists>n. \<forall>m \<ge> n. Resume P m h (complete h x w) = Ok (w\<lparr>heap := (heap w)(h := None), shared := s',
      events := events w @ [Destroyed h]\<rparr>)"
proof (rule ends_complete [OF assms(1,2)])
  let ?f = "f\<lparr>status := Running\<rparr>"
  let ?w0 = "w\<lparr>heap := (heap w)(h \<mapsto> ?f)\<rparr>"
  have "straight_end P (k x) (shared ?w0) s'" using assms(5) by simp
  from ends_straight_end [OF this, of h ?f] assms(3,4)
  show "ends P h (k x) ?w0 (Ok (w\<lparr>heap := (heap w)(h := None), shared := s', events := events w @ [Destroyed h]\<rparr>))" by simp
qed

end
