(* ===== verification/Subroutine.thy ===== *)
theory Subroutine
  imports AsyncSteps
begin

text \<open>
  \<open>StartSubroutine\<close> of \<^verbatim>\<open>async_lib/async_lib.hpp\<close>: a coroutine starts a task and goes on; the task
  runs beside it on the same executor, and is awaited later.
\<close>

section \<open>A task that runs beside its parent\<close>

text \<open>
  \<open>beside w e c r\<close>: the task in frame \<open>c\<close> was started on executor \<open>e\<close> and stands at \<open>r\<close>, and no
  one awaits it.  Its own frames were all allocated after \<open>c\<close>.
\<close>

definition task_stack :: "('p, 'op, 'r, 'v, 's) world \<Rightarrow> exec \<Rightarrow> hdl \<Rightarrow> hdl \<Rightarrow> hdl list \<Rightarrow> ('r \<Rightarrow> 'p) \<Rightarrow> ('p, 'v) kont list \<Rightarrow> bool" where
  "task_stack w e c leaf hs kr ks \<longleftrightarrow> suspended_chain (heap w) e leaf hs ks \<and> distinct (leaf # hs) \<and>
     last (leaf # hs) = c \<and> (\<forall>x \<in> set (leaf # hs). c \<le> x) \<and>
     (\<exists>fl. heap w leaf = Some fl \<and> status fl = AwOp None kr \<and> executor fl = Some e \<and> result fl = None) \<and>
     (\<exists>fc. heap w c = Some fc \<and> \<not> is_Final (status fc) \<and> executor fc = Some e \<and> parent fc = None \<and> \<not> destroyOnDone fc)"

definition task_finished :: "('p, 'op, 'r, 'v, 's) world \<Rightarrow> hdl \<Rightarrow> 'v option \<Rightarrow> bool" where
  "task_finished w c v \<longleftrightarrow> (\<exists>fc. heap w c = Some fc \<and> status fc = Final \<and> result fc = v)"

fun beside :: "('p, 'op, 'r, 'v, 's) world \<Rightarrow> exec \<Rightarrow> hdl \<Rightarrow> ('p, 'op, 'r, 'v) stop \<Rightarrow> bool" where
  "beside w e c (Returned v) = (fresh_above w \<and> task_finished w c v)"
| "beside w e c (Blocked op kr ks) = (fresh_above w \<and> (\<exists>leaf hs. task_stack w e c leaf hs kr ks))"

text \<open>The frames older than \<open>c\<close> and the queues of the executors are left alone.\<close>

definition apart_from :: "hdl \<Rightarrow> ('p, 'op, 'r, 'v, 's) world \<Rightarrow> ('p, 'op, 'r, 'v, 's) world \<Rightarrow> bool" where
  "apart_from c w w' \<longleftrightarrow> fresh w \<le> fresh w' \<and> ready w' = ready w \<and> (\<forall>x < c. heap w' x = heap w x)"

lemma apart_from_trans: "apart_from c w w1 \<Longrightarrow> apart_from c w1 w2 \<Longrightarrow> apart_from c w w2"
  by (auto simp: apart_from_def)

lemma task_stack_frame: "task_stack w e c leaf hs kr ks \<Longrightarrow> \<exists>fc. heap w c = Some fc \<and> \<not> is_Final (status fc) \<and> executor fc = Some e"
  by (auto simp: task_stack_def)

section \<open>Running and completing the task\<close>

text \<open>The outermost frame of the task, while a frame of it runs.\<close>

definition outer_frame :: "(hdl \<Rightarrow> ('p, 'r, 'v) frame option) \<Rightarrow> exec \<Rightarrow> hdl \<Rightarrow> bool" where
  "outer_frame H e c \<longleftrightarrow> (\<exists>fc. H c = Some fc \<and> executor fc = Some e \<and> parent fc = None \<and> \<not> destroyOnDone fc)"

lemma task_blocked:
  assumes eval: "eval P pt (shared w) s' (Blocked op kr ks')" and run: "runnable w l f e"
    and chain: "suspended_chain (heap w) e l hs ks" and dist: "distinct (l # hs)"
    and outer: "last (l # hs) = c" "outer_frame (heap w) e c" "\<forall>x \<in> set (l # hs). c \<le> x"
  shows "\<exists>w1 leaf hs'. resumes P l pt w w1 \<and> shared w1 = s' \<and> fresh_above w1 \<and> apart_from c w w1 \<and>
     task_stack w1 e c leaf hs' kr (ks' @ ks) \<and> submitted (events w1) = submitted (events w) @ [(leaf, op)]"
proof -
  obtain n w1 leaf hs' fl st where
    w1: "exec_call P n (CRun l pt) w = Ok w1" "shared w1 = s'" "fresh_above w1" "same_below {l} w w1"
    and stack: "suspended_chain (heap w1) e leaf hs' (ks' @ ks)" "distinct (leaf # hs')" "last (leaf # hs') = last (l # hs)"
      "\<forall>x \<in> set (leaf # hs'). x \<in> set (l # hs) \<or> fresh w \<le> x"
    and leaf: "heap w1 leaf = Some fl" "status fl = AwOp None kr" "executor fl = Some e" "result fl = None"
    and lf: "heap w1 l = Some (f\<lparr>status := st\<rparr>)" "\<not> is_Final st" and same: "\<forall>x \<in> set hs. heap w1 x = heap w x"
    and ev: "submitted (events w1) = submitted (events w) @ [(leaf, op)]"
    by (rule blocked_chain [OF eval run chain dist]) (rule that; assumption)
  have cl: "c < fresh w" using outer(2) run fresh_above_less by (auto simp: outer_frame_def runnable_def)
  have c: "\<exists>fc. heap w1 c = Some fc \<and> \<not> is_Final (status fc) \<and> executor fc = Some e \<and> parent fc = None \<and> \<not> destroyOnDone fc"
  proof (cases "hs = []")
    case True
    with outer lf run show ?thesis by (auto simp: outer_frame_def runnable_def)
  next
    case False
    with outer(1) have mem: "c \<in> set hs" by auto
    from suspended_chain_frames [OF chain this] obtain fh y k where "heap w c = Some fh" "status fh = AwTask y k" by blast
    with outer(2) same mem show ?thesis by (auto simp: outer_frame_def)
  qed
  have "c \<le> x" if "x \<in> set (leaf # hs')" for x
    using stack(4) outer(3) cl that by (metis less_imp_le order_trans)
  then have "task_stack w1 e c leaf hs' kr (ks' @ ks)"
    unfolding task_stack_def using stack(1-3) outer(1) leaf c by simp
  moreover have "resumes P l pt w w1"
    using w1(1) lf by (intro resumesI [of _ n]) (simp add: after_resume_def)
  moreover have "apart_from c w w1"
    using w1(4) outer(3) cl by (auto simp: same_below_def apart_from_def)
  ultimately show ?thesis using w1(2,3) ev by blast
qed

lemma task_runs:
  fixes P :: "('pc, 'op, 'r, 'v, 's) prog"
  shows "unwind P pt ks s s' r \<Longrightarrow> shared w = s \<Longrightarrow> runnable w l f e \<Longrightarrow>
     suspended_chain (heap w) e l hs ks \<Longrightarrow> distinct (l # hs) \<Longrightarrow> last (l # hs) = c \<Longrightarrow>
     outer_frame (heap w) e c \<Longrightarrow> \<forall>x \<in> set (l # hs). c \<le> x \<Longrightarrow>
     \<exists>w'. resumes P l pt w w' \<and> shared w' = s' \<and> apart_from c w w' \<and> beside w' e c r \<and>
       ops_of w' = ops_of w @ pending r"
proof (induction arbitrary: w l f hs rule: unwind.induct)
  case (unwind_blocked pt s s1 op kr ks' ks)
  from task_blocked [OF _ unwind_blocked.prems(2-7)] unwind_blocked.hyps unwind_blocked.prems(1)
  obtain w1 leaf hs' where "resumes P l pt w w1" "shared w1 = s1" "fresh_above w1" "apart_from c w w1"
     "task_stack w1 e c leaf hs' kr (ks' @ ks)" "submitted (events w1) = submitted (events w) @ [(leaf, op)]" by blast
  then show ?case by (intro exI [of _ w1]) (auto simp: ops_of_def)
next
  case (unwind_finished pt s s1 v)
  then have hs: "hs = []" using suspended_chain_length by fastforce
  with unwind_finished.prems have l: "l = c" by simp
  have "eval P pt (shared w) s1 (Returned v)" using unwind_finished by simp
  from run_refines_eval [OF this refl unwind_finished.prems(2)] obtain n w1 where
    w1: "exec_call P n (CRun l pt) w = Ok w1" "shared w1 = s1" "fresh_above w1"
        "same_below {l} w w1" "heap w1 = (heap w)(l \<mapsto> f\<lparr>status := Final, result := v\<rparr>)"
        "submitted (events w1) = submitted (events w)"
    by (auto simp: run_ok_def)
  have f: "parent f = None" "\<not> destroyOnDone f" "heap w l = Some f"
    using unwind_finished.prems(2,6) l by (auto simp: outer_frame_def runnable_def)
  then have "resumes P l pt w w1"
    using w1(1,5) by (intro resumesI [of _ n]) (simp add: after_resume_def Let_def)
  moreover have "apart_from c w w1" using w1(4,5) l by (auto simp: same_below_def apart_from_def)
  moreover have "beside w1 e c (Returned v)" using w1(3,5) l by (simp add: task_finished_def)
  ultimately show ?case using w1(2,6) by (intro exI [of _ w1]) (simp add: ops_of_def)
next
  case (unwind_return pt s s1 v k pt1 ks s2 r)
  then obtain h hs' where hs: "hs = h # hs'" by (cases hs) auto
  have "eval P pt (shared w) s1 (Returned v)" using unwind_return by simp
  from return_to_parent [OF this unwind_return.prems(2) unwind_return.prems(3) [unfolded hs]
      unwind_return.prems(4) [unfolded hs] unwind_return.hyps(2)] obtain w2 fh where
    w2: "heap w h = Some fh" "shared w2 = s1" "runnable w2 h (fh\<lparr>status := Running\<rparr>) e"
      "heap w2 = (heap w)(l := None, h \<mapsto> fh\<lparr>status := Running\<rparr>)" "suspended_chain (heap w2) e h hs' ks"
      "fresh w \<le> fresh w2" "ready w2 = ready w" "submitted (events w2) = submitted (events w)"
    and resumes: "\<And>w'. resumes P h pt1 w2 w' \<Longrightarrow> resumes P l pt w w'" by blast
  have prems: "distinct (h # hs')" "last (h # hs') = c" "\<forall>x \<in> set (h # hs'). c \<le> x"
    using unwind_return.prems(4,5,7) hs by auto
  have "c \<in> set (h # hs')" using prems(2) by (metis last_in_set list.discI)
  then have "c \<noteq> l" using unwind_return.prems(4) hs by auto
  then have "outer_frame (heap w2) e c" using unwind_return.prems(6) w2(1,4) by (auto simp: outer_frame_def)
  from unwind_return.IH [OF w2(2,3,5) prems(1,2) this prems(3)] obtain w' where
    w': "resumes P h pt1 w2 w'" "shared w' = s2" "apart_from c w2 w'" "beside w' e c r" "ops_of w' = ops_of w2 @ pending r"
    by blast
  have "apart_from c w w2" using w2(4,6,7) unwind_return.prems(7) hs by (auto simp: apart_from_def)
  with w' resumes w2(8) show ?case using apart_from_trans by (intro exI [of _ w']) (auto simp: ops_of_def)
qed

section \<open>Starting, completing and awaiting\<close>

lemma subroutine_starts:
  fixes P :: "('pc, 'op, 'r, 'v, 's) prog"
  assumes fetch: "fetch P pt = CoStart p k" and run: "runnable w h f e" and eval: "eval P p (shared w) s1 r"
  shows "\<exists>n w1. (\<forall>m \<ge> n. exec_call P (Suc m) (CRun h pt) w = exec_call P m (CRun h (k (fresh w))) w1) \<and>
     shared w1 = s1 \<and> runnable w1 h f e \<and> apart_from (fresh w) w w1 \<and> beside w1 e (fresh w) r \<and>
     ops_of w1 = ops_of w @ pending r"
proof -
  let ?c = "fresh w"
  let ?f = "\<lparr>status = Running, result = None, destroyOnDone = False, executor = Some e, parent = None\<rparr>"
  define w0 where "w0 = w\<lparr>heap := (heap w)(?c \<mapsto> ?f), fresh := Suc ?c\<rparr>"
  from run have h: "heap w h = Some f" "executor f = Some e" "h < ?c" "status f = Running" "result f = None" "fresh_above w"
    using fresh_above_less by (auto simp: runnable_def)
  have run0: "runnable w0 ?c ?f e" using h(6) by (auto simp: runnable_def w0_def fresh_above_def)
  have s0: "shared w0 = shared w" by (simp add: w0_def)
  have outer: "outer_frame (heap w0) e ?c" by (simp add: outer_frame_def w0_def)
  from task_runs [OF eval_unwind [OF eval] s0 run0, where hs = "[]" and c = ?c] outer obtain w1 where
    w1: "resumes P ?c p w0 w1" "shared w1 = s1" "apart_from ?c w0 w1" "beside w1 e ?c r" "ops_of w1 = ops_of w0 @ pending r"
    by auto
  from run_refines_eval [OF eval s0 run0] obtain n w2 where
    w2: "exec_call P n (CRun ?c p) w0 = Ok w2" "run_post w0 ?c ?f e r w2" by (auto simp: run_ok_def)
  then obtain fc where "heap w2 ?c = Some fc" "parent fc = None" "\<not> destroyOnDone fc"
    by (cases r) (auto simp: blocked_at_def)
  then have "after_resume self ?c w2 = Ok w2" for self :: "('pc, 'op, 'r, 'v, 's) self"
    by (simp add: after_resume_def Let_def)
  with w1(1) exec_call_Ok_mono [OF w2(1)] have "w2 = w1"
    unfolding resumes_def by (metis max.cobounded1 max.cobounded2 obind.simps(1) outcome.inject(1))
  with w2 have call: "exec_call P n (CRun ?c p) w0 = Ok w1" by simp
  have "\<exists>n. \<forall>m \<ge> n. exec_call P (Suc m) (CRun h pt) w = exec_call P m (CRun h (k ?c)) w1"
    by (rule start_call [OF fetch h(1,2)]) (use h(3) runsI [OF call] in \<open>simp_all add: w0_def\<close>)
  moreover have "runnable w1 h f e"
    using h w1(3,4) by (cases r) (auto simp: runnable_def apart_from_def w0_def)
  moreover have "apart_from ?c w w1" using w1(3) by (auto simp: apart_from_def w0_def)
  moreover have "ops_of w1 = ops_of w @ pending r" using w1(5) by (simp add: ops_of_def w0_def)
  ultimately show ?thesis using w1(2,4) by blast
qed

lemma subroutine_completes:
  assumes "beside w e c (Blocked op kr ks)" and unwind: "unwind P (kr x) ks (shared w) s1 r"
  shows "\<exists>leaf fl n w1. c \<le> leaf \<and> heap w leaf = Some fl \<and> status fl = AwOp None kr \<and>
     (\<forall>m \<ge> n. Resume P m leaf (complete leaf x w) = Ok w1) \<and> shared w1 = s1 \<and> apart_from c w w1 \<and>
     beside w1 e c r \<and> ops_of w1 = ops_of w @ pending r"
proof -
  from assms(1) obtain leaf hs fl fc where fa: "fresh_above w" and st: "suspended_chain (heap w) e leaf hs ks"
      "distinct (leaf # hs)" "last (leaf # hs) = c" "\<forall>x \<in> set (leaf # hs). c \<le> x"
    and fl: "heap w leaf = Some fl" "status fl = AwOp None kr" "executor fl = Some e" "result fl = None"
    and fc: "heap w c = Some fc" "executor fc = Some e" "parent fc = None" "\<not> destroyOnDone fc"
    by (auto simp: task_stack_def simp del: last.simps)
  from leaf_runs [OF fl fa st(1,2)] obtain w0 where
    w0: "runnable w0 leaf (fl\<lparr>status := Running\<rparr>) e" "shared w0 = shared w"
      "heap w0 = (heap w)(leaf \<mapsto> fl\<lparr>status := Running\<rparr>)" "suspended_chain (heap w0) e leaf hs ks"
      "fresh w0 = fresh w" "ready w0 = ready w" "events w0 = events w"
      "\<And>n. exec_call P (Suc n) (CResumeHandle leaf) (complete leaf x w) = exec_call P n (CRun leaf (kr x)) w0" by blast
  have "outer_frame (heap w0) e c" using fc fl(1) w0(3) by (auto simp: outer_frame_def)
  from task_runs [OF unwind w0(2,1,4) st(2,3) this st(4)] obtain w1 where
    w1: "resumes P leaf (kr x) w0 w1" "shared w1 = s1" "apart_from c w0 w1" "beside w1 e c r"
      "ops_of w1 = ops_of w0 @ pending r" by blast
  from Resume_from_resumes [OF w1(1) w0(8)] obtain n where "\<forall>m \<ge> n. Resume P m leaf (complete leaf x w) = Ok w1" by blast
  moreover have "apart_from c w w1" using w1(3) w0(3,5,6) st(4) by (auto simp: apart_from_def)
  moreover have "ops_of w1 = ops_of w @ pending r" using w1(5) w0(7) by (simp add: ops_of_def)
  ultimately show ?thesis using w1(2,4) fl(1,2) st(4) by (metis list.set_intros(1))
qed

lemma suspended_chain_outer:
  "suspended_chain H e l hs ks \<Longrightarrow> distinct (l # hs) \<Longrightarrow> last (l # hs) = c \<Longrightarrow> H c = Some fc \<Longrightarrow>
     H' c = Some (fc\<lparr>parent := p\<rparr>) \<Longrightarrow> \<forall>x \<in> set (l # hs). x \<noteq> c \<longrightarrow> H' x = H x \<Longrightarrow> suspended_chain H' e l hs ks"
proof (induction H e l hs ks rule: suspended_chain.induct)
  case (2 H e l h hs k ks)
  have "c \<in> set (h # hs)" using 2(4) by auto
  with 2(3) have "l \<noteq> c" by auto
  with 2 show ?case by (cases "h = c") auto
qed simp_all

lemma await_blocked:
  assumes "fetch P pt = CoAwaitTask c k" and run: "runnable w h f e" and root: "parent f = None" "destroyOnDone f"
    and "h < c" and "beside w e c (Blocked op kr ks)"
  shows "\<exists>w1 leaf hs. (\<forall>m. exec_call P (Suc (Suc m)) (CRun h pt) w = Ok w1) \<and> shared w1 = shared w \<and>
     events w1 = events w \<and> job_stack w1 e leaf (hs @ [h]) kr (ks @ [k])"
proof -
  from assms(6) obtain leaf hs fl fc where fa: "fresh_above w" and st: "suspended_chain (heap w) e leaf hs ks"
      "distinct (leaf # hs)" "last (leaf # hs) = c" "\<forall>x \<in> set (leaf # hs). c \<le> x"
    and fl: "heap w leaf = Some fl" "status fl = AwOp None kr" "executor fl = Some e" "result fl = None"
    and fc: "heap w c = Some fc" "\<not> is_Final (status fc)" "executor fc = Some e" "parent fc = None" "\<not> destroyOnDone fc"
    by (auto simp: task_stack_def simp del: last.simps)
  have h: "heap w h = Some f" "executor f = Some e" "result f = None" using run by (auto simp: runnable_def)
  let ?w = "set_status h (AwTask c k) (on_frame c (\<lambda>f. f\<lparr>parent := Some h\<rparr>) w)"
  have heap: "heap ?w = (heap w)(c \<mapsto> fc\<lparr>parent := Some h\<rparr>, h \<mapsto> f\<lparr>status := AwTask c k\<rparr>)"
    using h(1) fc(1) assms(5) by (auto simp: frame_defs fun_eq_iff)
  have apart: "h \<notin> set (leaf # hs)" using st(4) assms(5) by auto
  have "suspended_chain (heap ?w) e leaf hs ks"
    by (rule suspended_chain_outer [OF st(1-3) fc(1)]) (use heap apart assms(5) in auto)
  then have "suspended_chain (heap ?w) e leaf (hs @ [h]) (ks @ [k])"
    by (rule suspended_chain_snoc [OF _ st(3), where fc = "fc\<lparr>parent := Some h\<rparr>" and fh = "f\<lparr>status := AwTask c k\<rparr>"])
      (use heap assms(5) h(2,3) fc(5) in auto)
  moreover have "root_frame (heap ?w) (last (leaf # hs @ [h]))" using root heap by (simp add: root_frame_def)
  moreover have "\<exists>fl. heap ?w leaf = Some fl \<and> status fl = AwOp None kr \<and> executor fl = Some e \<and> result fl = None"
    using fl heap apart fc(1) by (cases "leaf = c") auto
  moreover have "fresh_above ?w" using fa h(1) fc(1) by (auto simp: fresh_above_def frame_defs)
  ultimately have "job_stack ?w e leaf (hs @ [h]) kr (ks @ [k])"
    using st(2) apart by (auto simp: job_stack_def)
  moreover have "exec_call P (Suc (Suc m)) (CRun h pt) w = Ok ?w" for m
  proof -
    have "w\<lparr>heap := (heap w)(c \<mapsto> fc\<lparr>parent := Some h\<rparr>, h \<mapsto> f\<lparr>status := AwTask c k\<rparr>)\<rparr> = ?w"
      using heap by (cases w) (simp add: frame_defs)
    with await_blocked_call [OF assms(1) fc(1-3) h(1,2)] assms(5) show ?thesis by simp
  qed
  moreover have "shared ?w = shared w" "events ?w = events w" by (simp_all add: frame_defs)
  ultimately show ?thesis by blast
qed

section \<open>Properties\<close>

text \<open>
  C20. A subroutine overlaps with its parent and is joined like a call.  \<open>co_await StartSubroutine\<close> runs
  the task to its first suspension and goes on.  Whatever the program does meanwhile, each
  completion of the task's operation makes it do what its call stack says and leaves the
  parent alone.  Awaited when it has returned, the parent goes on at once with the result and
  the frame is destroyed; awaited before, the job is suspended as if it had called the task, with
  the rest of the task on top of its stack.
\<close>

theorem subroutine_overlaps:
  assumes "runnable w h f e" and "h < c"
  shows "(\<forall>p k s1 r. fetch P pt = CoStart p k \<and> eval P p (shared w) s1 r \<longrightarrow>
      (\<exists>n w1. (\<forall>m \<ge> n. exec_call P (Suc m) (CRun h pt) w = exec_call P m (CRun h (k (fresh w))) w1) \<and>
        shared w1 = s1 \<and> runnable w1 h f e \<and> beside w1 e (fresh w) r \<and> ops_of w1 = ops_of w @ pending r)) \<and>
    (\<forall>op kr ks x s1 r. beside w e c (Blocked op kr ks) \<and> unwind P (kr x) ks (shared w) s1 r \<longrightarrow>
      (\<exists>leaf fl n w1. heap w leaf = Some fl \<and> status fl = AwOp None kr \<and>
        (\<forall>m \<ge> n. Resume P m leaf (complete leaf x w) = Ok w1) \<and> shared w1 = s1 \<and> heap w1 h = heap w h \<and>
        beside w1 e c r \<and> ops_of w1 = ops_of w @ pending r)) \<and>
    (\<forall>k v pt1. fetch P pt = CoAwaitTask c k \<and> beside w e c (Returned v) \<and> apply_kont k v = Ok pt1 \<longrightarrow>
      (\<forall>m. exec_call P (Suc (Suc m)) (CRun h pt) w = exec_call P m (CRun h pt1) (destroy c w))) \<and>
    (\<forall>k op kr ks. fetch P pt = CoAwaitTask c k \<and> parent f = None \<and> destroyOnDone f \<and> beside w e c (Blocked op kr ks) \<longrightarrow>
      (\<exists>w1 leaf hs. (\<forall>m. exec_call P (Suc (Suc m)) (CRun h pt) w = Ok w1) \<and> shared w1 = shared w \<and>
        events w1 = events w \<and> job_stack w1 e leaf (hs @ [h]) kr (ks @ [k])))"
proof (intro conjI allI impI; elim conjE)
  fix p k s1 r
  assume "fetch P pt = CoStart p k" "eval P p (shared w) s1 r"
  from subroutine_starts [OF this(1) assms(1) this(2)]
  show "\<exists>n w1. (\<forall>m \<ge> n. exec_call P (Suc m) (CRun h pt) w = exec_call P m (CRun h (k (fresh w))) w1) \<and>
        shared w1 = s1 \<and> runnable w1 h f e \<and> beside w1 e (fresh w) r \<and> ops_of w1 = ops_of w @ pending r" by blast
next
  fix op kr ks x s1 r
  assume "beside w e c (Blocked op kr ks)" "unwind P (kr x) ks (shared w) s1 r"
  from subroutine_completes [OF this] obtain leaf fl n w1 where
    "heap w leaf = Some fl" "status fl = AwOp None kr" "\<forall>m \<ge> n. Resume P m leaf (complete leaf x w) = Ok w1"
    "shared w1 = s1" "apart_from c w w1" "beside w1 e c r" "ops_of w1 = ops_of w @ pending r" by blast
  moreover from this(5) assms(2) have "heap w1 h = heap w h" by (simp add: apart_from_def)
  ultimately show "\<exists>leaf fl n w1. heap w leaf = Some fl \<and> status fl = AwOp None kr \<and>
        (\<forall>m \<ge> n. Resume P m leaf (complete leaf x w) = Ok w1) \<and> shared w1 = s1 \<and> heap w1 h = heap w h \<and>
        beside w1 e c r \<and> ops_of w1 = ops_of w @ pending r" by blast
next
  fix k v pt1 m
  assume "fetch P pt = CoAwaitTask c k" "beside w e c (Returned v)" "apply_kont k v = Ok pt1"
  then show "exec_call P (Suc (Suc m)) (CRun h pt) w = exec_call P m (CRun h pt1) (destroy c w)"
    by (auto simp: task_finished_def intro: await_done_call simp del: exec_call.simps)
next
  fix k op kr ks
  assume "fetch P pt = CoAwaitTask c k" "parent f = None" "destroyOnDone f" "beside w e c (Blocked op kr ks)"
  from await_blocked [OF this(1) assms(1) this(2,3) assms(2) this(4)]
  show "\<exists>w1 leaf hs. (\<forall>m. exec_call P (Suc (Suc m)) (CRun h pt) w = Ok w1) \<and> shared w1 = shared w \<and>
        events w1 = events w \<and> job_stack w1 e leaf (hs @ [h]) kr (ks @ [k])" by blast
qed

datatype sub_point = SubMain | SubTask | SubJoin hdl | SubEnd

definition sub_prog :: "(sub_point, string, nat, unit, unit) prog" where
  "sub_prog = \<lparr>code = (\<lambda>p. case p of
       SubMain \<Rightarrow> CoStart SubTask SubJoin
     | SubTask \<Rightarrow> CoSuspend ''rpc'' (\<lambda>n. SubEnd)
     | SubJoin c \<Rightarrow> CoAwaitTask c (KVoid SubEnd)
     | SubEnd \<Rightarrow> CoReturnVoid), mode = (\<lambda>e. Immediate)\<rparr>"

text \<open>The started task waits for its operation, and awaiting it suspends the parent under it.\<close>

theorem subroutine_overlaps_witness:
  "\<exists>w :: (sub_point, string, nat, unit, unit) machine. \<exists>n w1 w2 leaf hs. fresh w = 1 \<and>
     (\<forall>m \<ge> n. exec_call sub_prog (Suc m) (CRun 0 (Body SubMain)) w = exec_call sub_prog m (CRun 0 (Body (SubJoin 1))) w1) \<and>
     ops_of w1 = [''rpc''] \<and> exec_call sub_prog 2 (CRun 0 (Body (SubJoin 1))) w1 = Ok w2 \<and>
     job_stack w2 3 leaf (hs @ [0]) (\<lambda>n. Body SubEnd) [KVoid (Body SubEnd)]"
proof -
  let ?f = "\<lparr>status = Running, result = None, destroyOnDone = True, executor = Some 3, parent = None\<rparr>"
  let ?w = "(empty_world ())\<lparr>fresh := 1, heap := [0 \<mapsto> ?f]\<rparr> :: (sub_point, string, nat, unit, unit) machine"
  have f: "fetch sub_prog (Body SubMain) = CoStart (Body SubTask) (\<lambda>c. Body (SubJoin c))"
    "fetch sub_prog (Body SubTask) = CoSuspend ''rpc'' (\<lambda>n. Body SubEnd)"
    "fetch sub_prog (Body (SubJoin c)) = CoAwaitTask c (KVoid (Body SubEnd))" for c
    by (simp_all add: sub_prog_def comp_def)
  have run: "runnable ?w 0 ?f 3" by (simp add: runnable_def fresh_above_def)
  have w: "ops_of ?w = []" "fresh ?w = 1" by (simp_all add: ops_of_def empty_world_def)
  have lt: "0 < (1 :: nat)" by simp
  from conjunct1 [OF subroutine_overlaps [OF run lt], rule_format, OF conjI [OF f(1) eval_suspend [OF f(2)]],
      unfolded w pending.simps append_Nil]
  obtain n w1 where
    w1: "\<forall>m \<ge> n. exec_call sub_prog (Suc m) (CRun 0 (Body SubMain)) ?w = exec_call sub_prog m (CRun 0 (Body (SubJoin 1))) w1"
      "runnable w1 0 ?f 3" "beside w1 3 1 (Blocked ''rpc'' (\<lambda>n. Body SubEnd) [])" "ops_of w1 = [''rpc'']"
    by blast
  have f0: "parent ?f = None" "destroyOnDone ?f" by simp_all
  from subroutine_overlaps [OF w1(2) lt, THEN conjunct2, THEN conjunct2, THEN conjunct2, rule_format,
      OF conjI [OF f(3) conjI [OF f0(1) conjI [OF f0(2) w1(3)]]], unfolded append_Nil]
  obtain w2 leaf hs where "\<forall>m. exec_call sub_prog (Suc (Suc m)) (CRun 0 (Body (SubJoin 1))) w1 = Ok w2"
    "job_stack w2 3 leaf (hs @ [0]) (\<lambda>n. Body SubEnd) [KVoid (Body SubEnd)]" by blast
  moreover from spec [OF this(1), of 0] have "exec_call sub_prog 2 (CRun 0 (Body (SubJoin 1))) w1 = Ok w2"
    unfolding numeral_2_eq_2 .
  ultimately show ?thesis using w1(1,4) w(2)
    by (intro exI [of _ ?w] exI [of _ n] exI [of _ w1] exI [of _ w2] exI [of _ leaf] exI [of _ hs]) (rule conjI, assumption)+
qed

end
