(* ===== verification/BidiMachine.thy ===== *)
theory BidiMachine
  imports EchoBidi AsyncSteps
begin

text \<open>
  The handler of the bidirectional method as coroutines of the server program: the points of
  \<open>BidirectionalStreamEchoImpl\<close> and of its lambda \<open>writeRoutine\<close>, two frames of the coroutine
  machine, the second started by \<open>StartSubroutine\<close> and joined by \<open>co_await\<close>.  The locals that the
  lambda captures by reference live in the shared state, one set per call.  This completes the
  program of \<open>EchoService\<close>; the machine of \<open>EchoBidi\<close> is its specification.
\<close>

section \<open>Locals\<close>

text \<open>
  \<open>l_cancelled\<close>: \<open>Cancel\<close> was called on the alarm since it was set last.  \<open>l_subroutine\<close> is the
  local \<open>subroutine\<close>, a \<open>Task\<close>.
\<close>

record bidi_locals =
  l_message :: string
  l_delay_ms :: "32 word"
  l_status :: status
  l_alarm :: "int alarm"
  l_cancelled :: bool
  l_subroutine :: task

record bidi_server = echo_server +
  b_now :: int
  b_calls :: nat
  b_locals :: "nat \<Rightarrow> bidi_locals"

definition new_locals :: bidi_locals where
  "new_locals = \<lparr>l_message = [], l_delay_ms = 0, l_status = Status_OK, l_alarm = Alarm_new 0, l_cancelled = False,
     l_subroutine = Task_default\<rparr>"

definition on_locals :: "nat \<Rightarrow> (bidi_locals \<Rightarrow> bidi_locals) \<Rightarrow> 'a bidi_server_scheme \<Rightarrow> 'a bidi_server_scheme" where
  "on_locals i f s = s\<lparr>b_locals := (b_locals s)(i := f (b_locals s i))\<rparr>"

definition refuse :: "nat \<Rightarrow> string \<Rightarrow> 'a bidi_server_scheme \<Rightarrow> 'a bidi_server_scheme" where
  "refuse i text = on_locals i (\<lambda>l. l\<lparr>l_status := failed_precondition text\<rparr>)"

text \<open>
  \<open>alarm.Cancel()\<close>, and the handle that \<open>std::move(subroutine)\<close> gives to \<open>co_await\<close>.
\<close>

definition stop_subroutine :: "nat \<Rightarrow> 'a bidi_server_scheme \<Rightarrow> 'a bidi_server_scheme" where
  "stop_subroutine i s = on_locals i (\<lambda>l. l\<lparr>l_cancelled := True, l_subroutine := snd (Task_move (l_subroutine l))\<rparr>)
     (print ''Stopping subroutine'' s)"

section \<open>The two routines\<close>

datatype bidi_point =
    B_Begin
  | B_Loop nat
  | B_Read nat
  | B_Got nat echo_request
  | B_Switch nat echo_request
  | B_Start nat
  | B_Started nat hdl
  | B_Stop nat hdl
  | B_Stopped nat
  | B_AfterLoop nat
  | B_Join nat hdl
  | B_Joined nat
  | B_Status nat
  | B_Print nat status
  | B_Finish nat
  | B_End nat
  | B_Leave
  | B_Abort
  | W_Loop nat
  | W_Wait nat "int alarm"
  | W_Send nat
  | W_Write nat echo_response
  | W_Break string
  | W_End

fun command_of :: "echo_request \<Rightarrow> bidi_command" where
  "command_of (BidirectionalMessage text delay) = KMessage text delay"
| "command_of BidirectionalStart = KStart"
| "command_of BidirectionalStop = KStop"
| "command_of _ = CommandNotSet"

type_synonym 'a bidi_action = "(bidi_point, echo_response context_op, echo_request server_completion, unit, 'a bidi_server_scheme) action"

text \<open>The cases of the \<open>switch\<close>.\<close>

fun bidi_switch :: "nat \<Rightarrow> bidi_command \<Rightarrow> 'a bidi_action" where
  "bidi_switch i (KMessage text delay) = CoStep (\<lambda>s.
     (if Task_bool (l_subroutine (b_locals s i)) then refuse i ''Can not change message while running'' s
      else on_locals i (\<lambda>l. l\<lparr>l_message := text, l_delay_ms := delay\<rparr>) (print ''Setting message'' s), B_Loop i))"
| "bidi_switch i KStart = CoStep (\<lambda>s.
     if Task_bool (l_subroutine (b_locals s i)) then (refuse i ''Can not start when already started'' s, B_Loop i)
     else if l_message (b_locals s i) = [] \<or> l_delay_ms (b_locals s i) = 0
     then (refuse i ''Can not start with invalid message set'' s, B_Loop i)
     else (print ''Starting write subroutine'' s, B_Start i))"
| "bidi_switch i KStop = CoStep (\<lambda>s. case l_subroutine (b_locals s i) of
       None \<Rightarrow> (refuse i ''Can not stop when not running'' s, B_Loop i)
     | Some c \<Rightarrow> (stop_subroutine i s, B_Stop i c))"
| "bidi_switch i CommandNotSet = CoFault AssertFailed"

text \<open>
  The assignment \<open>subroutine = co_await \<dots>\<close> swaps, and the temporary is destroyed.  At the end
  the destructor of \<open>subroutine\<close> runs.
\<close>

fun bidi_impl :: "echo_env \<Rightarrow> bidi_point \<Rightarrow> 'a bidi_action" where
  "bidi_impl env B_Begin = CoStep (\<lambda>s. let i = b_calls s in
     (print ''Received BidirectionalStreamEcho'' (s\<lparr>b_calls := Suc i, b_locals := (b_locals s)(i := new_locals)\<rparr>), B_Loop i))"
| "bidi_impl env (B_Loop i) = CoStep (\<lambda>s. (s, if status_ok (l_status (b_locals s i)) then B_Read i else B_AfterLoop i))"
| "bidi_impl env (B_Read i) = CoSuspend ServerBidirectionalStreamContext_Read
     (\<lambda>c. if srv_ok c then B_Got i (srv_message c) else B_AfterLoop i)"
| "bidi_impl env (B_Got i request) = CoStep (\<lambda>s.
     (print (''Received message '' @ bracket (debug_request env request)) s, B_Switch i request))"
| "bidi_impl env (B_Switch i request) = bidi_switch i (command_of request)"
| "bidi_impl env (B_Start i) = CoStart (W_Loop i) (B_Started i)"
| "bidi_impl env (B_Started i c) = CoStep (\<lambda>s. case Task_assign (l_subroutine (b_locals s i)) (Task_of_promise c) of
     (this, other) \<Rightarrow> (on_locals i (\<lambda>l. l\<lparr>l_subroutine := this\<rparr>) s,
       case Task_destroy other of Ok u \<Rightarrow> B_Loop i | _ \<Rightarrow> B_Abort))"
| "bidi_impl env (B_Stop i c) = CoAwaitTask c (KVoid (B_Stopped i))"
| "bidi_impl env (B_Stopped i) = CoStep (\<lambda>s. (print ''Subroutine stopped'' s, B_Loop i))"
| "bidi_impl env (B_AfterLoop i) = CoStep (\<lambda>s. case l_subroutine (b_locals s i) of
       None \<Rightarrow> (s, B_Status i)
     | Some c \<Rightarrow> (stop_subroutine i s, B_Join i c))"
| "bidi_impl env (B_Join i c) = CoAwaitTask c (KVoid (B_Joined i))"
| "bidi_impl env (B_Joined i) = CoStep (\<lambda>s. (print ''Subroutine stopped'' s, B_Status i))"
| "bidi_impl env (B_Status i) = CoStep (\<lambda>s. (s, B_Print i (l_status (b_locals s i))))"
| "bidi_impl env (B_Print i st) = (case print_status (echo_code env) st of
       Ok text \<Rightarrow> CoStep (\<lambda>s. (print (''Sending status '' @ bracket text) s, B_Finish i))
     | Fault x \<Rightarrow> CoFault x | OutOfFuel \<Rightarrow> CoFault AssertFailed)"
| "bidi_impl env (B_Finish i) = CoSuspend (ServerBidirectionalStreamContext_Finish Status_OK) (\<lambda>c. B_End i)"
| "bidi_impl env (B_End i) = CoStep (\<lambda>s. (print ''End of BidirectionalStreamEcho'' s,
     case Task_destroy (l_subroutine (b_locals s i)) of Ok u \<Rightarrow> B_Leave | _ \<Rightarrow> B_Abort))"
| "bidi_impl env B_Leave = CoReturnVoid"
| "bidi_impl env B_Abort = CoFault AssertFailed"
| "bidi_impl env (W_Loop i) = CoStep (\<lambda>s.
     let alarm = Alarm_SetDeadline (b_now s + uint (l_delay_ms (b_locals s i))) (l_alarm (b_locals s i)) in
     (on_locals i (\<lambda>l. l\<lparr>l_alarm := alarm, l_cancelled := False\<rparr>) (print ''Write subroutine waiting'' s), W_Wait i alarm))"
| "bidi_impl env (W_Wait i alarm) = CoSuspend (Wait (Alarm_Start alarm))
     (\<lambda>c. if srv_ok c then W_Send i else W_Break ''Alarm cancelled'')"
| "bidi_impl env (W_Send i) = CoStep (\<lambda>s. (print ''Write subroutine writing'' s,
     W_Write i (BidirectionalStreamEchoResponse (l_message (b_locals s i)))))"
| "bidi_impl env (W_Write i resp) = CoSuspend (ServerBidirectionalStreamContext_Write resp None)
     (\<lambda>c. if srv_ok c then W_Loop i else W_Break ''Write cancelled'')"
| "bidi_impl env (W_Break line) = CoStep (\<lambda>s. (print ''Write subroutine stopping'' (print line s), W_End))"
| "bidi_impl env W_End = CoReturnVoid"

abbreviation full_echo_prog where
  "full_echo_prog env \<equiv> echo_prog env (bidi_impl env) B_Begin"

abbreviation at :: "bidi_point \<Rightarrow> (('m, 'q, bidi_point echo_point) server_point, 'v) point" where
  "at p \<equiv> Body (Handler (Bidirectional p))"

declare fetch.simps(1) [simp del]

lemma fetch_bidi: "fetch (echo_prog env bidi b) (Body (Handler (Bidirectional p))) =
    map_action (\<lambda>p. Body (Handler (Bidirectional p))) ContextOp (bidi p)"
  by (simp add: action.map_comp comp_def id_def)

section \<open>The worlds of a call\<close>

text \<open>The request with a command, and its printed form, which the specification is told.\<close>

fun request_of :: "bidi_command \<Rightarrow> echo_request" where
  "request_of (KMessage text delay) = BidirectionalMessage text delay"
| "request_of KStart = BidirectionalStart"
| "request_of KStop = BidirectionalStop"
| "request_of CommandNotSet = BidirectionalNotSet"

definition command_text :: "echo_env \<Rightarrow> bidi_command \<Rightarrow> string" where
  "command_text env request = debug_request env (request_of request)"

lemma command_of_request_of [simp]: "command_of (request_of request) = request"
  by (cases request) simp_all

type_synonym bidi_frame = "(((echo_method, echo_request, bidi_point echo_point) server_point, unit) point, echo_request server_completion, unit) frame"

type_synonym bidi_suspension = "(((echo_method, echo_request, bidi_point echo_point) server_point, unit) point, echo_request server_completion, unit) suspension"

type_synonym 'a bidi_world = "((echo_method, echo_request, bidi_point echo_point) server_point, (echo_method, echo_response) server_op,
  echo_request server_completion, unit, 'a bidi_server_scheme) machine"

definition main_frame :: "exec \<Rightarrow> bidi_suspension \<Rightarrow> bidi_frame" where
  "main_frame e st = \<lparr>status = st, result = None, destroyOnDone = True, executor = Some e, parent = None\<rparr>"

definition writer_frame :: "exec \<Rightarrow> hdl option \<Rightarrow> bidi_suspension \<Rightarrow> bidi_frame" where
  "writer_frame e p st = \<lparr>status = st, result = None, destroyOnDone = False, executor = Some e, parent = p\<rparr>"

text \<open>Where the frame of a routine stands.\<close>

fun main_stands :: "nat \<Rightarrow> hdl \<Rightarrow> main_point \<Rightarrow> bidi_suspension" where
  "main_stands i hs AtRead = AwOp None (\<lambda>c. at (if srv_ok c then B_Got i (srv_message c) else B_AfterLoop i))"
| "main_stands i hs AtStop = AwTask hs (KVoid (at (B_Stopped i)))"
| "main_stands i hs AtLast = AwTask hs (KVoid (at (B_Joined i)))"
| "main_stands i hs AtFinish = AwOp None (\<lambda>c. at (B_End i))"
| "main_stands i hs MainEnd = Final"

fun writer_stands :: "nat \<Rightarrow> writer_point \<Rightarrow> bidi_suspension" where
  "writer_stands i (AtAlarm b) = AwOp None (\<lambda>c. at (if srv_ok c then W_Send i else W_Break ''Alarm cancelled''))"
| "writer_stands i AtWrite = AwOp None (\<lambda>c. at (if srv_ok c then W_Loop i else W_Break ''Write cancelled''))"
| "writer_stands i WriterDone = Final"

text \<open>
  \<open>tracks w0 w i c\<close>: the locals of call \<open>i\<close>, and what was printed and submitted since \<open>w0\<close>, are
  those of the state \<open>c\<close>.  \<open>frames w0 w hm hs mf sf\<close>: since \<open>w0\<close> the heap has gained the main
  frame \<open>hm\<close>, if it is alive, and the frame \<open>hs\<close> of the subroutine, if there is one, and nothing
  else.
\<close>

definition tracks :: "'a bidi_world \<Rightarrow> 'a bidi_world \<Rightarrow> nat \<Rightarrow> bidi \<Rightarrow> bool" where
  "tracks w0 w i c \<longleftrightarrow> l_message (b_locals (shared w) i) = response c \<and> l_delay_ms (b_locals (shared w) i) = delay_ms c \<and>
     l_status (b_locals (shared w) i) = call_status c \<and> error_code (call_status c) \<in> {OK, FAILED_PRECONDITION} \<and>
     (\<forall>b. writer c = Some (AtAlarm b) \<longrightarrow> l_cancelled (b_locals (shared w) i) = b) \<and>
     echo_log (shared w) = echo_log (shared w0) @ bidi_log c \<and> ops_of w = ops_of w0 @ map ContextOp (ops c)"

definition frames :: "'a bidi_world \<Rightarrow> 'a bidi_world \<Rightarrow> hdl \<Rightarrow> hdl \<Rightarrow> bidi_frame option \<Rightarrow> bidi_frame option \<Rightarrow> bool" where
  "frames w0 w hm hs mf sf \<longleftrightarrow> heap w hm = mf \<and> heap w hs = sf \<and>
     (\<forall>x. x \<noteq> hm \<and> x \<noteq> hs \<longrightarrow> heap w x = heap w0 x) \<and> hm < hs \<and> hm < fresh w \<and>
     (sf \<noteq> None \<longrightarrow> hs < fresh w) \<and> (\<forall>x \<ge> hm. heap w0 x = None)"

definition joining :: "bidi \<Rightarrow> bool" where
  "joining c \<longleftrightarrow> main_at c \<in> {AtStop, AtLast}"

definition shows_bidi :: "'a bidi_world \<Rightarrow> exec \<Rightarrow> nat \<Rightarrow> hdl \<Rightarrow> hdl \<Rightarrow> 'a bidi_world \<Rightarrow> bidi \<Rightarrow> bool" where
  "shows_bidi w0 e i hm hs w c \<longleftrightarrow> tracks w0 w i c \<and>
     l_subroutine (b_locals (shared w) i) = (if joining c then None else map_option (\<lambda>p. hs) (writer c)) \<and>
     frames w0 w hm hs (if main_at c = MainEnd then None else Some (main_frame e (main_stands i hs (main_at c))))
       (map_option (\<lambda>p. writer_frame e (if joining c then Some hm else None) (writer_stands i p)) (writer c))"

text \<open>While the main routine runs.\<close>

definition main_runs :: "'a bidi_world \<Rightarrow> exec \<Rightarrow> nat \<Rightarrow> hdl \<Rightarrow> hdl \<Rightarrow> 'a bidi_world \<Rightarrow> bidi \<Rightarrow> bool" where
  "main_runs w0 e i hm hs w c \<longleftrightarrow> tracks w0 w i c \<and> l_subroutine (b_locals (shared w) i) = map_option (\<lambda>p. hs) (writer c) \<and>
     frames w0 w hm hs (Some (main_frame e Running)) (map_option (\<lambda>p. writer_frame e None (writer_stands i p)) (writer c))"

lemma bidi_state_simps [simp]:
  "echo_log (print line s) = echo_log s @ [line]" "b_locals (print line s) = b_locals s"
  "b_now (print line s) = b_now s" "b_now (on_locals i f s) = b_now s"
  "echo_log (on_locals i f s) = echo_log s" "b_locals (on_locals i f s) = (b_locals s)(i := f (b_locals s i))"
  by (simp_all add: print_def on_locals_def)

lemmas world_bidi_defs = tracks_def frames_def main_frame_def writer_frame_def joining_def ops_of_def

section \<open>The main routine\<close>

lemma printable_status:
  "error_code st \<in> {OK, FAILED_PRECONDITION} \<Longrightarrow> print_status (echo_code env) st = Ok (status_text env st)"
  by (auto simp: print_status_def print_code_def status_text_def)

lemma ends_bidi_step:
  assumes "bidi_impl env p = CoStep g" "g (shared w) = (s, p1)" "ends (full_echo_prog env) h (at p1) (w\<lparr>shared := s\<rparr>) r"
  shows "ends (full_echo_prog env) h (at p) w r"
proof -
  have "fetch (full_echo_prog env) (at p) = CoStep (map_prod id (\<lambda>p. at p) \<circ> g)"
    by (simp only: fetch_bidi assms(1) action.map)
  then show ?thesis by (rule ends_step [OF _ _ assms(3)]) (simp add: assms(2))
qed

lemma runs_bidi_step:
  assumes "bidi_impl env p = CoStep g" "g (shared w) = (s, p1)" "runs (full_echo_prog env) h (at p1) (w\<lparr>shared := s\<rparr>) w'"
  shows "runs (full_echo_prog env) h (at p) w w'"
proof -
  have "fetch (full_echo_prog env) (at p) = CoStep (map_prod id (\<lambda>p. at p) \<circ> g)"
    by (simp only: fetch_bidi assms(1) action.map)
  then show ?thesis by (rule runs_step [OF _ _ assms(3)]) (simp add: assms(2))
qed

lemma send_status_ends:
  assumes "main_runs w0 e i hm hs w c" "writer c = None"
  shows "\<exists>w'. ends (full_echo_prog env) hm (at (B_Status i)) w (Ok w') \<and>
     shows_bidi w0 e i hm hs w' (send_status (status_text env) c)"
proof -
  have st: "print_status (echo_code env) (call_status c) = Ok (status_text env (call_status c))"
    "l_status (b_locals (shared w) i) = call_status c" "heap w hm = Some (main_frame e Running)"
    using assms(1) printable_status by (simp_all add: main_runs_def tracks_def frames_def)
  show ?thesis
    by (rule exI, rule conjI, rule ends_bidi_step, simp, simp add: st, rule ends_bidi_step, simp add: st, simp,
        rule ends_suspend, simp add: fetch_bidi, simp add: st, rule refl,
        use assms in \<open>simp add: main_runs_def shows_bidi_def world_bidi_defs send_status_def submit_def write_log_def context_ops comp_def\<close>)
qed

lemma ends_bidi_goto:
  assumes "bidi_impl env p = CoStep g" "g (shared w) = (shared w, p1)" "ends (full_echo_prog env) h (at p1) w r"
  shows "ends (full_echo_prog env) h (at p) w r"
  by (rule ends_bidi_step [OF assms(1,2)]) (use assms(3) in \<open>cases w; simp\<close>)

lemma main_runs_print:
  "main_runs w0 e i hm hs w c \<Longrightarrow> main_runs w0 e i hm hs (w\<lparr>shared := print line (shared w)\<rparr>) (write_log line c)"
  by (simp add: main_runs_def world_bidi_defs write_log_def)

text \<open>
  After \<open>Cancel\<close>: \<open>co_await\<close> of the subroutine, which is done or not.
\<close>

lemma stop_done:
  assumes "main_runs w0 e i hm hs w c" "writer c = Some WriterDone"
    and pt: "bidi_impl env pt = (CoAwaitTask hs (KVoid next) :: 'a bidi_action)"
  shows "\<exists>w1. main_runs w0 e i hm hs w1 (write_log ''Stopping subroutine'' c\<lparr>writer := None\<rparr>) \<and>
     (\<forall>r. ends (full_echo_prog env) hm (at next) w1 r \<longrightarrow>
       ends (full_echo_prog env) hm (at pt) (w\<lparr>shared := stop_subroutine i (shared w :: 'a bidi_server_scheme)\<rparr>) r)"
proof -
  let ?w = "w\<lparr>shared := stop_subroutine i (shared w)\<rparr>"
  let ?w1 = "?w\<lparr>heap := (heap w)(hs := None), events := events w @ [Destroyed hs]\<rparr>"
  have hs: "heap w hs = Some (writer_frame e None Final)" using assms(1,2) by (simp add: main_runs_def frames_def)
  have "main_runs w0 e i hm hs ?w1 (write_log ''Stopping subroutine'' c\<lparr>writer := None\<rparr>)"
    using assms(1,2) by (simp add: main_runs_def world_bidi_defs stop_subroutine_def Task_move_def write_log_def)
  moreover have "ends (full_echo_prog env) hm (at pt) ?w r" if "ends (full_echo_prog env) hm (at next) ?w1 r" for r
    by (rule ends_await_done [where c = hs and fc = "writer_frame e None Final"])
       (use that hs pt in \<open>simp_all add: fetch_bidi writer_frame_def\<close>)
  ultimately show ?thesis by blast
qed

lemma stop_waits:
  assumes "main_runs w0 e i hm hs w c" "writer c = Some p" "p \<noteq> WriterDone"
    and pt: "bidi_impl env pt = (CoAwaitTask hs (KVoid next) :: 'a bidi_action)"
    and m: "(m, next) \<in> {(AtStop, B_Stopped i), (AtLast, B_Joined i)}"
  shows "\<exists>w1. ends (full_echo_prog env) hm (at pt) (w\<lparr>shared := stop_subroutine i (shared w :: 'a bidi_server_scheme)\<rparr>) (Ok w1) \<and>
     shows_bidi w0 e i hm hs w1 ((cancel_alarm (write_log ''Stopping subroutine'' c))\<lparr>main_at := m\<rparr>)"
proof -
  let ?w = "w\<lparr>shared := stop_subroutine i (shared w)\<rparr>"
  let ?fc = "writer_frame e None (writer_stands i p)" and ?fh = "main_frame e Running"
  let ?w1 = "?w\<lparr>heap := (heap w)(hs \<mapsto> ?fc\<lparr>parent := Some hm\<rparr>, hm \<mapsto> ?fh\<lparr>status := AwTask hs (KVoid (at next))\<rparr>)\<rparr>"
  have h: "heap w hs = Some ?fc" "heap w hm = Some ?fh" "hm \<noteq> hs"
    using assms(1,2) by (auto simp: main_runs_def frames_def)
  have "ends (full_echo_prog env) hm (at pt) ?w (Ok ?w1)"
    by (rule ends_await_blocked [where c = hs and k = "KVoid (at next)" and fc = ?fc and fh = ?fh])
       (use h pt assms(3) in \<open>cases p; simp add: fetch_bidi writer_frame_def main_frame_def\<close>)+
  moreover have "shows_bidi w0 e i hm hs ?w1 ((cancel_alarm (write_log ''Stopping subroutine'' c))\<lparr>main_at := m\<rparr>)"
    using assms(1-3) m h(3) by (cases p) (auto simp: main_runs_def shows_bidi_def world_bidi_defs stop_subroutine_def
        Task_move_def write_log_def cancel_alarm_def)
  ultimately show ?thesis by blast
qed

lemma after_loop_ends:
  assumes "main_runs w0 e i hm hs w c"
  shows "\<exists>w'. ends (full_echo_prog env) hm (at (B_AfterLoop i)) w (Ok w') \<and>
     shows_bidi w0 e i hm hs w' (after_loop (status_text env) c)"
proof (cases "writer c")
  case None
  with assms have "l_subroutine (b_locals (shared w) i) = None" by (simp add: main_runs_def)
  moreover from send_status_ends [OF assms None, of env] obtain w' where
    "ends (full_echo_prog env) hm (at (B_Status i)) w (Ok w')" "shows_bidi w0 e i hm hs w' (send_status (status_text env) c)" by blast
  ultimately show ?thesis
    by (intro exI [of _ w'] conjI, intro ends_bidi_goto [OF bidi_impl.simps(10)]) (simp_all add: after_loop_def None)
next
  case (Some p)
  with assms have sub: "l_subroutine (b_locals (shared w) i) = Some hs" by (simp add: main_runs_def)
  have step: "ends (full_echo_prog env) hm (at (B_AfterLoop i)) w r"
    if "ends (full_echo_prog env) hm (at (B_Join i hs)) (w\<lparr>shared := stop_subroutine i (shared w)\<rparr>) r" for r
    by (rule ends_bidi_step [OF bidi_impl.simps(10) _ that]) (simp add: sub)
  show ?thesis
  proof (cases "p = WriterDone")
    case True
    let ?c = "write_log ''Stopping subroutine'' c\<lparr>writer := None\<rparr>"
    from stop_done [OF assms _ bidi_impl.simps(11)] Some True obtain w1 where w1: "main_runs w0 e i hm hs w1 ?c"
      "\<And>r. ends (full_echo_prog env) hm (at (B_Joined i)) w1 r \<Longrightarrow>
        ends (full_echo_prog env) hm (at (B_Join i hs)) (w\<lparr>shared := stop_subroutine i (shared w)\<rparr>) r" by blast
    from send_status_ends [OF main_runs_print [OF w1(1)], of "''Subroutine stopped''" env] obtain w' where
      w': "ends (full_echo_prog env) hm (at (B_Status i)) (w1\<lparr>shared := print ''Subroutine stopped'' (shared w1)\<rparr>) (Ok w')"
        "shows_bidi w0 e i hm hs w' (send_status (status_text env) (write_log ''Subroutine stopped'' ?c))" by auto
    have "ends (full_echo_prog env) hm (at (B_Joined i)) w1 (Ok w')"
      by (rule ends_bidi_step [OF bidi_impl.simps(12) _ w'(1)]) simp
    moreover have "after_loop (status_text env) c = send_status (status_text env) (write_log ''Subroutine stopped'' ?c)"
      using Some True by (simp add: after_loop_def cancel_alarm_def Let_def)
    ultimately show ?thesis using w'(2) w1(2) step by auto
  next
    case False
    from stop_waits [OF assms Some False bidi_impl.simps(11), of AtLast] obtain w' where
      "ends (full_echo_prog env) hm (at (B_Join i hs)) (w\<lparr>shared := stop_subroutine i (shared w)\<rparr>) (Ok w')"
      "shows_bidi w0 e i hm hs w' ((cancel_alarm (write_log ''Stopping subroutine'' c))\<lparr>main_at := AtLast\<rparr>)" by auto
    moreover have "after_loop (status_text env) c = (cancel_alarm (write_log ''Stopping subroutine'' c))\<lparr>main_at := AtLast\<rparr>"
      using Some False by (cases p) (simp_all add: after_loop_def cancel_alarm_def Let_def)
    ultimately show ?thesis using step by auto
  qed
qed

lemma loop_ends:
  assumes "main_runs w0 e i hm hs w c"
  shows "\<exists>w'. ends (full_echo_prog env) hm (at (B_Loop i)) w (Ok w') \<and>
     shows_bidi w0 e i hm hs w' (bidi_loop (status_text env) c)"
proof (cases "status_ok (call_status c)")
  case True
  with assms have st: "status_ok (l_status (b_locals (shared w) i))" "heap w hm = Some (main_frame e Running)"
    by (simp_all add: main_runs_def world_bidi_defs)
  show ?thesis
    by (rule exI, rule conjI, rule ends_bidi_step, simp, simp add: st, rule ends_suspend, simp add: fetch_bidi, simp add: st, rule refl,
        use assms True in \<open>simp add: main_runs_def shows_bidi_def world_bidi_defs bidi_loop_def submit_def write_log_def context_ops comp_def\<close>)
next
  case False
  with assms have "\<not> status_ok (l_status (b_locals (shared w) i))" by (simp add: main_runs_def tracks_def)
  moreover from after_loop_ends [OF assms, of env] obtain w' where
    "ends (full_echo_prog env) hm (at (B_AfterLoop i)) w (Ok w')" "shows_bidi w0 e i hm hs w' (after_loop (status_text env) c)" by blast
  ultimately show ?thesis
    by (intro exI [of _ w'] conjI, intro ends_bidi_goto [OF bidi_impl.simps(2)]) (simp_all add: bidi_loop_def False)
qed

section \<open>A request\<close>

lemma switch_loop:
  assumes "bidi_switch i (command_of q) = CoStep g" "g (shared w) = (s, B_Loop i)" "main_runs w0 e i hm hs (w\<lparr>shared := s\<rparr>) c"
  shows "\<exists>w'. ends (full_echo_prog env) hm (at (B_Switch i q)) w (Ok w') \<and> shows_bidi w0 e i hm hs w' (bidi_loop (status_text env) c)"
proof -
  from loop_ends [OF assms(3), of env] obtain w' where
    w': "ends (full_echo_prog env) hm (at (B_Loop i)) (w\<lparr>shared := s\<rparr>) (Ok w')" "shows_bidi w0 e i hm hs w' (bidi_loop (status_text env) c)"
    by blast
  have "ends (full_echo_prog env) hm (at (B_Switch i q)) w (Ok w')"
    by (rule ends_bidi_step [where g = g and s = s and w = w, OF _ assms(2) w'(1)]) (simp add: assms(1))
  with w'(2) show ?thesis by blast
qed

lemma main_runs_refuse:
  "main_runs w0 e i hm hs w c \<Longrightarrow> main_runs w0 e i hm hs (w\<lparr>shared := refuse i text (shared w)\<rparr>) (c\<lparr>call_status := failed_precondition text\<rparr>)"
  by (simp add: main_runs_def world_bidi_defs refuse_def failed_precondition_def)

lemma main_runs_subroutine:
  "main_runs w0 e i hm hs w c \<Longrightarrow> Task_bool (l_subroutine (b_locals (shared w) i)) \<longleftrightarrow> writer c \<noteq> None"
  "main_runs w0 e i hm hs w c \<Longrightarrow> l_subroutine (b_locals (shared w) i) = map_option (\<lambda>p. hs) (writer c)"
  "main_runs w0 e i hm hs w c \<Longrightarrow> l_message (b_locals (shared w) i) = response c"
  "main_runs w0 e i hm hs w c \<Longrightarrow> l_delay_ms (b_locals (shared w) i) = delay_ms c"
  by (auto simp: main_runs_def tracks_def Task_bool_def)

text \<open>
  \<open>StartSubroutine\<close>: the new frame runs to its alarm, then the main routine goes on.
\<close>

lemma writer_starts:
  assumes "main_runs w0 e i hm hs w c" "writer c = None"
  shows "\<exists>w'. ends (full_echo_prog env) hm (at (B_Start i)) w (Ok w') \<and>
     shows_bidi w0 e i hm (fresh w) w' (bidi_loop (status_text env) (writer_loop (b_now (shared w)) c))"
proof -
  let ?P = "full_echo_prog env" and ?c = "fresh w" and ?c1 = "writer_loop (b_now (shared w)) c"
  let ?deadline = "b_now (shared w) + uint (l_delay_ms (b_locals (shared w) i))"
  let ?alarm = "Alarm_SetDeadline ?deadline (l_alarm (b_locals (shared w) i))"
  let ?w0 = "w\<lparr>heap := (heap w)(?c \<mapsto> writer_frame e None Running), fresh := Suc ?c\<rparr>"
  let ?s1 = "on_locals i (\<lambda>l. l\<lparr>l_alarm := ?alarm, l_cancelled := False\<rparr>) (print ''Write subroutine waiting'' (shared w))"
  let ?w1 = "?w0\<lparr>shared := ?s1, heap := (heap w)(?c \<mapsto> writer_frame e None (writer_stands i (AtAlarm False))),
    events := events w @ [Submitted ?c (ContextOp (Wait (Alarm_Start ?alarm)))]\<rparr>"
  let ?w2 = "?w1\<lparr>shared := on_locals i (\<lambda>l. l\<lparr>l_subroutine := Some ?c\<rparr>) ?s1\<rparr>"
  have h: "heap w hm = Some (main_frame e Running)" "hm < ?c" "l_subroutine (b_locals (shared w) i) = None"
    using assms by (simp_all add: main_runs_def frames_def)
  have "runs ?P ?c (at (W_Loop i)) ?w0 ?w1"
    by (rule runs_bidi_step, simp, simp add: Let_def, rule runs_suspend, simp add: fetch_bidi, simp,
        cases w, simp add: writer_frame_def comp_def)
  then have sub: "runs ?P ?c (at (W_Loop i)) (w\<lparr>heap := (heap w)(?c \<mapsto> \<lparr>status = Running, result = None,
      destroyOnDone = False, executor = Some e, parent = None\<rparr>), fresh := Suc ?c\<rparr>) ?w1"
    by (simp add: writer_frame_def)
  have "main_runs w0 e i hm ?c ?w2 ?c1"
    using assms h by (simp add: main_runs_def world_bidi_defs writer_loop_def submit_def write_log_def Alarm_Start_def
        Alarm_SetDeadline_def Alarm_new_def) (auto)
  from loop_ends [OF this, of env] obtain w' where
    w': "ends ?P hm (at (B_Loop i)) ?w2 (Ok w')" "shows_bidi w0 e i hm ?c w' (bidi_loop (status_text env) ?c1)" by blast
  have "ends ?P hm (at (B_Started i ?c)) ?w1 (Ok w')"
    by (rule ends_bidi_step [where s = "on_locals i (\<lambda>l. l\<lparr>l_subroutine := Some ?c\<rparr>) ?s1" and w = ?w1,
          OF bidi_impl.simps(7) _ w'(1)])
       (simp add: h(3) Task_assign_def Task_of_promise_def Task_destroy_def)
  then have "ends ?P hm (at (B_Start i)) w (Ok w')"
    by (intro ends_start [OF _ h(1) _ _ sub]) (use h(2) in \<open>simp_all add: fetch_bidi main_frame_def comp_def\<close>)
  with w'(2) show ?thesis by blast
qed

lemma next_after_print:
  assumes "main_runs w0 e i hm hs (w :: 'a bidi_world) c"
    and "\<And>w. main_runs w0 e i hm hs w (write_log line c) \<Longrightarrow> \<exists>w'. ends (full_echo_prog env) hm (at p1) w (Ok w') \<and> Q w'"
    and "bidi_impl env p = (CoStep (\<lambda>s. (print line s, p1)) :: 'a bidi_action)"
  shows "\<exists>w'. ends (full_echo_prog env) hm (at p) w (Ok w') \<and> Q w'"
proof -
  from assms(2) [OF main_runs_print [OF assms(1)]] obtain w' where
    w': "ends (full_echo_prog env) hm (at p1) (w\<lparr>shared := print line (shared w)\<rparr>) (Ok w')" "Q w'" by blast
  have "ends (full_echo_prog env) hm (at p) w (Ok w')" by (rule ends_bidi_step [OF assms(3) refl w'(1)])
  with w'(2) show ?thesis by blast
qed

lemma start_ends:
  assumes "main_runs w0 e i hm hs w c" "writer c = None" "response c \<noteq> []" "delay_ms c \<noteq> 0"
  shows "\<exists>w'. ends (full_echo_prog env) hm (at (B_Switch i BidirectionalStart)) w (Ok w') \<and>
     shows_bidi w0 e i hm (fresh w) w' (bidi_loop (status_text env)
       (writer_loop (b_now (shared w)) (write_log ''Starting write subroutine'' c)))"
proof -
  let ?s = "print ''Starting write subroutine'' (shared w)"
  from writer_starts [OF main_runs_print [OF assms(1)], of "''Starting write subroutine''" env] assms(2) obtain w' where
    w': "ends (full_echo_prog env) hm (at (B_Start i)) (w\<lparr>shared := ?s\<rparr>) (Ok w')"
      "shows_bidi w0 e i hm (fresh w) w' (bidi_loop (status_text env)
       (writer_loop (b_now (shared w)) (write_log ''Starting write subroutine'' c)))" by auto
  have "ends (full_echo_prog env) hm (at (B_Switch i BidirectionalStart)) w (Ok w')"
    by (rule ends_bidi_step [where s = ?s and w = w, OF _ _ w'(1)], simp)
       (use assms(2-4) main_runs_subroutine [OF assms(1)] in \<open>simp add: Task_bool_def\<close>)
  with w'(2) show ?thesis by blast
qed

lemma stop_ends:
  assumes "main_runs w0 e i hm hs w c" "writer c = Some p"
  shows "\<exists>w'. ends (full_echo_prog env) hm (at (B_Switch i BidirectionalStop)) w (Ok w') \<and> shows_bidi w0 e i hm hs w'
     (let c = cancel_alarm (write_log ''Stopping subroutine'' c) in
      if writer c = Some WriterDone then bidi_loop (status_text env) (write_log ''Subroutine stopped'' (c\<lparr>writer := None\<rparr>))
      else c\<lparr>main_at := AtStop\<rparr>)"
proof -
  have step: "ends (full_echo_prog env) hm (at (B_Switch i BidirectionalStop)) w r"
    if "ends (full_echo_prog env) hm (at (B_Stop i hs)) (w\<lparr>shared := stop_subroutine i (shared w)\<rparr>) r" for r
    by (rule ends_bidi_step [where s = "stop_subroutine i (shared w)" and w = w, OF _ _ that], simp)
       (simp add: assms(2) main_runs_subroutine [OF assms(1)])
  show ?thesis
  proof (cases "p = WriterDone")
    case True
    with stop_done [OF assms(1) _ bidi_impl.simps(8)] assms(2) obtain w1 where
      w1: "main_runs w0 e i hm hs w1 (write_log ''Stopping subroutine'' c\<lparr>writer := None\<rparr>)"
      "\<And>r. ends (full_echo_prog env) hm (at (B_Stopped i)) w1 r \<Longrightarrow>
        ends (full_echo_prog env) hm (at (B_Stop i hs)) (w\<lparr>shared := stop_subroutine i (shared w)\<rparr>) r" by blast
    let ?c = "write_log ''Subroutine stopped'' (write_log ''Stopping subroutine'' c\<lparr>writer := None\<rparr>)"
    from next_after_print [OF w1(1) loop_ends bidi_impl.simps(9)] obtain w' where
      "ends (full_echo_prog env) hm (at (B_Stopped i)) w1 (Ok w')" "shows_bidi w0 e i hm hs w' (bidi_loop (status_text env) ?c)" by blast
    with step [OF w1(2)] True assms(2) show ?thesis by (intro exI [of _ w']) (simp add: cancel_alarm_def Let_def)
  next
    case False
    from stop_waits [OF assms False bidi_impl.simps(8), of AtStop] obtain w' where
      "ends (full_echo_prog env) hm (at (B_Stop i hs)) (w\<lparr>shared := stop_subroutine i (shared w)\<rparr>) (Ok w')"
      "shows_bidi w0 e i hm hs w' ((cancel_alarm (write_log ''Stopping subroutine'' c))\<lparr>main_at := AtStop\<rparr>)" by auto
    moreover have "writer (cancel_alarm (write_log ''Stopping subroutine'' c)) \<noteq> Some WriterDone"
      using assms(2) False by (cases p) (simp_all add: cancel_alarm_def)
    ultimately show ?thesis using step by (auto simp: Let_def)
  qed
qed

text \<open>The frame of the subroutine after a request.\<close>

definition frame_after :: "bidi_command \<Rightarrow> bidi \<Rightarrow> hdl \<Rightarrow> hdl \<Rightarrow> hdl" where
  "frame_after request c hs new = (if request = KStart \<and> writer c = None \<and> response c \<noteq> [] \<and> delay_ms c \<noteq> 0 then new else hs)"

lemma request_ends:
  assumes runs: "main_runs w0 e i hm hs w c" and "request \<noteq> CommandNotSet"
  shows "\<exists>w'. ends (full_echo_prog env) hm (at (B_Got i (request_of request))) w (Ok w') \<and>
     shows_bidi w0 e i hm (frame_after request c hs (fresh w)) w'
       (request_ok (status_text env) (command_text env) (b_now (shared w)) request c)"
proof -
  let ?line = "''Received message '' @ bracket (command_text env request)"
  define w1 where "w1 = w\<lparr>shared := print ?line (shared w)\<rparr>"
  define c1 where "c1 = write_log ?line c"
  have r1: "main_runs w0 e i hm hs w1 c1" unfolding w1_def c1_def by (rule main_runs_print [OF runs])
  have c1: "writer c1 = writer c" "response c1 = response c" "delay_ms c1 = delay_ms c" "b_now (shared w1) = b_now (shared w)"
    "fresh w1 = fresh w" by (simp_all add: c1_def w1_def)
  note sub = main_runs_subroutine [OF r1]
  have refused: "\<exists>w'. ends (full_echo_prog env) hm (at (B_Switch i q)) w1 (Ok w') \<and>
      shows_bidi w0 e i hm hs w' (bidi_loop (status_text env) (c1\<lparr>call_status := failed_precondition msg\<rparr>))"
    if "bidi_switch i (command_of q) = CoStep g" "g (shared w1) = (refuse i msg (shared w1), B_Loop i)" for q g msg
    by (rule switch_loop [OF that main_runs_refuse [OF r1]])
  have "\<exists>w'. ends (full_echo_prog env) hm (at (B_Switch i (request_of request))) w1 (Ok w') \<and>
     shows_bidi w0 e i hm (frame_after request c hs (fresh w)) w'
       (request_ok (status_text env) (command_text env) (b_now (shared w)) request c)"
  proof (cases request)
    case (KMessage msg delay)
    let ?s = "on_locals i (\<lambda>l. l\<lparr>l_message := msg, l_delay_ms := delay\<rparr>) (print ''Setting message'' (shared w1))"
    show ?thesis
    proof (cases "writer c = None")
      case True
      have "main_runs w0 e i hm hs (w1\<lparr>shared := ?s\<rparr>) (write_log ''Setting message'' c1\<lparr>response := msg, delay_ms := delay\<rparr>)"
        using r1 by (simp add: main_runs_def world_bidi_defs write_log_def)
      then have "\<exists>w'. ends (full_echo_prog env) hm (at (B_Switch i (BidirectionalMessage msg delay))) w1 (Ok w') \<and>
          shows_bidi w0 e i hm hs w' (bidi_loop (status_text env) (write_log ''Setting message'' c1\<lparr>response := msg, delay_ms := delay\<rparr>))"
        by (rule switch_loop [rotated 2]) (simp, simp add: sub(1) True c1)
      with True show ?thesis by (simp add: KMessage frame_after_def request_ok_def on_request_def Let_def c1_def c1 sub(1))
    qed (use refused [of "BidirectionalMessage msg delay"] in
        \<open>simp add: KMessage frame_after_def request_ok_def on_request_def Let_def c1_def c1 sub(1)\<close>)
  next
    case KStart
    consider "writer c \<noteq> None" | "writer c = None" "response c = [] \<or> delay_ms c = 0"
      | "writer c = None" "response c \<noteq> []" "delay_ms c \<noteq> 0" by blast
    then show ?thesis
    proof cases
      case 3
      with start_ends [OF r1] c1 show ?thesis
        by (simp add: KStart frame_after_def request_ok_def on_request_def Let_def c1_def)
    qed (use refused [of BidirectionalStart] in
        \<open>auto simp: KStart frame_after_def request_ok_def on_request_def Let_def c1_def c1 sub(1,3,4)\<close>)
  next
    case KStop
    show ?thesis
    proof (cases "writer c")
      case (Some p)
      with stop_ends [OF r1] c1 show ?thesis
        by (simp add: KStop frame_after_def request_ok_def on_request_def Let_def c1_def)
    qed (use refused [of BidirectionalStop] in
        \<open>simp add: KStop frame_after_def request_ok_def on_request_def Let_def c1_def c1 sub(2)\<close>)
  qed (use assms(2) in simp)
  then obtain w' where w': "ends (full_echo_prog env) hm (at (B_Switch i (request_of request))) w1 (Ok w')"
     "shows_bidi w0 e i hm (frame_after request c hs (fresh w)) w'
       (request_ok (status_text env) (command_text env) (b_now (shared w)) request c)" by blast
  have "ends (full_echo_prog env) hm (at (B_Got i (request_of request))) w (Ok w')"
    by (rule ends_bidi_step [where s = "print ?line (shared w)" and w = w, OF bidi_impl.simps(4) _ w'(1) [unfolded w1_def]])
       (simp add: command_text_def)
  with w'(2) show ?thesis by blast
qed

section \<open>The write subroutine\<close>

text \<open>While the subroutine runs, after its operation has completed.\<close>

definition writer_runs :: "'a bidi_world \<Rightarrow> exec \<Rightarrow> nat \<Rightarrow> hdl \<Rightarrow> hdl \<Rightarrow> 'a bidi_world \<Rightarrow> bidi \<Rightarrow> bool" where
  "writer_runs w0 e i hm hs w c \<longleftrightarrow> tracks w0 w i c \<and> writer c \<noteq> None \<and> main_at c \<noteq> MainEnd \<and>
     l_subroutine (b_locals (shared w) i) = (if joining c then None else Some hs) \<and>
     frames w0 w hm hs (Some (main_frame e (main_stands i hs (main_at c))))
       (Some (writer_frame e (if joining c then Some hm else None) Running))"

lemma writes_ends:
  assumes "writer_runs w0 e i hm hs w c"
  shows "\<exists>w'. ends (full_echo_prog env) hs (at (W_Send i)) w (Ok w') \<and> shows_bidi w0 e i hm hs w' (writer_write c)"
proof -
  have h: "heap w hs = Some (writer_frame e (if joining c then Some hm else None) Running)"
    using assms by (simp add: writer_runs_def frames_def)
  show ?thesis
    by (rule exI, rule conjI, rule ends_bidi_step, simp, simp, rule ends_suspend, simp add: fetch_bidi, simp add: h, rule refl,
        use assms in \<open>simp add: writer_runs_def shows_bidi_def world_bidi_defs writer_write_def submit_def write_log_def context_ops comp_def\<close>)
qed

lemma waits_ends:
  assumes "writer_runs w0 e i hm hs w c"
  shows "\<exists>w'. ends (full_echo_prog env) hs (at (W_Loop i)) w (Ok w') \<and>
     shows_bidi w0 e i hm hs w' (writer_loop (b_now (shared w)) c)"
proof -
  have h: "heap w hs = Some (writer_frame e (if joining c then Some hm else None) Running)"
    using assms by (simp add: writer_runs_def frames_def)
  show ?thesis
    by (rule exI, rule conjI, rule ends_bidi_step, simp, simp add: Let_def, rule ends_suspend, simp add: fetch_bidi, simp add: h, rule refl,
        use assms in \<open>simp add: writer_runs_def shows_bidi_def world_bidi_defs writer_loop_def submit_def write_log_def comp_def
          Alarm_Start_def Alarm_SetDeadline_def Alarm_new_def\<close>)
qed

lemma break_step:
  assumes "ends (full_echo_prog env) hs (at W_End) (w\<lparr>shared := print ''Write subroutine stopping'' (print line (shared w))\<rparr>) r"
  shows "ends (full_echo_prog env) hs (at (W_Break line)) w r"
  by (rule ends_bidi_step [OF bidi_impl.simps(23) refl assms])

lemma break_joined:
  assumes runs: "writer_runs w0 e i hm hs w c" and m: "(main_at c, nxt) \<in> {(AtStop, B_Stopped i), (AtLast, B_Joined i)}"
  shows "\<exists>w1. main_runs w0 e i hm hs w1 (writer_end line c\<lparr>writer := None\<rparr>) \<and>
     (\<forall>r. ends (full_echo_prog env) hm (at nxt) w1 r \<longrightarrow> ends (full_echo_prog env) hs (at (W_Break line)) w r)"
proof -
  let ?w = "w\<lparr>shared := print ''Write subroutine stopping'' (print line (shared w))\<rparr>"
  let ?w1 = "?w\<lparr>heap := (heap w)(hs := None, hm \<mapsto> main_frame e Running), events := events w @ [Destroyed hs]\<rparr>"
  have h: "heap w hs = Some (writer_frame e (Some hm) Running)" "hm \<noteq> hs"
      "heap w hm = Some (main_frame e (AwTask hs (KVoid (at nxt))))"
    using runs m by (auto simp: writer_runs_def frames_def joining_def)
  have "main_runs w0 e i hm hs ?w1 (writer_end line c\<lparr>writer := None\<rparr>)"
    using runs m h(2) by (auto simp: main_runs_def writer_runs_def world_bidi_defs writer_end_def write_log_def)
  moreover have "ends (full_echo_prog env) hs (at (W_Break line)) w r" if "ends (full_echo_prog env) hm (at nxt) ?w1 r" for r
    by (rule break_step, rule ends_return_awaited [where p = hm and fp = "main_frame e (AwTask hs (KVoid (at nxt)))" and
          f = "writer_frame e (Some hm) Running"])
       (use that h in \<open>simp_all add: fetch_bidi main_frame_def writer_frame_def\<close>)
  ultimately show ?thesis by blast
qed

lemma break_ends:
  assumes "writer_runs w0 e i hm hs (w :: 'a bidi_world) c"
  shows "\<exists>w'. ends (full_echo_prog env) hs (at (W_Break line)) w (Ok w') \<and>
     shows_bidi w0 e i hm hs w' (joined (status_text env) (writer_end line c))"
proof -
  consider "\<not> joining c" | "main_at c = AtStop" | "main_at c = AtLast" by (auto simp: joining_def)
  then show ?thesis
  proof cases
    case 1
    let ?w = "w\<lparr>shared := print ''Write subroutine stopping'' (print line (shared w))\<rparr>"
    let ?f = "writer_frame e None Running"
    let ?w1 = "?w\<lparr>heap := (heap w)(hs \<mapsto> ?f\<lparr>status := Final\<rparr>)\<rparr>"
    have h: "heap w hs = Some ?f" using assms 1 by (simp add: writer_runs_def frames_def)
    have "ends (full_echo_prog env) hs (at (W_Break line)) w (Ok ?w1)"
      by (rule break_step, rule ends_return_task [where f = ?f]) (use h in \<open>simp_all add: fetch_bidi writer_frame_def\<close>)
    moreover have "joined (status_text env) (writer_end line c) = writer_end line c"
      using 1 by (simp add: joined_def joining_def writer_end_def write_log_def split: main_point.split)
    moreover have "shows_bidi w0 e i hm hs ?w1 (writer_end line c)"
      using assms 1 by (simp add: writer_runs_def shows_bidi_def world_bidi_defs writer_end_def write_log_def)
    ultimately show ?thesis by auto
  next
    case 2
    with break_joined [OF assms, where nxt = "B_Stopped i" and line = line and env = env] obtain w1 where
      w1: "main_runs w0 e i hm hs w1 (writer_end line c\<lparr>writer := None\<rparr>)"
        "\<And>r. ends (full_echo_prog env) hm (at (B_Stopped i)) w1 r \<Longrightarrow> ends (full_echo_prog env) hs (at (W_Break line)) w r" by auto
    from next_after_print [OF w1(1) loop_ends bidi_impl.simps(9)] w1(2) 2 show ?thesis
      by (fastforce simp: joined_def writer_end_def)
  next
    case 3
    with break_joined [OF assms, where nxt = "B_Joined i" and line = line and env = env] obtain w1 where
      w1: "main_runs w0 e i hm hs w1 (writer_end line c\<lparr>writer := None\<rparr>)"
        "\<And>r. ends (full_echo_prog env) hm (at (B_Joined i)) w1 r \<Longrightarrow> ends (full_echo_prog env) hs (at (W_Break line)) w r" by auto
    have "writer (write_log l (writer_end line c\<lparr>writer := None\<rparr>)) = None" for l by simp
    from next_after_print [OF w1(1) send_status_ends [OF _ this] bidi_impl.simps(12)] w1(2) 3 show ?thesis
      by (fastforce simp: joined_def writer_end_def)
  qed
qed

section \<open>Completions\<close>

text \<open>
  The frame whose operation an event completes, and what the completion says.
\<close>

fun event_frame :: "hdl \<Rightarrow> hdl \<Rightarrow> completion_event \<Rightarrow> hdl" where
  "event_frame hm hs (GotRequest request) = hm"
| "event_frame hm hs StreamEnded = hm"
| "event_frame hm hs Finished = hm"
| "event_frame hm hs e = hs"

fun carries :: "completion_event \<Rightarrow> echo_request server_completion \<Rightarrow> bool" where
  "carries (GotRequest request) x = (srv_ok x \<and> srv_message x = request_of request)"
| "carries AlarmFired x = srv_ok x"
| "carries Written x = srv_ok x"
| "carries Finished x = True"
| "carries e x = (\<not> srv_ok x)"

text \<open>
  \<open>awaited c e\<close>: one of the routines waits for an operation that may complete so.  A command that
  is not set is an error, treated apart.
\<close>

fun awaited :: "bidi \<Rightarrow> completion_event \<Rightarrow> bool" where
  "awaited c (GotRequest request) = (main_at c = AtRead \<and> request \<noteq> CommandNotSet)"
| "awaited c StreamEnded = (main_at c = AtRead)"
| "awaited c Finished = (main_at c = AtFinish)"
| "awaited c AlarmFired = (\<exists>b. writer c = Some (AtAlarm b))"
| "awaited c AlarmCancelled = (writer c = Some (AtAlarm True))"
| "awaited c Written = (writer c = Some AtWrite)"
| "awaited c WriteFailed = (writer c = Some AtWrite)"

fun bidi_next :: "(status \<Rightarrow> string) \<Rightarrow> (bidi_command \<Rightarrow> string) \<Rightarrow> int \<Rightarrow> bidi \<Rightarrow> completion_event \<Rightarrow> bidi" where
  "bidi_next text_of debug now c (GotRequest request) = request_ok text_of debug now request c"
| "bidi_next text_of debug now c StreamEnded = after_loop text_of c"
| "bidi_next text_of debug now c Finished = (write_log ''End of BidirectionalStreamEcho'' c)\<lparr>main_at := MainEnd\<rparr>"
| "bidi_next text_of debug now c AlarmFired = writer_write c"
| "bidi_next text_of debug now c AlarmCancelled = joined text_of (writer_end ''Alarm cancelled'' c)"
| "bidi_next text_of debug now c Written = writer_loop now c"
| "bidi_next text_of debug now c WriteFailed = joined text_of (writer_end ''Write cancelled'' c)"

lemma bidi_step_iff: "bidi_step text_of debug e c c' \<longleftrightarrow> awaited c e \<and> (\<exists>now. c' = bidi_next text_of debug now c e)"
  by (cases e) (auto elim!: bidi_step.cases intro: bidi_step.intros simp: on_request_cases split: if_splits)

definition at_time :: "int \<Rightarrow> 'a bidi_world \<Rightarrow> 'a bidi_world" where
  "at_time t w = w\<lparr>shared := (shared w)\<lparr>b_now := t\<rparr>\<rparr>"

text \<open>A frame of the call is resumed with the completion of its operation.\<close>

lemma completion_main:
  assumes "shows_bidi w0 e i hm hs w c" "bidi_inv c" "main_stands i hs (main_at c) = AwOp v k" "main_at c \<in> {AtRead, AtFinish}"
  shows "\<exists>w1. main_runs w0 e i hm hs w1 c \<and> b_now (shared w1) = t \<and> fresh w1 = fresh w \<and>
    (\<forall>x r. ends P hm (k x) w1 r \<longrightarrow> (\<exists>n. \<forall>m \<ge> n. Resume P m hm (complete hm x (at_time t w)) = r))"
proof -
  let ?w = "at_time t w"
  let ?w1 = "?w\<lparr>heap := (heap ?w)(hm \<mapsto> main_frame e Running)\<rparr>"
  have "main_runs w0 e i hm hs ?w1 c"
    using assms(1,4) by (auto simp: shows_bidi_def main_runs_def world_bidi_defs at_time_def)
  moreover have "b_now (shared ?w1) = t" "fresh ?w1 = fresh w" by (simp_all add: at_time_def)
  moreover have "\<exists>n. \<forall>m \<ge> n. Resume P m hm (complete hm x ?w) = r" if "ends P hm (k x) ?w1 r" for x r
    by (rule ends_complete [where f = "main_frame e (AwOp v k)" and k = k])
       (use assms that in \<open>auto simp: shows_bidi_def frames_def at_time_def main_frame_def\<close>)
  ultimately show ?thesis by blast
qed

lemma completion_writer:
  assumes "shows_bidi w0 e i hm hs w c" "bidi_inv c" "writer c = Some p" "writer_stands i p = AwOp v k"
  shows "\<exists>w1. writer_runs w0 e i hm hs w1 c \<and> b_now (shared w1) = t \<and>
    (\<forall>x r. ends P hs (k x) w1 r \<longrightarrow> (\<exists>n. \<forall>m \<ge> n. Resume P m hs (complete hs x (at_time t w)) = r))"
proof -
  let ?w = "at_time t w"
  let ?par = "if joining c then Some hm else None"
  let ?w1 = "?w\<lparr>heap := (heap ?w)(hs \<mapsto> writer_frame e ?par Running)\<rparr>"
  have "main_at c \<noteq> MainEnd" using assms(2,3) by (auto simp: bidi_inv_def split: if_splits)
  then have "writer_runs w0 e i hm hs ?w1 c"
    using assms(1,3) by (auto simp: shows_bidi_def writer_runs_def world_bidi_defs at_time_def)
  moreover have "b_now (shared ?w1) = t" by (simp add: at_time_def)
  moreover have "\<exists>n. \<forall>m \<ge> n. Resume P m hs (complete hs x ?w) = r" if "ends P hs (k x) ?w1 r" for x r
    by (rule ends_complete [where f = "writer_frame e ?par (AwOp v k)" and k = k])
       (use assms that in \<open>auto simp: shows_bidi_def frames_def at_time_def writer_frame_def\<close>)
  ultimately show ?thesis by blast
qed

lemma end_ends:
  assumes "main_runs w0 e i hm hs w c" "writer c = None"
  shows "\<exists>w'. ends (full_echo_prog env) hm (at (B_End i)) w (Ok w') \<and>
     shows_bidi w0 e i hm hs w' (write_log ''End of BidirectionalStreamEcho'' c\<lparr>main_at := MainEnd\<rparr>)"
proof -
  have h: "heap w hm = Some (main_frame e Running)" "l_subroutine (b_locals (shared w) i) = None"
    using assms by (simp_all add: main_runs_def frames_def)
  show ?thesis
    by (rule exI, rule conjI, rule ends_bidi_step, simp, simp add: h Task_destroy_def,
        rule ends_return_job, simp add: fetch_bidi, simp add: h, simp add: main_frame_def, simp add: main_frame_def, rule refl,
        use assms in \<open>simp add: main_runs_def shows_bidi_def world_bidi_defs write_log_def\<close>)
qed

lemma not_set_ends: "ends (full_echo_prog env) h (at (B_Got i BidirectionalNotSet)) w (Fault AssertFailed)"
  by (rule ends_bidi_step [OF bidi_impl.simps(4) refl]) (simp add: ends_fault fetch_bidi)

lemma completes_by:
  assumes "\<forall>x r. ends P h (k x) w1 r \<longrightarrow> (\<exists>n. \<forall>m \<ge> n. Resume P m h (complete h x w) = r)" and "k x = pt"
    and "\<exists>w'. ends P h pt w1 (Ok w') \<and> Q w'"
  shows "\<exists>w' n. (\<forall>m \<ge> n. Resume P m h (complete h x w) = Ok w') \<and> Q w'"
proof -
  from assms(3) obtain w' where w': "ends P h pt w1 (Ok w')" "Q w'" by blast
  from assms(1) [rule_format, of x "Ok w'"] w'(1) obtain n where "\<forall>m \<ge> n. Resume P m h (complete h x w) = Ok w'"
    unfolding assms(2) by blast
  with w'(2) show ?thesis by blast
qed

lemma bidi_main_completes:
  assumes R: "shows_bidi w0 e i hm hs w c" "bidi_inv c" and ev: "awaited c ev" "carries ev x" and main: "event_frame 0 1 ev = 0"
  shows "\<exists>hs' w' n. (\<forall>m \<ge> n. Resume (full_echo_prog env) m hm (complete hm x (at_time t w)) = Ok w') \<and>
    shows_bidi w0 e i hm hs' w' (bidi_next (status_text env) (command_text env) t c ev)"
proof (cases "main_at c = AtRead")
  case True
  let ?k = "\<lambda>x. at (if srv_ok x then B_Got i (srv_message x) else B_AfterLoop i)"
  from completion_main [OF R, of None ?k t "full_echo_prog env"] True obtain w1 where
    w1: "main_runs w0 e i hm hs w1 c" "b_now (shared w1) = t"
    and all: "\<forall>x r. ends (full_echo_prog env) hm (?k x) w1 r \<longrightarrow>
      (\<exists>n. \<forall>m \<ge> n. Resume (full_echo_prog env) m hm (complete hm x (at_time t w)) = r)" by auto
  show ?thesis
  proof (cases ev)
    case (GotRequest request)
    with ev have q: "request \<noteq> CommandNotSet" "?k x = at (B_Got i (request_of request))" by auto
    from completes_by [where k = ?k, OF all q(2) request_ends [OF w1(1) q(1), of env, unfolded w1(2)]] show ?thesis
      by (auto simp: GotRequest)
  next
    case StreamEnded
    with ev have q: "?k x = at (B_AfterLoop i)" by auto
    from completes_by [where k = ?k, OF all q after_loop_ends [OF w1(1)]] show ?thesis by (auto simp: StreamEnded)
  qed (use ev True main in auto)
next
  case False
  with ev main have q: "ev = Finished" "main_at c = AtFinish" by (cases ev; simp)+
  with R(2) have none: "writer c = None" by (simp add: bidi_inv_def)
  from completion_main [OF R, of None "\<lambda>x. at (B_End i)" t "full_echo_prog env"] q obtain w1 where
    w1: "main_runs w0 e i hm hs w1 c"
    and all: "\<forall>x r. ends (full_echo_prog env) hm (at (B_End i)) w1 r \<longrightarrow>
      (\<exists>n. \<forall>m \<ge> n. Resume (full_echo_prog env) m hm (complete hm x (at_time t w)) = r)" by auto
  from completes_by [where k = "\<lambda>x. at (B_End i)" and x = x, OF all refl end_ends [OF w1 none]] show ?thesis
    by (intro exI [of _ hs]) (simp add: q(1))
qed

lemma bidi_writer_completes:
  assumes R: "shows_bidi w0 e i hm hs w c" "bidi_inv c" and ev: "awaited c ev" "carries ev x" and sub: "event_frame 0 1 ev = 1"
  shows "\<exists>w' n. (\<forall>m \<ge> n. Resume (full_echo_prog env) m hs (complete hs x (at_time t w)) = Ok w') \<and>
    shows_bidi w0 e i hm hs w' (bidi_next (status_text env) (command_text env) t c ev)"
proof (cases "writer c = Some AtWrite")
  case True
  let ?k = "\<lambda>x. at (if srv_ok x then W_Loop i else W_Break ''Write cancelled'')"
  from completion_writer [OF R True writer_stands.simps(2), of t "full_echo_prog env"] obtain w1 where
    w1: "writer_runs w0 e i hm hs w1 c" "b_now (shared w1) = t"
    and all: "\<forall>x r. ends (full_echo_prog env) hs (?k x) w1 r \<longrightarrow>
      (\<exists>n. \<forall>m \<ge> n. Resume (full_echo_prog env) m hs (complete hs x (at_time t w)) = r)" by blast
  show ?thesis
  proof (cases ev)
    case Written
    with ev have "?k x = at (W_Loop i)" by simp
    from completes_by [where k = ?k, OF all this waits_ends [OF w1(1), unfolded w1(2)]] show ?thesis by (simp add: Written)
  next
    case WriteFailed
    with ev have "?k x = at (W_Break ''Write cancelled'')" by simp
    from completes_by [where k = ?k, OF all this break_ends [OF w1(1)]] show ?thesis by (simp add: WriteFailed)
  qed (use ev True sub in auto)
next
  case False
  with ev sub obtain b where q: "writer c = Some (AtAlarm b)" by (cases ev) auto
  let ?k = "\<lambda>x. at (if srv_ok x then W_Send i else W_Break ''Alarm cancelled'')"
  from completion_writer [OF R q writer_stands.simps(1), of t "full_echo_prog env"] obtain w1 where
    w1: "writer_runs w0 e i hm hs w1 c"
    and all: "\<forall>x r. ends (full_echo_prog env) hs (?k x) w1 r \<longrightarrow>
      (\<exists>n. \<forall>m \<ge> n. Resume (full_echo_prog env) m hs (complete hs x (at_time t w)) = r)" by blast
  show ?thesis
  proof (cases ev)
    case AlarmFired
    with ev have "?k x = at (W_Send i)" by simp
    from completes_by [where k = ?k, OF all this writes_ends [OF w1]] show ?thesis by (simp add: AlarmFired)
  next
    case AlarmCancelled
    with ev have "?k x = at (W_Break ''Alarm cancelled'')" by simp
    from completes_by [where k = ?k, OF all this break_ends [OF w1]] show ?thesis by (simp add: AlarmCancelled)
  qed (use ev False sub in auto)
qed

lemma bidi_completes:
  assumes "shows_bidi w0 e i hm hs w c" "bidi_inv c" "awaited c ev" "carries ev x"
  shows "\<exists>hs' w' n. (\<forall>m \<ge> n. Resume (full_echo_prog env) m (event_frame hm hs ev)
      (complete (event_frame hm hs ev) x (at_time t w)) = Ok w') \<and>
    shows_bidi w0 e i hm hs' w' (bidi_next (status_text env) (command_text env) t c ev)"
proof (cases "event_frame 0 1 ev = (0 :: nat)")
  case True
  then have "event_frame hm hs ev = hm" by (cases ev) simp_all
  with bidi_main_completes [OF assms True] show ?thesis by simp
next
  case False
  then have "event_frame 0 1 ev = (1 :: nat)" "event_frame hm hs ev = hs" by (cases ev; simp)+
  with bidi_writer_completes [OF assms this(1), of env t] show ?thesis by (intro exI [of _ hs]) simp
qed

lemma not_set_completes:
  assumes "shows_bidi w0 e i hm hs w c" "bidi_inv c" "main_at c = AtRead"
  shows "\<exists>n. \<forall>m \<ge> n. Resume (full_echo_prog env) m hm (complete hm (message BidirectionalNotSet) (at_time t w)) = Fault AssertFailed"
proof -
  let ?k = "\<lambda>x. at (if srv_ok x then B_Got i (srv_message x) else B_AfterLoop i)"
  from completion_main [OF assms(1,2), of None ?k t "full_echo_prog env"] assms(3) obtain w1 where
    all: "\<forall>x r. ends (full_echo_prog env) hm (?k x) w1 r \<longrightarrow>
      (\<exists>n. \<forall>m \<ge> n. Resume (full_echo_prog env) m hm (complete hm x (at_time t w)) = r)" by auto
  from all [rule_format, of "message BidirectionalNotSet" "Fault AssertFailed"] not_set_ends [of env hm i w1] show ?thesis by simp
qed

section \<open>A whole call\<close>

text \<open>Completions that are delivered one after the other, to a frame, at a time.\<close>

inductive delivers :: "echo_env \<Rightarrow> 'a bidi_world \<Rightarrow> (hdl \<times> int \<times> echo_request server_completion) list \<Rightarrow> 'a bidi_world \<Rightarrow> bool" for env where
  delivers_none: "delivers env w [] w"
| delivers_next: "\<forall>m \<ge> n. Resume (full_echo_prog env) m h (complete h x (at_time t w)) = Ok w1 \<Longrightarrow> delivers env w1 ds w2 \<Longrightarrow>
     delivers env w ((h, t, x) # ds) w2"

lemma delivers_run:
  assumes "bidi_run (status_text env) (command_text env) es c c'" "list_all2 carries es xs"
    "shows_bidi w0 e i hm hs w c" "bidi_inv c"
  shows "\<exists>ds hs' w'. delivers env w ds w' \<and> map (snd \<circ> snd) ds = xs \<and> shows_bidi w0 e i hm hs' w' c'"
  using assms
proof (induction arbitrary: xs hs w rule: bidi_run.induct)
  case (run_none c)
  then show ?case by (auto intro: delivers_none)
next
  case (run_step ev c c1 es c2)
  then obtain x ys where xs: "xs = x # ys" "carries ev x" "list_all2 carries es ys" by (auto simp: list_all2_Cons1)
  from run_step.hyps(1) obtain t where ev: "awaited c ev" and c1: "c1 = bidi_next (status_text env) (command_text env) t c ev"
    by (auto simp: bidi_step_iff)
  from bidi_completes [OF run_step.prems(2,3) ev xs(2), of env t] obtain hs1 w1 n where
    w1: "\<forall>m \<ge> n. Resume (full_echo_prog env) m (event_frame hm hs ev) (complete (event_frame hm hs ev) x (at_time t w)) = Ok w1"
      "shows_bidi w0 e i hm hs1 w1 c1" unfolding c1 by blast
  from run_step.IH [OF xs(3) w1(2) bidi_step_inv [OF run_step.hyps(1) run_step.prems(3)]] obtain ds hs' w' where
    "delivers env w1 ds w'" "map (snd \<circ> snd) ds = ys" "shows_bidi w0 e i hm hs' w' c2" by blast
  with delivers_next [OF w1(1)] xs(1) show ?case
    by (intro exI [of _ "(event_frame hm hs ev, t, x) # ds"] exI [of _ hs'] exI [of _ w']) (simp add: comp_def)
qed

lemma bidi_spawned:
  assumes "fresh_above w"
  shows "\<exists>n w1. (\<forall>m \<ge> n. Spawn (full_echo_prog env) m e (Handler (Bidirectional B_Begin)) w = Ok w1) \<and>
     shows_bidi w e (b_calls (shared w)) (fresh w) (Suc (fresh w)) w1 (bidi_start (status_text env))"
proof -
  let ?i = "b_calls (shared w)" and ?h = "fresh w" and ?P = "full_echo_prog env"
  let ?c = "write_log ''Received BidirectionalStreamEcho''
     \<lparr>main_at = AtRead, writer = None, response = [], delay_ms = 0, call_status = Status_OK, ops = [], bidi_log = []\<rparr>"
  let ?w0 = "w\<lparr>heap := (heap w)(?h \<mapsto> main_frame e Running), fresh := Suc ?h\<rparr>"
  let ?s = "print ''Received BidirectionalStreamEcho'' ((shared w)\<lparr>b_calls := Suc ?i, b_locals := (b_locals (shared w))(?i := new_locals)\<rparr>)"
  have "main_runs w e ?i ?h (Suc ?h) (?w0\<lparr>shared := ?s\<rparr>) ?c"
    using assms by (simp add: main_runs_def world_bidi_defs new_locals_def write_log_def Task_default_def fresh_above_def
        Status_OK_def print_def)
  from loop_ends [OF this, of env] obtain w1 where
    w1: "ends ?P ?h (at (B_Loop ?i)) (?w0\<lparr>shared := ?s\<rparr>) (Ok w1)"
      "shows_bidi w e ?i ?h (Suc ?h) w1 (bidi_start (status_text env))" by (auto simp: bidi_start_def)
  have "ends ?P ?h (at B_Begin) ?w0 (Ok w1)"
    by (rule ends_bidi_step [where s = ?s and w = ?w0, OF bidi_impl.simps(1) _ w1(1)]) (simp add: Let_def)
  from ends_spawn [of ?P e w "Handler (Bidirectional B_Begin)" "Ok w1"] this
  show ?thesis using w1(2) by (auto simp: main_frame_def)
qed

lemma shows_bidi_end:
  assumes "shows_bidi w0 e i hm hs w c" "bidi_inv c" "main_at c = MainEnd"
  shows "heap w = heap w0"
proof
  fix x
  have "writer c = None" using assms(2,3) by (simp add: bidi_inv_def)
  with assms(1,3) show "heap w x = heap w0 x" by (cases "x = hm \<or> x = hs") (auto simp: shows_bidi_def frames_def)
qed

section \<open>Properties\<close>

text \<open>
  C12. The two coroutines of the bidirectional method do what the machine of two routines says.
  For every run of that machine, the spawned handler, given completions that carry the events
  of the run, makes no fault, submits the same operations and prints the same lines; whatever
  completes next at whatever time, the frame it belongs to takes the same step.  When the call has
  ended the heap is as it was before: every frame of the call and of its subroutines is destroyed.
  Only a request with no command fails, with the assertion of the \<open>default\<close> branch.
\<close>

theorem bidi_refines:
  assumes "fresh_above w" and "bidi_run (status_text env) (command_text env) es (bidi_start (status_text env)) c"
    and "list_all2 carries es xs"
  shows "\<exists>n w1 ds w2 hs. (\<forall>m \<ge> n. Spawn (full_echo_prog env) m e (Handler (Bidirectional B_Begin)) w = Ok w1) \<and>
     delivers env w1 ds w2 \<and> map (snd \<circ> snd) ds = xs \<and>
     ops_of w2 = ops_of w @ map ContextOp (ops c) \<and> echo_log (shared w2) = echo_log (shared w) @ bidi_log c \<and>
     (main_at c = MainEnd \<longrightarrow> heap w2 = heap w) \<and>
     (\<forall>ev x t. awaited c ev \<and> carries ev x \<longrightarrow> (\<exists>n w3. (\<forall>m \<ge> n. Resume (full_echo_prog env) m (event_frame (fresh w) hs ev)
         (complete (event_frame (fresh w) hs ev) x (at_time t w2)) = Ok w3) \<and>
       ops_of w3 = ops_of w @ map ContextOp (ops (bidi_next (status_text env) (command_text env) t c ev)))) \<and>
     (main_at c = AtRead \<longrightarrow> (\<exists>n. \<forall>m \<ge> n. Resume (full_echo_prog env) m (fresh w)
         (complete (fresh w) (message BidirectionalNotSet) w2) = Fault AssertFailed))"
proof -
  let ?P = "full_echo_prog env" and ?h = "fresh w" and ?i = "b_calls (shared w)"
  from bidi_spawned [OF assms(1)] obtain n w1 where
    w1: "\<forall>m \<ge> n. Spawn ?P m e (Handler (Bidirectional B_Begin)) w = Ok w1"
      "shows_bidi w e ?i ?h (Suc ?h) w1 (bidi_start (status_text env))" by blast
  from delivers_run [OF assms(2,3) w1(2) bidi_start_inv] obtain ds hs w2 where
    w2: "delivers env w1 ds w2" "map (snd \<circ> snd) ds = xs" "shows_bidi w e ?i ?h hs w2 c" by blast
  have inv: "bidi_inv c" by (rule bidi_run_inv [OF assms(2) bidi_start_inv])
  have tracks: "ops_of w' = ops_of w @ map ContextOp (ops c')" "echo_log (shared w') = echo_log (shared w) @ bidi_log c'"
    if "shows_bidi w e ?i ?h hs' w' c'" for hs' w' c'
    using that by (simp_all add: shows_bidi_def tracks_def)
  have "\<exists>n w3. (\<forall>m \<ge> n. Resume ?P m (event_frame ?h hs ev) (complete (event_frame ?h hs ev) x (at_time t w2)) = Ok w3) \<and>
      ops_of w3 = ops_of w @ map ContextOp (ops (bidi_next (status_text env) (command_text env) t c ev))"
    if "awaited c ev" "carries ev x" for ev x t
    using bidi_completes [OF w2(3) inv that, of env t] tracks by blast
  moreover have "at_time (b_now (shared w2)) w2 = w2" by (cases w2) (simp add: at_time_def)
  with not_set_completes [OF w2(3) inv, of env "b_now (shared w2)"]
  have "main_at c = AtRead \<longrightarrow> (\<exists>n. \<forall>m \<ge> n. Resume ?P m ?h (complete ?h (message BidirectionalNotSet) w2) = Fault AssertFailed)"
    by simp
  ultimately show ?thesis
    using w1(1) w2(1,2) tracks [OF w2(3)] shows_bidi_end [OF w2(3) inv]
    by (intro exI [of _ n] exI [of _ w1] exI [of _ ds] exI [of _ w2] exI [of _ hs]) blast
qed

text \<open>A call that sets a message, starts and stops: after its end the heap is empty again.\<close>

definition bidi_server_init :: "unit bidi_server_scheme" where
  "bidi_server_init = \<lparr>m_executors = [], m_nextExecutor = 0, echo_log = [], b_now = 0, b_calls = 0, b_locals = (\<lambda>i. new_locals)\<rparr>"

definition bidi_session :: "completion_event list" where
  "bidi_session = [GotRequest (KMessage ''hi'' 5), GotRequest KStart, AlarmFired, Written, GotRequest KStop, AlarmCancelled,
     StreamEnded, Finished]"

fun bidi_steps :: "(status \<Rightarrow> string) \<Rightarrow> (bidi_command \<Rightarrow> string) \<Rightarrow> bidi \<Rightarrow> completion_event list \<Rightarrow> bidi option" where
  "bidi_steps text_of debug c [] = Some c"
| "bidi_steps text_of debug c (e # es) = (if awaited c e then bidi_steps text_of debug (bidi_next text_of debug 0 c e) es else None)"

lemma bidi_steps_run: "bidi_steps text_of debug c es = Some c' \<Longrightarrow> bidi_run text_of debug es c c'"
  by (induction es arbitrary: c) (auto simp: bidi_step_iff intro!: run_none run_step split: if_splits)

fun event_completion :: "completion_event \<Rightarrow> echo_request server_completion" where
  "event_completion (GotRequest request) = message (request_of request)"
| "event_completion e = \<lparr>srv_ok = e \<notin> {StreamEnded, AlarmCancelled, WriteFailed}, srv_message = BidirectionalNotSet\<rparr>"

lemma bidi_session_ends:
  "\<exists>c. bidi_run T D bidi_session (bidi_start T) c \<and> main_at c = MainEnd \<and> length (ops c) = 8"
proof -
  have "\<exists>c. bidi_steps T D (bidi_start T) bidi_session = Some c \<and> main_at c = MainEnd \<and> length (ops c) = 8"
    by (simp add: bidi_session_def bidi_start_def request_ok_def on_request_def bidi_defs Let_def status_ok_def Status_OK_def) blast
  then show ?thesis using bidi_steps_run by blast
qed

theorem bidi_refines_witness:
  "\<exists>n w1 ds w2. (\<forall>m \<ge> n. Spawn (full_echo_prog plain_env) m 0 (Handler (Bidirectional B_Begin)) (empty_world bidi_server_init) = Ok w1) \<and>
     delivers plain_env w1 ds w2 \<and> map (snd \<circ> snd) ds = map event_completion bidi_session \<and>
     length (ops_of w2) = 8 \<and> heap w2 = Map.empty"
proof -
  let ?w = "empty_world bidi_server_init :: unit bidi_world"
  have w: "fresh_above ?w" "ops_of ?w = []" "heap ?w = Map.empty"
    by (simp_all add: empty_world_def fresh_above_def ops_of_def)
  obtain c where c: "bidi_run (status_text plain_env) (command_text plain_env) bidi_session (bidi_start (status_text plain_env)) c"
    "main_at c = MainEnd" "length (ops c) = 8" using bidi_session_ends by blast
  have "list_all2 carries bidi_session (map event_completion bidi_session)" by (simp add: bidi_session_def)
  from bidi_refines [OF w(1) c(1) this, of 0] obtain n w1 ds w2 where
    "\<forall>m \<ge> n. Spawn (full_echo_prog plain_env) m 0 (Handler (Bidirectional B_Begin)) ?w = Ok w1" "delivers plain_env w1 ds w2"
    "map (snd \<circ> snd) ds = map event_completion bidi_session" "ops_of w2 = ops_of ?w @ map ContextOp (ops c)"
    "main_at c = MainEnd \<longrightarrow> heap w2 = heap ?w" by blast
  with c(2,3) show ?thesis unfolding w(2,3)
    by (intro exI [of _ n] exI [of _ w1] exI [of _ ds] exI [of _ w2]) simp
qed

end
