(* ===== verification/ServerProgram.thy ===== *)
theory ServerProgram
  imports VariableService BidiMachine
begin

text \<open>
  The server program, \<^verbatim>\<open>async_grpc/server/main.cpp\<close>: one server with the echo service and the
  variable service.  The two services are put together as a program over the sums of their
  methods, messages and points; each handler works on its part of the state.
\<close>

section \<open>Two services on one server\<close>

text \<open>An action on a part of the state: \<open>get\<close> and \<open>put\<close>, and the renaming of points, operations and completions.\<close>

fun lift_action :: "('s \<Rightarrow> 't) \<Rightarrow> ('t \<Rightarrow> 's \<Rightarrow> 's) \<Rightarrow> ('p \<Rightarrow> 'p2) \<Rightarrow> ('op \<Rightarrow> 'op2) \<Rightarrow> ('r2 \<Rightarrow> 'r)
    \<Rightarrow> ('p, 'op, 'r, 'v, 't) action \<Rightarrow> ('p2, 'op2, 'r2, 'v, 's) action" where
  "lift_action get put P F R (CoStep f) = CoStep (\<lambda>s. case f (get s) of (t, p) \<Rightarrow> (put t s, P p))"
| "lift_action get put P F R (CoFault x) = CoFault x"
| "lift_action get put P F R (CoReturn v) = CoReturn v"
| "lift_action get put P F R CoReturnVoid = CoReturnVoid"
| "lift_action get put P F R CoThrow = CoThrow"
| "lift_action get put P F R (CoAwait p k) = CoAwait (P p) (map_kont P k)"
| "lift_action get put P F R (CoAwaitTask h k) = CoAwaitTask h (map_kont P k)"
| "lift_action get put P F R (CoStart p k) = CoStart (P p) (\<lambda>h. P (k h))"
| "lift_action get put P F R (CoSuspend op k) = CoSuspend (F op) (\<lambda>r. P (k (R r)))"
| "lift_action get put P F R (CoSpawn e p q) = CoSpawn e (P p) (P q)"
| "lift_action get put P F R (CoCross e p k) = CoCross e (P p) (map_kont P k)"
| "lift_action get put P F R (CoNotify h v p) = CoNotify h v (P p)"

datatype main_method = Echo echo_method | Variable var_method

datatype main_request = EchoQ echo_request | VariableQ var_request

datatype main_response = EchoR echo_response | VariableR var_response

datatype main_point = EchoPoint "bidi_point echo_point" | VariablePoint var_point

record main_server = bidi_server +
  main_storage :: storage

definition get_variable :: "main_server \<Rightarrow> var_server" where
  "get_variable s = \<lparr>m_executors = m_executors s, m_nextExecutor = m_nextExecutor s, m_storage = main_storage s\<rparr>"

definition put_variable :: "var_server \<Rightarrow> main_server \<Rightarrow> main_server" where
  "put_variable v s = s\<lparr>m_executors := m_executors v, m_nextExecutor := m_nextExecutor v, main_storage := m_storage v\<rparr>"

text \<open>A completion for a handler carries a message of its own service; the last equations are not used.\<close>

fun echo_message :: "main_request \<Rightarrow> echo_request" where
  "echo_message (EchoQ q) = q"
| "echo_message (VariableQ q) = BidirectionalNotSet"

fun variable_message :: "main_request \<Rightarrow> var_request" where
  "variable_message (VariableQ q) = q"
| "variable_message (EchoQ q) = ReadRequest []"

definition with_message :: "('q \<Rightarrow> 'r) \<Rightarrow> 'q server_completion \<Rightarrow> 'r server_completion" where
  "with_message f c = \<lparr>srv_ok = srv_ok c, srv_message = f (srv_message c)\<rparr>"

type_synonym main_action = "(main_point, main_response context_op, main_request server_completion, unit, main_server) action"

fun main_impl :: "echo_env \<Rightarrow> main_point \<Rightarrow> main_action" where
  "main_impl env (EchoPoint p) = lift_action id (\<lambda>t s. t) EchoPoint (map_context_op EchoR) (with_message echo_message)
     (echo_impl env (bidi_impl env) p)"
| "main_impl env (VariablePoint p) = lift_action get_variable put_variable VariablePoint (map_context_op VariableR)
     (with_message variable_message) (var_impl p)"

fun main_handler :: "main_method \<Rightarrow> main_request \<Rightarrow> main_point" where
  "main_handler (Echo m) q = EchoPoint (echo_handler B_Begin m (echo_message q))"
| "main_handler (Variable m) q = VariablePoint (var_handler m (variable_message q))"

text \<open>The services are started in the order in which they are registered.\<close>

definition main_methods :: "main_method list" where
  "main_methods = map Echo echo_methods @ map Variable var_methods"

abbreviation main_prog where
  "main_prog env \<equiv> server_prog main_handler (main_impl env)"

type_synonym main_world = "((main_method, main_request, main_point) server_point, (main_method, main_response) server_op,
  main_request server_completion, unit, main_server) machine"

section \<open>main\<close>

definition say :: "string \<Rightarrow> main_world \<Rightarrow> main_world" where
  "say line w = w\<lparr>shared := print line (shared w)\<rparr>"

text \<open>The services and the server at the start, and the constructor of the server.\<close>

definition main_init :: main_server where
  "main_init = \<lparr>m_executors = Server_executors default_ServerOptions, m_nextExecutor = 0, echo_log = [],
     b_now = 0, b_calls = 0, b_locals = (\<lambda>i. new_locals), main_storage = Map.empty\<rparr>"

definition server_setup :: "echo_env \<Rightarrow> nat \<Rightarrow> main_world outcome" where
  "server_setup env n = obind (Server_start main_handler (main_impl env) n main_methods
     (say ''Setting up server...'' (say ''Setting up services...'' (empty_world main_init))))
     (\<lambda>w. Ok (say ''Server started'' w))"

text \<open>While \<open>main\<close> waits for a key, calls arrive at the listening frames.\<close>

fun main_serve :: "echo_env \<Rightarrow> nat \<Rightarrow> (hdl \<times> main_request) list \<Rightarrow> main_world \<Rightarrow> main_world outcome" where
  "main_serve env n [] w = Ok w"
| "main_serve env n ((h, q) # calls) w = obind (Resume (main_prog env) n h (complete h (message q) w)) (main_serve env n calls)"

text \<open>
  \<open>Shutdown\<close>, and the destructor of the server at the end of \<open>main\<close>.  The requests for a call
  complete with \<open>ok\<close> false: those of \<open>hs1\<close> before the last line is printed, those of \<open>hs2\<close> while
  the destructor waits for the threads, and after those nothing completes any more.
\<close>

definition server_exit :: "echo_env \<Rightarrow> nat \<Rightarrow> main_request server_completion \<Rightarrow> hdl list \<Rightarrow> hdl list \<Rightarrow> main_world
    \<Rightarrow> (main_world \<times> cq set option) outcome" where
  "server_exit env n closed hs1 hs2 w = obind (close_all (main_prog env) n closed hs1 (say ''Shutting down...'' w)) (\<lambda>w1.
     obind (close_all (main_prog env) n closed hs2 (say ''Bye!'' w1)) (\<lambda>w2.
       Ok (w2, Server_destroy (shared w2) (queue_pending w2) {})))"

definition server_main :: "echo_env \<Rightarrow> nat \<Rightarrow> (hdl \<times> main_request) list \<Rightarrow> main_request server_completion \<Rightarrow> hdl list \<Rightarrow> hdl list
    \<Rightarrow> (main_world \<times> cq set option) outcome" where
  "server_main env n calls closed hs1 hs2 =
     obind (server_setup env n) (\<lambda>w. obind (main_serve env n calls w) (server_exit env n closed hs1 hs2))"

section \<open>What a call does first\<close>

text \<open>The first operation of the handler of a call, and the storage it leaves.\<close>

fun echo_first :: "echo_env \<Rightarrow> echo_method \<Rightarrow> echo_request \<Rightarrow> echo_response context_op" where
  "echo_first env MUnaryEcho q = Finish (Some (UnaryEchoResponse (request_message q))) Status_OK"
| "echo_first env MClientStreamEcho q = Read"
| "echo_first env MServerStreamEcho q = (if 1 \<le> request_count q then round_alarm env q 1 else Finish None Status_OK)"
| "echo_first env MBidirectionalStreamEcho q = Read"

fun call_first :: "echo_env \<Rightarrow> main_method \<Rightarrow> main_request \<Rightarrow> storage \<Rightarrow> main_response context_op \<times> storage" where
  "call_first env (Echo m) q st = (map_context_op EchoR (echo_first env m (echo_message q)), st)"
| "call_first env (Variable m) q st = apfst (\<lambda>r. map_context_op VariableR (reply_op r)) (var_call (variable_message q) st)"

fun calls_first :: "echo_env \<Rightarrow> (hdl \<times> main_request) list \<Rightarrow> storage \<Rightarrow> main_response context_op list \<times> storage" where
  "calls_first env [] st = ([], st)"
| "calls_first env ((h, q) # calls) st = (case call_first env (main_methods ! h) q st of
      (op, st') \<Rightarrow> apfst ((#) op) (calls_first env calls st'))"

declare fetch.simps(1) [simp del]

text \<open>A handler that makes ordinary steps up to an operation; and, without its continuation, \<open>stops_at\<close>.\<close>

lemma straight_handler:
  "straight (server_prog handler impl) (Body (Handler h)) s s' op kr \<longleftrightarrow> (case impl h of
      CoStep f \<Rightarrow> straight (server_prog handler impl) (Body (Handler (snd (f s)))) (fst (f s)) s' op kr
    | CoSuspend op' k \<Rightarrow> s' = s \<and> op = ContextOp op' \<and> kr = (\<lambda>c. Body (Handler (k c)))
    | _ \<Rightarrow> straight (server_prog handler impl) (Body (Handler h)) s s' op kr)"
  by (cases "impl h") (simp_all add: straight_CoStep straight_CoSuspend comp_def)

definition stops_at :: "echo_env \<Rightarrow> main_point \<Rightarrow> main_server \<Rightarrow> main_response context_op \<Rightarrow> main_server \<Rightarrow> bool" where
  "stops_at env p s op s' \<longleftrightarrow> (\<exists>kr. straight (main_prog env) (Body (Handler p)) s s' (ContextOp op) kr)"

lemma stops_handler:
  "stops_at env p s op s' \<longleftrightarrow> (case main_impl env p of
      CoStep f \<Rightarrow> stops_at env (snd (f s)) (fst (f s)) op s' | CoSuspend op' k \<Rightarrow> s' = s \<and> op = op'
    | _ \<Rightarrow> stops_at env p s op s')"
proof -
  have "straight (main_prog env) (Body (Handler p)) s s' (ContextOp op) kr \<longleftrightarrow> (case main_impl env p of
      CoStep f \<Rightarrow> straight (main_prog env) (Body (Handler (snd (f s)))) (fst (f s)) s' (ContextOp op) kr
    | CoSuspend op' k \<Rightarrow> s' = s \<and> op = op' \<and> kr = (\<lambda>c. Body (Handler (k c)))
    | _ \<Rightarrow> straight (main_prog env) (Body (Handler p)) s s' (ContextOp op) kr)" for kr
    using straight_handler [of main_handler "main_impl env" p s s' "ContextOp op" kr]
    by (cases "main_impl env p") auto
  then show ?thesis by (cases "main_impl env p") (simp_all add: stops_at_def)
qed

text \<open>A handler leaves the executors alone and only adds to the log.\<close>

definition server_kept :: "main_server \<Rightarrow> main_server \<Rightarrow> bool" where
  "server_kept s s' \<longleftrightarrow> m_executors s' = m_executors s \<and> (\<exists>lines. echo_log s' = echo_log s @ lines)"

lemma variable_straight:
  "straight (main_prog env) (Body (Handler (VariablePoint (var_handler m q)))) s
     (s\<lparr>main_storage := snd (var_call q (main_storage s))\<rparr>)
     (ContextOp (map_context_op VariableR (reply_op (fst (var_call q (main_storage s))))))
     (\<lambda>c. Body (Handler (VariablePoint VarEnd)))"
  by (cases q; cases "main_storage s (case q of ReadRequest k \<Rightarrow> k | _ \<Rightarrow> [])")
     (simp_all add: straight_handler Let_def get_variable_def put_variable_def context_ops)

lemma variable_stops:
  "\<exists>s'. stops_at env (VariablePoint (var_handler m q)) s (map_context_op VariableR (reply_op (fst (var_call q (main_storage s))))) s' \<and>
     main_storage s' = snd (var_call q (main_storage s)) \<and> server_kept s s'"
proof -
  let ?s' = "s\<lparr>main_storage := snd (var_call q (main_storage s))\<rparr>"
  have "stops_at env (VariablePoint (var_handler m q)) s (map_context_op VariableR (reply_op (fst (var_call q (main_storage s))))) ?s'"
    using variable_straight unfolding stops_at_def by blast
  then show ?thesis by (intro exI [of _ ?s']) (simp add: server_kept_def)
qed

lemma server_kept_print [simp]: "server_kept s (print line s')" if "server_kept s s'"
  using that by (auto simp: server_kept_def print_def)

lemma print_main_storage [simp]: "main_storage (print line s) = main_storage s"
  by (simp add: print_def)

lemma echo_stops:
  "\<exists>s'. stops_at env (EchoPoint (echo_handler B_Begin m q)) s (map_context_op EchoR (echo_first env m q)) s' \<and>
     main_storage s' = main_storage s \<and> server_kept s s'"
proof (cases m)
  case MUnaryEcho
  show ?thesis unfolding MUnaryEcho
    by (simp add: stops_handler Let_def context_ops) (simp add: server_kept_def print_def)
next
  case MClientStreamEcho
  show ?thesis unfolding MClientStreamEcho
    by (simp add: stops_handler context_ops) (simp add: server_kept_def print_def)
next
  case MServerStreamEcho
  show ?thesis unfolding MServerStreamEcho
    by (simp add: stops_handler context_ops round_alarm_def) (simp add: server_kept_def print_def)
next
  case MBidirectionalStreamEcho
  show ?thesis unfolding MBidirectionalStreamEcho
    by (simp add: stops_handler context_ops Let_def new_locals_def) (simp add: server_kept_def print_def)
qed

lemma main_stops:
  "\<exists>s'. stops_at env (main_handler m q) s (fst (call_first env m q (main_storage s))) s' \<and>
     main_storage s' = snd (call_first env m q (main_storage s)) \<and> server_kept s s'"
  by (cases m) (use echo_stops variable_stops in \<open>simp_all add: comp_def\<close>)

section \<open>Serving calls\<close>

text \<open>The seven loops listen, and every other frame waits for an operation on one of the two queues.\<close>

definition main_ready :: "main_world \<Rightarrow> bool" where
  "main_ready w \<longleftrightarrow> fresh_above w \<and> 7 \<le> fresh w \<and> m_executors (shared w) = Server_executors default_ServerOptions \<and>
     (\<forall>i < 7. \<exists>e < 2. listening w i (main_methods ! i) e) \<and> (\<forall>h \<in> {7..<fresh w}. \<exists>q < 2. awaits_on w h = Some q)"

lemma listening_frame: "listening w h m e \<Longrightarrow> heap w' h = heap w h \<Longrightarrow> listening w' h m e"
  by (simp add: listening_def)

lemma default_executors: "Server_executors default_ServerOptions \<noteq> []" "length (Server_executors default_ServerOptions) = 2"
  by (simp_all add: Server_executors_def default_ServerOptions_def)

lemma default_select:
  assumes "m_executors s = Server_executors default_ServerOptions"
  obtains e where "SelectNextExecutor s = Ok (e, s\<lparr>m_nextExecutor := m_nextExecutor s + 1\<rparr>)" "e < 2"
proof
  let ?e = "unat (m_nextExecutor s) mod 2"
  show "SelectNextExecutor s = Ok (?e, s\<lparr>m_nextExecutor := m_nextExecutor s + 1\<rparr>)"
    using assms default_executors by (simp add: SelectNextExecutor_def)
qed simp

text \<open>
  An accepted call, for any server: its handler waits in a frame of its own, the loop listens
  again, and nothing else is touched.
\<close>

definition waits_frame :: "exec \<Rightarrow> ('r \<Rightarrow> 'p) \<Rightarrow> ('p, 'r, 'v) frame" where
  "waits_frame e kr = \<lparr>status = AwOp None kr, result = None, destroyOnDone = True, executor = Some e, parent = None\<rparr>"

lemma accepts_straight:
  assumes l: "listening w h m e" and lt: "h < fresh w" and ok: "srv_ok c"
    and first: "straight (server_prog handler impl) (Body (Handler (handler m (srv_message c)))) (shared w) s1 op kr"
    and sel: "SelectNextExecutor s1 = Ok (e', srv)"
  shows "\<exists>k w'. (\<forall>n \<ge> k. Resume (server_prog handler impl) n h (complete h c w) = Ok w') \<and> listening w' h m e' \<and>
     shared w' = srv \<and> submitted (events w') = submitted (events w) @ [(fresh w, op), (h, ListenOp m e')] \<and>
     heap w' (fresh w) = Some (waits_frame e kr) \<and> (\<forall>x. x \<noteq> fresh w \<and> x \<noteq> h \<longrightarrow> heap w' x = heap w x) \<and>
     fresh w' = Suc (fresh w)"
proof -
  let ?P = "server_prog handler impl"
  let ?w0 = "set_status h Running (complete h c w)"
  have same: "fresh ?w0 = fresh w" "shared ?w0 = shared w" "events ?w0 = events w" "\<forall>x. x \<noteq> h \<longrightarrow> heap ?w0 x = heap w x"
    by (simp_all add: frame_defs complete_def)
  define w1 where "w1 = ?w0\<lparr>heap := (heap ?w0)(fresh w \<mapsto> waits_frame e kr), fresh := Suc (fresh w), shared := s1,
      events := events w @ [Submitted (fresh w) op]\<rparr>"
  have "mode ?P e = Immediate" by simp
  from spawn_straight [OF this, of "Handler (handler m (srv_message c))" ?w0 s1 op kr] first same(1-3)
  obtain n where sp: "Spawn ?P n e (Handler (handler m (srv_message c))) ?w0 = Ok w1"
    by (auto simp: w1_def waits_frame_def)
  have w1: "fresh w1 = Suc (fresh w)" "events w1 = events w @ [Submitted (fresh w) op]" "heap w1 h = heap ?w0 h"
      "heap w1 (fresh w) = Some (waits_frame e kr)" "\<forall>x. x \<noteq> fresh w \<longrightarrow> heap w1 x = heap ?w0 x"
    using lt by (simp_all add: w1_def)
  have "SelectNextExecutor (shared w1) = Ok (e', srv)" using sel by (simp add: w1_def)
  from listen_accepts [OF l ok sp w1(3) this] obtain k w2 where
    w2: "\<forall>n \<ge> k. Resume ?P n h (complete h c w) = Ok w2" "listening w2 h m e'" "shared w2 = srv"
      "events w2 = events w1 @ [Submitted h (ListenOp m e')]" "\<forall>x. x \<noteq> h \<longrightarrow> heap w2 x = heap w1 x" "fresh w2 = fresh w1" by auto
  have "\<forall>x. x \<noteq> fresh w \<and> x \<noteq> h \<longrightarrow> heap w2 x = heap w x" using w2(5) w1(5) same(4) by simp
  moreover have "heap w2 (fresh w) = Some (waits_frame e kr)" using w2(5) w1(4) lt by simp
  ultimately show ?thesis using w2(1-4,6) w1(1,2)
    by (intro exI [of _ k] exI [of _ w2] conjI) simp_all
qed

text \<open>The queues of the two frames.\<close>

lemma accepted_awaits:
  assumes "submitted (events w') = submitted (events w) @ [(fresh w, ContextOp op), (h, ListenOp m e')]" "h < fresh w"
    and "listening w' h m e'" "heap w' (fresh w) = Some (waits_frame e kr)" "\<forall>x. x \<noteq> fresh w \<and> x \<noteq> h \<longrightarrow> heap w' x = heap w x"
  shows "awaits_on w' (fresh w) = Some e" "awaits_on w' h = Some e'"
    "x \<noteq> fresh w \<Longrightarrow> x \<noteq> h \<Longrightarrow> awaits_on w' x = awaits_on w x"
proof -
  show "awaits_on w' (fresh w) = Some e" "awaits_on w' h = Some e'"
    using assms(1-4) by (auto simp: awaits_on_def waits_frame_def listening_def)
  assume "x \<noteq> fresh w" "x \<noteq> h"
  with assms(5) show "awaits_on w' x = awaits_on w x" by (intro awaits_on_cong [OF _ assms(1)]) auto
qed

lemma main_accepts:
  assumes "main_ready w" and "h < 7"
  shows "\<exists>k w'. (\<forall>n \<ge> k. Resume (main_prog env) n h (complete h (message q) w) = Ok w') \<and> main_ready w' \<and>
     main_storage (shared w') = snd (call_first env (main_methods ! h) q (main_storage (shared w))) \<and>
     sent w' = sent w @ [fst (call_first env (main_methods ! h) q (main_storage (shared w)))] \<and>
     (\<exists>lines. echo_log (shared w') = echo_log (shared w) @ lines) \<and> fresh w' = Suc (fresh w)"
proof -
  let ?P = "main_prog env" and ?m = "main_methods ! h" and ?c = "message q"
  from assms obtain e where l: "listening w h ?m e" "e < 2" by (auto simp: main_ready_def)
  have lt: "h < fresh w" using assms by (auto simp: main_ready_def)
  obtain s1 kr where s1: "straight ?P (Body (Handler (main_handler ?m q))) (shared w) s1
      (ContextOp (fst (call_first env ?m q (main_storage (shared w))))) kr"
    "main_storage s1 = snd (call_first env ?m q (main_storage (shared w)))" "server_kept (shared w) s1"
    using main_stops [of env ?m q "shared w"] by (auto simp: stops_at_def)
  have "m_executors s1 = Server_executors default_ServerOptions" using s1(3) assms(1) by (simp add: server_kept_def main_ready_def)
  then obtain e' srv where sel: "SelectNextExecutor s1 = Ok (e', srv)" "srv = s1\<lparr>m_nextExecutor := m_nextExecutor s1 + 1\<rparr>" "e' < 2"
    using default_select by metis
  have "srv_ok ?c" "straight ?P (Body (Handler (main_handler ?m (srv_message ?c)))) (shared w) s1
      (ContextOp (fst (call_first env ?m q (main_storage (shared w))))) kr" using s1(1) by simp_all
  from accepts_straight [OF l(1) lt this sel(1)] obtain k w2 where
    w2: "\<forall>n \<ge> k. Resume ?P n h (complete h ?c w) = Ok w2" "listening w2 h ?m e'" "shared w2 = srv"
      "submitted (events w2) = submitted (events w) @ [(fresh w, ContextOp (fst (call_first env ?m q (main_storage (shared w))))),
        (h, ListenOp ?m e')]"
      "\<forall>x. x \<noteq> fresh w \<and> x \<noteq> h \<longrightarrow> heap w2 x = heap w x" "fresh w2 = Suc (fresh w)"
      "heap w2 (fresh w) = Some (waits_frame e kr)" by auto
  have loops: "\<exists>e < 2. listening w2 i (main_methods ! i) e" if i: "i < 7" for i
  proof (cases "i = h")
    case False
    from assms(1) i obtain e where e: "listening w i (main_methods ! i) e" "i < fresh w" "e < 2" by (auto simp: main_ready_def)
    with w2(5) False have "heap w2 i = heap w i" by simp
    with e show ?thesis by (auto intro: listening_frame)
  qed (use w2(2) sel(3) in auto)
  note awaits = accepted_awaits [OF w2(4) lt w2(2,7,5)]
  have handlers: "\<exists>q < 2. awaits_on w2 i = Some q" if i: "i \<in> {7..<fresh w2}" for i
  proof (cases "i = fresh w")
    case True
    with awaits(1) l(2) show ?thesis by blast
  next
    case False
    with i w2(6) assms(2) have "i \<in> {7..<fresh w}" "i \<noteq> h" by auto
    with awaits(3) [OF False] assms(1) show ?thesis by (simp add: main_ready_def)
  qed
  moreover have "fresh_above w2" using assms(1) w2(5,6) lt by (auto simp: main_ready_def fresh_above_def)
  ultimately have "main_ready w2"
    using assms(1) s1(3) w2(3,6) sel(2) loops handlers unfolding main_ready_def by (simp add: server_kept_def)
  moreover have "sent w2 = sent w @ [fst (call_first env ?m q (main_storage (shared w)))]"
    by (simp add: sent_def ops_of_def w2(4))
  ultimately show ?thesis using w2(1,3,6) sel(2) s1(2,3) by (intro exI [of _ k] exI [of _ w2]) (simp add: server_kept_def)
qed

lemma main_serves:
  assumes "main_ready w" and "set (map fst calls) \<subseteq> {..<7}"
  shows "\<exists>k w'. (\<forall>n \<ge> k. main_serve env n calls w = Ok w') \<and> main_ready w' \<and>
     main_storage (shared w') = snd (calls_first env calls (main_storage (shared w))) \<and>
     sent w' = sent w @ fst (calls_first env calls (main_storage (shared w))) \<and>
     (\<exists>lines. echo_log (shared w') = echo_log (shared w) @ lines) \<and> fresh w' = fresh w + length calls"
  using assms
proof (induction calls arbitrary: w)
  case (Cons call calls)
  obtain h q where call: "call = (h, q)" by fastforce
  with Cons.prems have "h < 7" by simp
  from main_accepts [OF Cons.prems(1) this, of env q] obtain k w1 lines where
    w1: "\<forall>n \<ge> k. Resume (main_prog env) n h (complete h (message q) w) = Ok w1" "main_ready w1"
      "main_storage (shared w1) = snd (call_first env (main_methods ! h) q (main_storage (shared w)))"
      "sent w1 = sent w @ [fst (call_first env (main_methods ! h) q (main_storage (shared w)))]"
      "echo_log (shared w1) = echo_log (shared w) @ lines" "fresh w1 = Suc (fresh w)" by blast
  from Cons.IH [OF w1(2)] Cons.prems(2) obtain k' w' lines' where
    w': "\<forall>n \<ge> k'. main_serve env n calls w1 = Ok w'" "main_ready w'"
      "main_storage (shared w') = snd (calls_first env calls (main_storage (shared w1)))"
      "sent w' = sent w1 @ fst (calls_first env calls (main_storage (shared w1)))"
      "echo_log (shared w') = echo_log (shared w1) @ lines'" "fresh w' = fresh w1 + length calls" by auto
  have "\<forall>n \<ge> max k k'. main_serve env n (call # calls) w = Ok w'"
    using w1(1) w'(1) by (simp add: call del: exec_call.simps)
  then show ?case using w' w1(3-6)
    by (intro exI [of _ "max k k'"] exI [of _ w']) (simp add: call case_prod_beta)
qed (intro exI conjI, auto)

section \<open>The life of the server\<close>

text \<open>A larger budget gives the same world.\<close>

lemma Server_start_mono:
  "Server_start handler impl n ms w = Ok w' \<Longrightarrow> n \<le> m \<Longrightarrow> Server_start handler impl m ms w = Ok w'"
proof (induction ms arbitrary: w)
  case (Cons x ms)
  have mono: "StartListening handler impl m x w = Ok w1" if "StartListening handler impl n x w = Ok w1" for w1
    using that exec_call_Ok_mono [OF _ Cons.prems(2)]
    by (auto simp: StartListening_def obind_eq_Ok_iff Spawn_def allocate_def simp del: exec_call.simps)
  with Cons show ?case by (auto simp: obind_eq_Ok_iff)
qed simp

lemma close_all_mono: "close_all P n c hs w = Ok w' \<Longrightarrow> n \<le> m \<Longrightarrow> close_all P m c hs w = Ok w'"
proof (induction hs arbitrary: w)
  case (Cons h hs)
  from Cons.prems(1) obtain w1 where "Resume P n h (complete h c w) = Ok w1" "close_all P n c hs w1 = Ok w'"
    by (auto simp: obind_eq_Ok_iff simp del: exec_call.simps)
  with Cons.IH Cons.prems(2) exec_call_Ok_mono [OF this(1) Cons.prems(2)] show ?case by (simp del: exec_call.simps)
qed simp

lemma server_setup_mono: "server_setup env n = Ok w \<Longrightarrow> n \<le> m \<Longrightarrow> server_setup env m = Ok w"
  using Server_start_mono by (fastforce simp: server_setup_def obind_eq_Ok_iff)

lemma server_exit_mono: "server_exit env n c hs1 hs2 w = Ok r \<Longrightarrow> n \<le> m \<Longrightarrow> server_exit env m c hs1 hs2 w = Ok r"
  using close_all_mono [where n = n and m = m] by (fastforce simp: server_exit_def obind_eq_Ok_iff)

lemma say_simps [simp]:
  "heap (say line w) = heap w" "fresh (say line w) = fresh w" "events (say line w) = events w"
  "echo_log (shared (say line w)) = echo_log (shared w) @ [line]" "m_executors (shared (say line w)) = m_executors (shared w)"
  "main_storage (shared (say line w)) = main_storage (shared w)" "m_nextExecutor (shared (say line w)) = m_nextExecutor (shared w)"
  by (simp_all add: say_def print_def)

lemma say_sent [simp]: "sent (say line w) = sent w" "main_ready (say line w) = main_ready w"
  "awaits_on (say line w) h = awaits_on w h"
proof -
  show awaits: "awaits_on (say line w) h = awaits_on w h" for h by (rule awaits_on_same) simp_all
  show "sent (say line w) = sent w" "main_ready (say line w) = main_ready w"
    by (simp_all add: sent_def ops_of_def main_ready_def fresh_above_def listening_def awaits)
qed

lemma server_setup_ready:
  assumes "8 \<le> n"
  shows "\<exists>w. server_setup env n = Ok w \<and> main_ready w \<and> fresh w = 7 \<and> main_storage (shared w) = Map.empty \<and> sent w = [] \<and>
     echo_log (shared w) = [''Setting up services...'', ''Setting up server...'', ''Server started'']"
proof -
  let ?w0 = "say ''Setting up server...'' (say ''Setting up services...'' (empty_world main_init))"
  have w0: "fresh ?w0 = 0" "events ?w0 = []" "fresh_above ?w0" "m_executors (shared ?w0) = Server_executors default_ServerOptions"
    "main_storage (shared ?w0) = Map.empty" "echo_log (shared ?w0) = [''Setting up services...'', ''Setting up server...'']"
    by (simp_all add: empty_world_def main_init_def fresh_above_def)
  have len: "length main_methods = 7" by (simp add: main_methods_def echo_methods_def var_methods_def)
  have ne: "m_executors (shared ?w0) \<noteq> []" using w0(4) default_executors by simp
  from Server_start_listens [OF ne assms, of main_handler "main_impl env" main_methods, unfolded len w0(1,2)] obtain w where
    w: "Server_start main_handler (main_impl env) n main_methods ?w0 = Ok w" "fresh w = 7"
      "shared w = (shared ?w0)\<lparr>m_nextExecutor := m_nextExecutor (shared ?w0) + of_nat (2 * 7)\<rparr>"
      "submitted (events w) = map (\<lambda>i. (i, ListenOp (main_methods ! i) (first_executor (shared ?w0) i))) [0..<7]"
      "\<forall>i < 7. listening w i (main_methods ! i) (first_executor (shared ?w0) i)" "fresh_above w"
    using w0(3) by auto
  have "length (m_executors (shared ?w0)) = 2" by (simp only: w0(4) default_executors)
  then have "first_executor (shared ?w0) i < 2" for i by (simp only: first_executor_def mod_less_divisor)
  then have "main_ready w" using w(2,3,5,6) w0(4) by (auto simp: main_ready_def)
  moreover have "sent w = []" by (simp add: sent_def ops_of_def w(4) comp_def)
  ultimately show ?thesis using w(1-3) w0(5,6) by (simp add: server_setup_def)
qed

lemma close_listening:
  assumes "main_ready w" "set hs \<subseteq> {..<7}" "distinct hs" "\<not> srv_ok c" "5 \<le> n" "\<forall>h \<in> set hs. heap w1 h = heap w h"
  shows "\<exists>w2. close_all (main_prog env) n c hs w1 = Ok w2 \<and> heap w2 = heap w1 |` (- set hs) \<and> shared w2 = shared w1 \<and>
     submitted (events w2) = submitted (events w1) \<and> fresh w2 = fresh w1"
proof (rule close_all_listening [OF assms(4,5,3)])
  show "\<forall>h \<in> set hs. \<exists>m e. listening w1 h m e"
  proof
    fix h assume h: "h \<in> set hs"
    with assms(1,2) obtain e where "listening w h (main_methods ! h) e" by (auto simp: main_ready_def)
    with assms(6) h show "\<exists>m e. listening w1 h m e" by (auto intro: listening_frame)
  qed
qed

lemma default_destroy:
  assumes "m_executors srv = Server_executors default_ServerOptions"
  shows "Server_destroy srv busy {} = (if \<exists>q < 2. busy q then None else Some {0, 1})"
proof -
  have "set [0..<2] = {0, 1 :: nat}" by auto
  moreover have "(\<exists>q < 2. busy q) \<longleftrightarrow> busy 0 \<or> busy (1 :: nat)" by (auto simp: less_2_cases_iff)
  ultimately show ?thesis using destroy_new_executors [of 2 "[0..<2]" busy "{}"] assms
    by (simp add: Server_destroy_def Server_executors_def default_ServerOptions_def del: set_upt)
qed

lemma server_exits:
  assumes "main_ready w" "distinct (hs1 @ hs2)" "set (hs1 @ hs2) = {..<7}" "\<not> srv_ok c" "5 \<le> n"
  shows "\<exists>w'. server_exit env n c hs1 hs2 w = Ok (w', if fresh w = 7 then Some {0, 1} else None) \<and> heap w' = heap w |` {7..} \<and>
     main_storage (shared w') = main_storage (shared w) \<and> sent w' = sent w \<and>
     echo_log (shared w') = echo_log (shared w) @ [''Shutting down...'', ''Bye!'']"
proof -
  let ?w0 = "say ''Shutting down...'' w"
  from assms(3) have sub: "set hs1 \<subseteq> {..<7}" "set hs2 \<subseteq> {..<7}" by auto
  from assms(2) have dist: "distinct hs1" "distinct hs2" "set hs1 \<inter> set hs2 = {}" by auto
  from close_listening [OF assms(1) sub(1) dist(1) assms(4,5), of ?w0 env] obtain w1 where
    w1: "close_all (main_prog env) n c hs1 ?w0 = Ok w1" "heap w1 = heap w |` (- set hs1)" "shared w1 = shared ?w0"
      "submitted (events w1) = submitted (events w)" "fresh w1 = fresh w" by auto
  have "\<forall>h \<in> set hs2. heap (say ''Bye!'' w1) h = heap w h" using dist(3) by (auto simp: w1(2) restrict_map_def)
  from close_listening [OF assms(1) sub(2) dist(2) assms(4,5) this, of env] obtain w2 where
    w2: "close_all (main_prog env) n c hs2 (say ''Bye!'' w1) = Ok w2" "heap w2 = heap w1 |` (- set hs2)"
      "shared w2 = shared (say ''Bye!'' w1)" "submitted (events w2) = submitted (events w1)" "fresh w2 = fresh w1" by auto
  have "m_executors (shared w2) = Server_executors default_ServerOptions"
    using assms(1) w1(3) w2(3) by (simp add: main_ready_def)
  then have destroy: "Server_destroy (shared w2) (queue_pending w2) {} = (if \<exists>q < 2. queue_pending w2 q then None else Some {0, 1})"
    by (rule default_destroy)
  have "- set hs1 \<inter> - set hs2 = - set (hs1 @ hs2)" by simp
  then have "- set hs1 \<inter> - set hs2 = {7..}" unfolding assms(3) by (simp only: Compl_lessThan)
  then have heap: "heap w2 = heap w |` {7..}" by (simp add: w2(2) w1(2))
  have awaits: "awaits_on w2 h = (if 7 \<le> h then awaits_on w h else None)" for h
  proof (cases "7 \<le> h")
    case True
    then have "heap w2 h = heap w h" by (simp add: heap)
    from awaits_on_same [OF this] True w1(4) w2(4) show ?thesis by simp
  next
    case False
    then show ?thesis by (simp add: awaits_on_gone heap)
  qed
  have "(\<exists>q < 2. queue_pending w2 q) \<longleftrightarrow> fresh w \<noteq> 7"
  proof
    assume "\<exists>q < 2. queue_pending w2 q"
    then show "fresh w \<noteq> 7" by (auto simp: queue_pending_def list_ex_iff awaits w1(5) w2(5) split: if_splits)
  next
    assume "fresh w \<noteq> 7"
    then have "7 \<in> {7..<fresh w}" using assms(1) by (simp add: main_ready_def)
    then obtain q where "q < 2" "awaits_on w 7 = Some q" using assms(1) unfolding main_ready_def by blast
    with \<open>7 \<in> {7..<fresh w}\<close> show "\<exists>q < 2. queue_pending w2 q"
      by (auto simp: queue_pending_def list_ex_iff awaits w1(5) w2(5) intro!: exI [of _ q] bexI [of _ 7])
  qed
  with destroy have "Server_destroy (shared w2) (queue_pending w2) {} = (if fresh w = 7 then Some {0, 1} else None)" by simp
  moreover note heap
  moreover have "sent w2 = sent w" by (simp add: sent_def ops_of_def w1(4) w2(4))
  moreover have "main_storage (shared w2) = main_storage (shared w)"
    "echo_log (shared w2) = echo_log (shared w) @ [''Shutting down...'', ''Bye!'']"
    unfolding w2(3) say_simps w1(3) by simp_all
  ultimately show ?thesis unfolding server_exit_def w1(1) obind.simps w2(1) by blast
qed

section \<open>Properties\<close>

text \<open>
  C7. The server program.  It starts to listen to all seven methods of its two services; calls
  that then arrive, in any order, are all accepted, each by a handler of its own which submits the
  operation its method starts with, and the calls of the variable service change the storage as
  its specification says, whatever calls of the echo service come between.  After the shutdown the
  seven listening coroutines end in any order, also while the destructor of the server waits, and
  nothing is submitted any more.  Here no operation of a handler completes (\<open>ServerDrain\<close> is about
  those): so the destructor returns, with all queues shut down and all threads joined, when there
  was no call, and otherwise it still waits for the threads whose queues the handlers are on.
\<close>

theorem server_main_runs:
  assumes "set (map fst calls) \<subseteq> {..<7}" and "distinct (hs1 @ hs2)" "set (hs1 @ hs2) = {..<7}" and "\<not> srv_ok closed"
  shows "\<exists>k w lines. (\<forall>n \<ge> k. server_main env n calls closed hs1 hs2 = Ok (w, if calls = [] then Some {0, 1} else None)) \<and>
     sent w = fst (calls_first env calls Map.empty) \<and> main_storage (shared w) = snd (calls_first env calls Map.empty) \<and>
     (\<forall>h < 7. heap w h = None) \<and> dom (heap w) \<subseteq> {7..<7 + length calls} \<and>
     echo_log (shared w) = [''Setting up services...'', ''Setting up server...'', ''Server started''] @ lines @
       [''Shutting down...'', ''Bye!'']"
proof -
  obtain w1 where w1: "server_setup env 8 = Ok w1" "main_ready w1" "main_storage (shared w1) = Map.empty" "sent w1 = []"
      "echo_log (shared w1) = [''Setting up services...'', ''Setting up server...'', ''Server started'']" "fresh w1 = 7"
    using server_setup_ready [of 8 env] by auto
  from main_serves [OF w1(2) assms(1), of env] obtain k w2 lines where
    w2: "\<forall>n \<ge> k. main_serve env n calls w1 = Ok w2" "main_ready w2"
      "main_storage (shared w2) = snd (calls_first env calls Map.empty)" "sent w2 = fst (calls_first env calls Map.empty)"
      "echo_log (shared w2) = echo_log (shared w1) @ lines" "fresh w2 = 7 + length calls" unfolding w1(3,4,6) by auto
  from w2(6) have none: "fresh w2 = 7 \<longleftrightarrow> calls = []" by simp
  from server_exits [OF w2(2) assms(2-4), of 5 env] obtain w where
    w: "server_exit env 5 closed hs1 hs2 w2 = Ok (w, if calls = [] then Some {0, 1} else None)" "heap w = heap w2 |` {7..}"
      "main_storage (shared w) = main_storage (shared w2)" "sent w = sent w2"
      "echo_log (shared w) = echo_log (shared w2) @ [''Shutting down...'', ''Bye!'']" unfolding none by auto
  have "server_main env n calls closed hs1 hs2 = Ok (w, if calls = [] then Some {0, 1} else None)" if "max 8 k \<le> n" for n
    using server_setup_mono [OF w1(1), of n] server_exit_mono [OF w(1), of n] w2(1) that by (simp add: server_main_def)
  moreover have "dom (heap w) \<subseteq> {7..<7 + length calls}"
    using w2(2,6) by (auto simp: w(2) main_ready_def restrict_map_def dest: fresh_above_less split: if_splits)
  ultimately show ?thesis using w w1(5) w2(3-5)
    by (intro exI [of _ "max 8 k"] exI [of _ w] exI [of _ lines]) (simp add: restrict_map_def)
qed

text \<open>A client writes a variable, an echo call comes, and the variable is read back.\<close>

theorem server_main_runs_witness:
  "\<exists>k w. (\<forall>n \<ge> k. server_main plain_env n [(4, VariableQ (WriteRequest ''level'' 3)), (0, EchoQ (UnaryEchoRequest ''hola'')),
       (5, VariableQ (ReadRequest ''level''))] \<lparr>srv_ok = False, srv_message = EchoQ BidirectionalNotSet\<rparr> [6, 2, 0] [1, 5, 4, 3] = Ok (w, None)) \<and>
     sent w = [Finish (Some (VariableR (WriteResponse True))) Status_OK, Finish (Some (EchoR (UnaryEchoResponse ''hola''))) Status_OK,
       Finish (Some (VariableR (ReadResponse 3))) Status_OK] \<and> main_storage (shared w) = [''level'' \<mapsto> 3]"
proof -
  let ?calls = "[(4 :: hdl, VariableQ (WriteRequest ''level'' 3)), (0, EchoQ (UnaryEchoRequest ''hola'')), (5, VariableQ (ReadRequest ''level''))]"
  let ?hs1 = "[6, 2, 0] :: hdl list" and ?hs2 = "[1, 5, 4, 3] :: hdl list"
  let ?closed = "\<lparr>srv_ok = False, srv_message = EchoQ BidirectionalNotSet\<rparr>"
  have "set (map fst ?calls) \<subseteq> {..<7 :: nat}" "distinct (?hs1 @ ?hs2)" "set (?hs1 @ ?hs2) = {..<7}" "\<not> srv_ok ?closed" by auto
  from server_main_runs [OF this, of plain_env] obtain k w where
    "\<forall>n \<ge> k. server_main plain_env n ?calls ?closed ?hs1 ?hs2 = Ok (w, None)"
    "sent w = fst (calls_first plain_env ?calls Map.empty)" "main_storage (shared w) = snd (calls_first plain_env ?calls Map.empty)" by auto
  then show ?thesis
    by (intro exI [of _ k] exI [of _ w]) (simp add: main_methods_def echo_methods_def var_methods_def)
qed

end
