(* ===== verification/ServerJobs.thy ===== *)
theory ServerJobs
  imports ServerProgram
begin

text \<open>
  The server program under any completions: calls that arrive, operations of their handlers that
  succeed or fail, and the shutdown while handlers are still running.  A specification keeps the
  open listening loops and, for every call in flight, the operation its handler waits for; the
  machine refines it.  The calls of the bidirectional method, whose handler is two coroutines, are
  left out here (\<open>BidiMachine\<close>).
\<close>

section \<open>Calls in flight\<close>

text \<open>What a handler waits for.\<close>

datatype job =
    J_Variable "var_response call_reply"
  | J_Unary echo_request
  | J_Read "string list"
  | J_Reply "string list"
  | J_Wait echo_request "32 word"
  | J_Write echo_request "32 word"
  | J_Finish

fun job_op :: "echo_env \<Rightarrow> job \<Rightarrow> main_response context_op" where
  "job_op env (J_Variable r) = map_context_op VariableR (reply_op r)"
| "job_op env (J_Unary q) = Finish (Some (EchoR (UnaryEchoResponse (request_message q)))) Status_OK"
| "job_op env (J_Read ms) = Read"
| "job_op env (J_Reply ms) = Finish (Some (EchoR (ClientStreamEchoResponse ms))) Status_OK"
| "job_op env (J_Wait q n) = round_alarm env q n"
| "job_op env (J_Write q n) = Write (EchoR (round_response q n)) None"
| "job_op env J_Finish = Finish None Status_OK"

definition round_job :: "echo_request \<Rightarrow> 32 word \<Rightarrow> job" where
  "round_job q n = (if n \<le> request_count q then J_Wait q n else J_Finish)"

text \<open>What it waits for next, if it does not end.\<close>

fun next_job :: "job \<Rightarrow> main_request server_completion \<Rightarrow> job option" where
  "next_job (J_Read ms) c = Some (if srv_ok c then J_Read (ms @ [request_message (echo_message (srv_message c))]) else J_Reply ms)"
| "next_job (J_Wait q n) c = Some (J_Write q n)"
| "next_job (J_Write q n) c = Some (round_job q (n + 1))"
| "next_job _ c = None"

fun first_job :: "main_method \<Rightarrow> main_request \<Rightarrow> storage \<Rightarrow> (job \<times> storage) option" where
  "first_job (Echo MUnaryEcho) q st = Some (J_Unary (echo_message q), st)"
| "first_job (Echo MClientStreamEcho) q st = Some (J_Read [], st)"
| "first_job (Echo MServerStreamEcho) q st = Some (round_job (echo_message q) 1, st)"
| "first_job (Echo MBidirectionalStreamEcho) q st = None"
| "first_job (Variable m) q st = Some (apfst J_Variable (var_call (variable_message q) st))"

text \<open>Where a handler goes on in the code when its operation completes.\<close>

fun job_point :: "job \<Rightarrow> main_request server_completion \<Rightarrow> main_point" where
  "job_point (J_Variable r) c = VariablePoint VarEnd"
| "job_point (J_Unary q) c = EchoPoint UnaryEnd"
| "job_point (J_Read ms) c = EchoPoint (if srv_ok c then ClientStreamGot ms (echo_message (srv_message c)) else ClientStreamReply ms)"
| "job_point (J_Reply ms) c = EchoPoint ClientStreamEnd"
| "job_point (J_Wait q n) c = EchoPoint (ServerStreamSend q n)"
| "job_point (J_Write q n) c = EchoPoint (ServerStreamLoop q (n + 1))"
| "job_point J_Finish c = EchoPoint EchoEnd"

definition job_kont where
  "job_kont j = (\<lambda>c. Body (Handler (job_point j c)))"

declare fetch.simps(1) [simp del]

definition job_keeps :: "main_server \<Rightarrow> storage \<Rightarrow> main_server \<Rightarrow> bool" where
  "job_keeps s st s' \<longleftrightarrow> m_executors s' = m_executors s \<and> main_storage s' = st"

lemma with_message_simps [simp]: "srv_ok (with_message f c) = srv_ok c" "srv_message (with_message f c) = f (srv_message c)"
  by (simp_all add: with_message_def)

lemma print_keeps [simp]: "job_keeps s st (print line s') = job_keeps s st s'" "job_keeps s (main_storage s) s"
  by (simp_all add: job_keeps_def print_def)

lemma straight_end_handler:
  "straight_end (server_prog handler impl) (Body (Handler h)) s s' \<longleftrightarrow> (case impl h of
      CoStep f \<Rightarrow> straight_end (server_prog handler impl) (Body (Handler (snd (f s)))) (fst (f s)) s'
    | CoReturnVoid \<Rightarrow> s' = s
    | _ \<Rightarrow> straight_end (server_prog handler impl) (Body (Handler h)) s s')"
  by (cases "impl h") (simp_all add: straight_end_CoStep straight_end_CoReturnVoid comp_def)

lemma round_straight:
  "straight (main_prog env) (Body (Handler (EchoPoint (ServerStreamLoop q n)))) s s' op kr \<longleftrightarrow>
     s' = print (if n \<le> request_count q then ''Started waiting'' else ''End of ServerStreamEcho'') s \<and>
     op = ContextOp (job_op env (round_job q n)) \<and> kr = job_kont (round_job q n)"
  by (simp add: straight_handler context_ops round_job_def job_kont_def round_alarm_def)

lemma first_job_straight:
  assumes "first_job m q (main_storage s) = Some (j, st)"
  shows "\<exists>s'. straight (main_prog env) (Body (Handler (main_handler m q))) s s' (ContextOp (job_op env j)) (job_kont j) \<and>
     job_keeps s st s'"
proof (cases m)
  case (Variable x)
  with assms have "j = J_Variable (fst (var_call (variable_message q) (main_storage s)))"
    "st = snd (var_call (variable_message q) (main_storage s))" by (auto simp: apfst_def map_prod_def split: prod.splits)
  with variable_straight [of env x "variable_message q" s] Variable show ?thesis
    by (auto simp: job_kont_def job_keeps_def)
next
  case (Echo x)
  show ?thesis
  proof (cases x)
    case MServerStreamEcho
    have start: "straight (main_prog env) (Body (Handler (main_handler m q))) s s' op kr \<longleftrightarrow>
        straight (main_prog env) (Body (Handler (EchoPoint (ServerStreamLoop (echo_message q) 1))))
          (print (''Received ServerstreamEcho '' @ bracket (debug_request env (echo_message q))) s) s' op kr" for s' op kr
      unfolding Echo MServerStreamEcho main_handler.simps echo_handler.simps by (subst straight_handler) simp
    show ?thesis unfolding start round_straight using assms Echo MServerStreamEcho by auto
  qed (use assms Echo in \<open>auto simp: straight_handler Let_def context_ops job_kont_def\<close>)
qed

lemma job_straight:
  assumes "next_job j c = Some j'"
  shows "\<exists>s'. straight (main_prog env) (job_kont j c) s s' (ContextOp (job_op env j')) (job_kont j') \<and>
     job_keeps s (main_storage s) s'"
proof (cases j)
  case (J_Read ms)
  with assms show ?thesis
    by (cases "srv_ok c") (auto simp: job_kont_def straight_handler context_ops)
next
  case (J_Wait q n)
  with assms show ?thesis
    by (auto simp: job_kont_def straight_handler context_ops)
next
  case (J_Write q n)
  then have "straight (main_prog env) (job_kont j c) s s' op kr \<longleftrightarrow>
      straight (main_prog env) (Body (Handler (EchoPoint (ServerStreamLoop q (n + 1))))) s s' op kr" for s' op kr
    by (simp add: job_kont_def)
  then show ?thesis unfolding round_straight using assms J_Write by auto
qed (use assms in auto)

lemma job_straight_end:
  assumes "next_job j c = None"
  shows "\<exists>s'. straight_end (main_prog env) (job_kont j c) s s' \<and> job_keeps s (main_storage s) s'"
proof (cases j)
  case (J_Variable r)
  then show ?thesis by (simp add: job_kont_def straight_end_handler)
next
  case (J_Unary q)
  then show ?thesis by (simp add: job_kont_def straight_end_handler)
next
  case (J_Reply ms)
  then show ?thesis by (simp add: job_kont_def straight_end_handler)
next
  case J_Finish
  then show ?thesis by (simp add: job_kont_def straight_end_handler)
qed (use assms in auto)

section \<open>The specification of the server\<close>

text \<open>
  The open loops, the calls in flight by the frames of their handlers, the number of the next
  frame, the storage, and the operations handlers have submitted.
\<close>

record serving =
  loops :: "hdl set"
  jobs :: "hdl \<Rightarrow> job option"
  next_frame :: hdl
  kept :: storage
  issued :: "main_response context_op list"

type_synonym server_event = "hdl \<times> main_request server_completion"

definition add_call :: "echo_env \<Rightarrow> job \<times> storage \<Rightarrow> serving \<Rightarrow> serving" where
  "add_call env r s = (case r of (j, st) \<Rightarrow> s\<lparr>jobs := (jobs s)(next_frame s \<mapsto> j), next_frame := Suc (next_frame s), kept := st,
     issued := issued s @ [job_op env j]\<rparr>)"

definition go_on :: "echo_env \<Rightarrow> hdl \<Rightarrow> job option \<Rightarrow> serving \<Rightarrow> serving" where
  "go_on env h j s = s\<lparr>jobs := (jobs s)(h := j), issued := issued s @ (case j of None \<Rightarrow> [] | Some j' \<Rightarrow> [job_op env j'])\<rparr>"

text \<open>An operation completes: a request for a call, or the operation a handler waits for.\<close>

fun server_step :: "echo_env \<Rightarrow> server_event \<Rightarrow> serving \<Rightarrow> serving option" where
  "server_step env (h, c) s = (if h \<in> loops s
     then if srv_ok c
       then map_option (\<lambda>r. add_call env r s) (first_job (main_methods ! h) (srv_message c) (kept s))
       else Some (s\<lparr>loops := loops s - {h}\<rparr>)
     else map_option (\<lambda>j. go_on env h (next_job j c) s) (jobs s h))"

fun server_steps :: "echo_env \<Rightarrow> server_event list \<Rightarrow> serving \<Rightarrow> serving option" where
  "server_steps env [] s = Some s"
| "server_steps env (ev # evs) s = Option.bind (server_step env ev s) (server_steps env evs)"

definition serving_init :: serving where
  "serving_init = \<lparr>loops = {..<7}, jobs = Map.empty, next_frame = 7, kept = Map.empty, issued = []\<rparr>"

section \<open>The machine refines it\<close>

fun deliver_events :: "echo_env \<Rightarrow> nat \<Rightarrow> server_event list \<Rightarrow> main_world \<Rightarrow> main_world outcome" where
  "deliver_events env n [] w = Ok w"
| "deliver_events env n ((h, c) # evs) w = obind (Resume (main_prog env) n h (complete h c w)) (deliver_events env n evs)"

definition shows_serving :: "main_world \<Rightarrow> serving \<Rightarrow> bool" where
  "shows_serving w s \<longleftrightarrow> fresh w = next_frame s \<and> 7 \<le> next_frame s \<and>
     m_executors (shared w) = Server_executors default_ServerOptions \<and> main_storage (shared w) = kept s \<and> sent w = issued s \<and>
     loops s \<subseteq> {..<7} \<and> dom (jobs s) \<subseteq> {7..<next_frame s} \<and> dom (heap w) = loops s \<union> dom (jobs s) \<and>
     (\<forall>h \<in> loops s. \<exists>e < 2. listening w h (main_methods ! h) e) \<and>
     (\<forall>h j. jobs s h = Some j \<longrightarrow> (\<exists>e < 2. heap w h = Some (waits_frame e (job_kont j)))) \<and>
     (\<forall>h \<in> dom (heap w). \<exists>q < 2. awaits_on w h = Some q)"

lemma waits_frame_simps [simp]: "status (waits_frame e kr) = AwOp None kr" "parent (waits_frame e kr) = None"
  "destroyOnDone (waits_frame e kr)" "(waits_frame e kr)\<lparr>status := AwOp None kr'\<rparr> = waits_frame e kr'"
  by (simp_all add: waits_frame_def)

lemma shows_loop:
  assumes "shows_serving w s" "h \<in> loops s"
  shows "h < 7" "\<exists>e < 2. listening w h (main_methods ! h) e" "jobs s h = None"
proof -
  show lt: "h < 7" using assms by (auto simp: shows_serving_def)
  have "dom (jobs s) \<subseteq> {7..<next_frame s}" using assms(1) by (simp add: shows_serving_def)
  then have "h \<notin> dom (jobs s)" using lt by (meson atLeastLessThan_iff linorder_not_less subsetD)
  then show "jobs s h = None" by (simp add: domIff)
  show "\<exists>e < 2. listening w h (main_methods ! h) e" using assms unfolding shows_serving_def by blast
qed

lemma shows_job:
  assumes "shows_serving w s" "jobs s h = Some j"
  shows "\<exists>e < 2. heap w h = Some (waits_frame e (job_kont j))" "h \<notin> loops s"
  using assms shows_loop(3) [OF assms(1)] unfolding shows_serving_def by (blast, fastforce)

lemma shows_awaits:
  assumes "shows_serving w s" "h \<in> dom (heap w)"
  shows "\<exists>q < 2. awaits_on w h = Some q"
  using assms unfolding shows_serving_def by blast

lemma sent_events: "submitted (events w') = submitted (events w) @ es \<Longrightarrow> sent w' = sent w @ concat (map (context_op \<circ> snd) es)"
  by (simp add: sent_def ops_of_def)

lemma shows_accept:
  assumes w: "shows_serving w s" and h: "h \<in> loops s" and ok: "srv_ok c"
    and j: "first_job (main_methods ! h) (srv_message c) (kept s) = Some r"
  shows "\<exists>k w'. (\<forall>n \<ge> k. Resume (main_prog env) n h (complete h c w) = Ok w') \<and> shows_serving w' (add_call env r s) \<and>
     (\<exists>e. submitted (events w') = submitted (events w) @ [(fresh w, ContextOp (job_op env (fst r))), (h, ListenOp (main_methods ! h) e)])"
proof -
  let ?P = "main_prog env" and ?m = "main_methods ! h"
  obtain j st where r: "r = (j, st)" by fastforce
  have "h < 7" using w h by (auto simp: shows_serving_def)
  then have lt: "h < fresh w" using w by (auto simp: shows_serving_def)
  from shows_loop(2) [OF w h] obtain e where l: "listening w h ?m e" and e: "e < 2" by blast
  have "main_storage (shared w) = kept s" using w by (simp add: shows_serving_def)
  with j r obtain s1 where s1: "straight ?P (Body (Handler (main_handler ?m (srv_message c)))) (shared w) s1
      (ContextOp (job_op env j)) (job_kont j)" "job_keeps (shared w) st s1"
    using first_job_straight [of ?m "srv_message c" "shared w" j st env] by auto
  have "m_executors s1 = Server_executors default_ServerOptions" using s1(2) w by (simp add: job_keeps_def shows_serving_def)
  then obtain e' srv where sel: "SelectNextExecutor s1 = Ok (e', srv)" "srv = s1\<lparr>m_nextExecutor := m_nextExecutor s1 + 1\<rparr>" "e' < 2"
    using default_select by metis
  from accepts_straight [OF l lt ok s1(1) sel(1)] obtain k w' where
    w': "\<forall>n \<ge> k. Resume ?P n h (complete h c w) = Ok w'" "listening w' h ?m e'" "shared w' = srv"
      "submitted (events w') = submitted (events w) @ [(fresh w, ContextOp (job_op env j)), (h, ListenOp ?m e')]"
      "heap w' (fresh w) = Some (waits_frame e (job_kont j))" "\<forall>x. x \<noteq> fresh w \<and> x \<noteq> h \<longrightarrow> heap w' x = heap w x"
      "fresh w' = Suc (fresh w)" by blast
  have nf: "fresh w = next_frame s" "dom (jobs s) \<subseteq> {7..<next_frame s}" "loops s \<subseteq> {..<7}" "7 \<le> next_frame s"
    using w by (simp_all add: shows_serving_def)
  have loops: "\<exists>e < 2. listening w' i (main_methods ! i) e" if "i \<in> loops s" for i
  proof (cases "i = h")
    case False
    moreover have "i \<noteq> fresh w" using that nf by auto
    ultimately have "heap w' i = heap w i" using w'(6) by simp
    with shows_loop(2) [OF w that] show ?thesis by (auto intro: listening_frame)
  qed (use w'(2) sel(3) in auto)
  have job: "\<exists>e < 2. heap w' i = Some (waits_frame e (job_kont j'))" if "jobs s i = Some j'" for i j'
  proof -
    have "i \<noteq> fresh w" "i \<noteq> h" using that nf \<open>h < 7\<close> by auto
    with w'(6) shows_job(1) [OF w that] show ?thesis by simp
  qed
  have new: "\<exists>e < 2. heap w' (fresh w) = Some (waits_frame e (job_kont j))" using w'(5) e by blast
  have dom: "dom (heap w') = insert (fresh w) (dom (heap w))"
  proof -
    have "heap w h \<noteq> None" "heap w' h \<noteq> None" using l w'(2) by (auto simp: listening_def)
    with w'(5,6) show ?thesis by (auto simp: dom_def) metis+
  qed
  have awaits: "\<exists>q < 2. awaits_on w' i = Some q" if i: "i \<in> dom (heap w')" for i
  proof -
    note on = accepted_awaits [OF w'(4) lt w'(2,5,6)]
    consider "i = fresh w" | "i = h" | "i \<noteq> fresh w" "i \<noteq> h" "i \<in> dom (heap w)" using i unfolding dom by blast
    then show ?thesis using on e sel(3) shows_awaits [OF w] by cases simp_all
  qed
  have "sent w' = sent w @ [job_op env j]" using sent_events [OF w'(4)] by simp
  then have "shows_serving w' (add_call env r s)"
    using w nf w'(3,7) s1(2) sel(2) dom loops job new awaits
    unfolding shows_serving_def add_call_def r by (auto simp: job_keeps_def)
  with w'(1,4) r show ?thesis by auto
qed

lemma shows_go_on:
  assumes w: "shows_serving w s" and j: "jobs s h = Some j"
  shows "\<exists>k w'. (\<forall>n \<ge> k. Resume (main_prog env) n h (complete h c w) = Ok w') \<and> shows_serving w' (go_on env h (next_job j c) s) \<and>
     submitted (events w') = submitted (events w) @ (case next_job j c of None \<Rightarrow> [] | Some j' \<Rightarrow> [(h, ContextOp (job_op env j'))])"
proof -
  from shows_job [OF w j] obtain e where f: "heap w h = Some (waits_frame e (job_kont j))" and e: "e < 2" and hl: "h \<notin> loops s" by blast
  have loops: "\<exists>e < 2. listening w' i (main_methods ! i) e" if "i \<in> loops s" "\<forall>x. x \<noteq> h \<longrightarrow> heap w' x = heap w x" for i and w' :: main_world
  proof -
    from that hl have "heap w' i = heap w i" by metis
    with shows_loop(2) [OF w that(1)] show ?thesis by (auto intro: listening_frame)
  qed
  show ?thesis
  proof (cases "next_job j c")
    case None
    from job_straight_end [OF this, of env "shared w"] obtain s' where
      s': "straight_end (main_prog env) (job_kont j c) (shared w) s'" "job_keeps (shared w) (main_storage (shared w)) s'" by blast
    let ?w' = "w\<lparr>heap := (heap w)(h := None), shared := s', events := events w @ [Destroyed h]\<rparr>"
    from complete_straight_end [OF f waits_frame_simps(1-3) s'(1)]
    obtain n where n: "\<forall>m \<ge> n. Resume (main_prog env) m h (complete h c w) = Ok ?w'" by blast
    have "sent ?w' = sent w" by (simp add: sent_def ops_of_def)
    moreover have "\<exists>e < 2. listening ?w' i (main_methods ! i) e" if "i \<in> loops s" for i by (rule loops [OF that]) simp
    moreover have "\<exists>q < 2. awaits_on ?w' i = Some q" if "i \<in> dom (heap ?w')" for i
    proof -
      from that have "awaits_on ?w' i = awaits_on w i" by (intro awaits_on_same) (auto split: if_splits)
      with that shows_awaits [OF w, of i] show ?thesis by (auto split: if_splits)
    qed
    ultimately have "shows_serving ?w' (go_on env h None s)"
      using w s'(2) hl by (auto simp: shows_serving_def go_on_def job_keeps_def)
    with n None show ?thesis by (intro exI [of _ n] exI [of _ ?w']) simp
  next
    case (Some j')
    from job_straight [OF this, of env "shared w"] obtain s' where
      s': "straight (main_prog env) (job_kont j c) (shared w) s' (ContextOp (job_op env j')) (job_kont j')"
        "job_keeps (shared w) (main_storage (shared w)) s'" by blast
    let ?w' = "w\<lparr>heap := (heap w)(h \<mapsto> waits_frame e (job_kont j')), shared := s',
      events := events w @ [Submitted h (ContextOp (job_op env j'))]\<rparr>"
    from complete_straight [OF f waits_frame_simps(1) s'(1)]
    obtain n where n: "\<forall>m \<ge> n. Resume (main_prog env) m h (complete h c w) = Ok ?w'" by auto
    have "sent ?w' = sent w @ [job_op env j']" by (simp add: sent_def ops_of_def)
    moreover have "\<exists>e < 2. listening ?w' i (main_methods ! i) e" if "i \<in> loops s" for i by (rule loops [OF that]) simp
    moreover have "\<exists>q < 2. awaits_on ?w' i = Some q" if "i \<in> dom (heap ?w')" for i
    proof (cases "i = h")
      case True
      with e show ?thesis by (simp add: awaits_on_def waits_frame_def)
    next
      case False
      then have "awaits_on ?w' i = awaits_on w i"
        by (intro awaits_on_cong [where es = "[(h, ContextOp (job_op env j'))]"]) auto
      with that False shows_awaits [OF w, of i] show ?thesis by auto
    qed
    ultimately have "shows_serving ?w' (go_on env h (Some j') s)"
      using w s'(2) hl j f e by (auto simp: shows_serving_def go_on_def job_keeps_def)
    with n Some show ?thesis by (intro exI [of _ n] exI [of _ ?w']) simp
  qed
qed

lemma shows_stop:
  assumes w: "shows_serving w s" and h: "h \<in> loops s" and "\<not> srv_ok c"
  shows "\<exists>k w'. (\<forall>n \<ge> k. Resume (main_prog env) n h (complete h c w) = Ok w') \<and> shows_serving w' (s\<lparr>loops := loops s - {h}\<rparr>)"
proof -
  from w h obtain e e0 where f: "heap w h = Some (waits_frame e0 (listen_kont (main_methods ! h) e))"
    by (auto simp: shows_serving_def listening_def waits_frame_def)
  have "straight_end (main_prog env) (listen_kont (main_methods ! h) e c) (shared w) (shared w)"
    using assms(3) by (intro straight_end_return) (simp add: listen_kont_def)
  from complete_straight_end [OF f waits_frame_simps(1-3) this] obtain n where
    n: "\<forall>m \<ge> n. Resume (main_prog env) m h (complete h c w) = Ok (w\<lparr>heap := (heap w)(h := None), shared := shared w,
      events := events w @ [Destroyed h]\<rparr>)" by blast
  let ?w' = "w\<lparr>heap := (heap w)(h := None), shared := shared w, events := events w @ [Destroyed h]\<rparr>"
  have "\<exists>e < 2. listening ?w' i (main_methods ! i) e" if "i \<in> loops s" "i \<noteq> h" for i
    using w that by (auto simp: shows_serving_def listening_def)
  moreover have "\<exists>q < 2. awaits_on ?w' i = Some q" if "i \<in> dom (heap ?w')" for i
  proof -
    from that have "awaits_on ?w' i = awaits_on w i" by (intro awaits_on_same) (auto split: if_splits)
    with that shows_awaits [OF w, of i] show ?thesis by (auto split: if_splits)
  qed
  moreover have "h \<notin> dom (jobs s)" using shows_loop(3) [OF w h] by (simp add: domIff)
  ultimately have "shows_serving ?w' (s\<lparr>loops := loops s - {h}\<rparr>)"
    using w by (auto simp: shows_serving_def sent_def ops_of_def)
  with n show ?thesis by blast
qed

lemma server_step_refines:
  assumes "shows_serving w s" and "server_step env (h, c) s = Some s'"
  shows "\<exists>k w'. (\<forall>n \<ge> k. Resume (main_prog env) n h (complete h c w) = Ok w') \<and> shows_serving w' s'"
proof (cases "h \<in> loops s")
  case loop: True
  show ?thesis
  proof (cases "srv_ok c")
    case True
    with loop assms(2) obtain r where r: "first_job (main_methods ! h) (srv_message c) (kept s) = Some r" "s' = add_call env r s"
      by auto
    from shows_accept [OF assms(1) loop True r(1), of env] show ?thesis unfolding r(2) by blast
  next
    case False
    with loop assms(2) have "s' = s\<lparr>loops := loops s - {h}\<rparr>" by simp
    with shows_stop [OF assms(1) loop False, of env] show ?thesis by blast
  qed
next
  case False
  with assms(2) obtain j where j: "jobs s h = Some j" "s' = go_on env h (next_job j c) s" by auto
  from shows_go_on [OF assms(1) j(1), of env c] show ?thesis unfolding j(2) by blast
qed

lemma server_steps_refine:
  assumes "shows_serving w s" and "server_steps env evs s = Some s'"
  shows "\<exists>k w'. (\<forall>n \<ge> k. deliver_events env n evs w = Ok w') \<and> shows_serving w' s'"
  using assms
proof (induction evs arbitrary: w s)
  case (Cons ev evs)
  obtain h c where ev: "ev = (h, c)" by fastforce
  from Cons.prems(2) obtain s1 where s1: "server_step env ev s = Some s1" "server_steps env evs s1 = Some s'"
    by (cases "server_step env ev s") auto
  from server_step_refines [OF Cons.prems(1) s1(1) [unfolded ev]] obtain k w1 where
    w1: "\<forall>n \<ge> k. Resume (main_prog env) n h (complete h c w) = Ok w1" "shows_serving w1 s1" by blast
  from Cons.IH [OF w1(2) s1(2)] obtain k' w' where
    w': "\<forall>n \<ge> k'. deliver_events env n evs w1 = Ok w'" "shows_serving w' s'" by blast
  have "\<forall>n \<ge> max k k'. deliver_events env n (ev # evs) w = Ok w'"
    using w1(1) w'(1) by (simp add: ev del: exec_call.simps)
  with w'(2) show ?case by blast
qed auto

text \<open>A server that was set up serves as the specification starts.\<close>

lemma setup_shows:
  "\<exists>w. server_setup env 8 = Ok w \<and> shows_serving w serving_init"
proof -
  let ?w0 = "say ''Setting up server...'' (say ''Setting up services...'' (empty_world main_init))"
  have w0: "fresh ?w0 = 0" "events ?w0 = []" "fresh_above ?w0" "m_executors (shared ?w0) = Server_executors default_ServerOptions"
    "main_storage (shared ?w0) = Map.empty"
    by (simp_all add: empty_world_def main_init_def fresh_above_def)
  have len: "length main_methods = 7" by (simp add: main_methods_def echo_methods_def var_methods_def)
  have ne: "m_executors (shared ?w0) \<noteq> []" using w0(4) default_executors by simp
  have eight: "(8 :: nat) \<le> 8" by simp
  from Server_start_listens [OF ne eight, of main_handler "main_impl env" main_methods, unfolded len w0(1,2)] obtain w where
    w: "Server_start main_handler (main_impl env) 8 main_methods ?w0 = Ok w" "fresh w = 7"
      "shared w = (shared ?w0)\<lparr>m_nextExecutor := m_nextExecutor (shared ?w0) + of_nat (2 * 7)\<rparr>"
      "submitted (events w) = map (\<lambda>i. (i, ListenOp (main_methods ! i) (first_executor (shared ?w0) i))) [0..<7]"
      "\<forall>i < 7. listening w i (main_methods ! i) (first_executor (shared ?w0) i)" "fresh_above w"
    using w0(3) by auto
  have "heap w h \<noteq> None \<longleftrightarrow> h < 7" for h
  proof (cases "h < 7")
    case True
    with w(5) show ?thesis by (auto simp: listening_def)
  next
    case False
    with w(2,6) show ?thesis by (simp add: fresh_above_def)
  qed
  then have dom: "dom (heap w) = {..<7}" by (auto simp: dom_def)
  have "length (m_executors (shared ?w0)) = 2" by (simp only: w0(4) default_executors)
  then have lt: "first_executor (shared ?w0) i < 2" for i by (simp only: first_executor_def mod_less_divisor)
  have awaits: "\<exists>q < 2. awaits_on w i = Some q" if "i < 7" for i
  proof -
    have "distinct (map fst (submitted (events w)))" by (simp add: w(4) comp_def)
    moreover from that have "(i, ListenOp (main_methods ! i) (first_executor (shared ?w0) i)) \<in> set (submitted (events w))"
      by (simp add: w(4))
    ultimately have "map_of (rev (submitted (events w))) i = Some (ListenOp (main_methods ! i) (first_executor (shared ?w0) i))"
      by (intro map_of_is_SomeI) (simp_all add: rev_map [symmetric])
    with w(5) that lt show ?thesis by (auto simp: awaits_on_def listening_def)
  qed
  have "sent w = []" by (simp add: sent_def ops_of_def w(4) comp_def)
  moreover have "\<exists>e < 2. listening (say ''Server started'' w) i (main_methods ! i) e" if "i < 7" for i
    using w(5) [rule_format, OF that] lt [of i] unfolding listening_def say_simps by blast
  ultimately have "shows_serving (say ''Server started'' w) serving_init"
    using w(2,3) w0(4,5) dom awaits unfolding shows_serving_def serving_init_def by simp
  with w(1) show ?thesis by (simp add: server_setup_def)
qed

section \<open>Properties\<close>

text \<open>The server after any events.\<close>

definition server_after :: "echo_env \<Rightarrow> nat \<Rightarrow> server_event list \<Rightarrow> main_world outcome" where
  "server_after env n evs = obind (server_setup env n) (deliver_events env n evs)"

lemma server_after_shows:
  assumes "server_steps env evs serving_init = Some s"
  shows "\<exists>k w. (\<forall>n \<ge> k. server_after env n evs = Ok w) \<and> shows_serving w s"
proof -
  from setup_shows [of env] obtain w0 where w0: "server_setup env 8 = Ok w0" "shows_serving w0 serving_init" by blast
  from server_steps_refine [OF w0(2) assms] obtain k w where
    w: "\<forall>n \<ge> k. deliver_events env n evs w0 = Ok w" "shows_serving w s" by blast
  have "server_after env n evs = Ok w" if "max 8 k \<le> n" for n
    using server_setup_mono [OF w0(1), of n] w(1) that by (simp add: server_after_def)
  with w(2) show ?thesis by blast
qed

text \<open>The specification covers every event but the arrival of a call of the bidirectional method.\<close>

lemma first_job_None: "first_job m q st = None \<longleftrightarrow> m = Echo MBidirectionalStreamEcho"
  by (cases "(m, q, st)" rule: first_job.cases) simp_all

lemma server_step_None:
  "server_step env (h, c) s = None \<longleftrightarrow> (if h \<in> loops s then srv_ok c \<and> main_methods ! h = Echo MBidirectionalStreamEcho
     else jobs s h = None)"
  by (simp add: first_job_None)

text \<open>
  C4. The server program refines its specification, for the six methods whose handler is one
  coroutine: the unary, the two one-way streaming and the three variable calls.  Their calls
  arrive and the operations of their handlers complete, with success or not, in any order, and the
  listening loops of all seven methods may end: the machine runs without a fault, the handlers
  submit exactly the operations of the specification, the storage is the specified one, and the
  frames on the heap are the open loops and one for each call in flight, which waits for its
  operation; a finished call leaves nothing behind.  A history is not covered only if a call of
  the bidirectional method arrives (whose handler is \<open>BidiMachine\<close>'s), or if something completes
  that no frame waits for: the last part says that these are the only events without a step.
\<close>

theorem server_refines:
  assumes "server_steps env evs serving_init = Some s"
  shows "(\<exists>k w. (\<forall>n \<ge> k. server_after env n evs = Ok w) \<and> sent w = issued s \<and> main_storage (shared w) = kept s \<and>
     dom (heap w) = loops s \<union> dom (jobs s) \<and> (\<forall>h \<in> loops s. \<exists>e. listening w h (main_methods ! h) e) \<and>
     (\<forall>h j. jobs s h = Some j \<longrightarrow> (\<exists>e. heap w h = Some (waits_frame e (job_kont j))))) \<and>
   (\<forall>h c. server_step env (h, c) s = None \<longleftrightarrow>
     h \<notin> loops s \<and> jobs s h = None \<or> h \<in> loops s \<and> main_methods ! h = Echo MBidirectionalStreamEcho \<and> srv_ok c)"
proof
  from server_after_shows [OF assms] obtain k w where w: "\<forall>n \<ge> k. server_after env n evs = Ok w" "shows_serving w s" by blast
  have "sent w = issued s" "main_storage (shared w) = kept s" "dom (heap w) = loops s \<union> dom (jobs s)"
    using w(2) by (simp_all add: shows_serving_def)
  with w(1) shows_loop(2) [OF w(2)] shows_job(1) [OF w(2)]
  show "\<exists>k w. (\<forall>n \<ge> k. server_after env n evs = Ok w) \<and> sent w = issued s \<and> main_storage (shared w) = kept s \<and>
     dom (heap w) = loops s \<union> dom (jobs s) \<and> (\<forall>h \<in> loops s. \<exists>e. listening w h (main_methods ! h) e) \<and>
     (\<forall>h j. jobs s h = Some j \<longrightarrow> (\<exists>e. heap w h = Some (waits_frame e (job_kont j))))"
    by (intro exI [of _ k], intro exI [of _ w]) blast
  show "\<forall>h c. server_step env (h, c) s = None \<longleftrightarrow>
     h \<notin> loops s \<and> jobs s h = None \<or> h \<in> loops s \<and> main_methods ! h = Echo MBidirectionalStreamEcho \<and> srv_ok c"
    unfolding server_step_None by auto
qed

text \<open>A write and a client stream are open at the same time; the write is answered, one message is read.\<close>

theorem server_refines_witness:
  "(\<exists>k w. (\<forall>n \<ge> k. server_after plain_env n [(4, message (VariableQ (WriteRequest ''xp'' 7))), (1, message (EchoQ BidirectionalNotSet)),
       (8, message (EchoQ (ClientStreamEchoRequest ''hola''))), (7, message (EchoQ BidirectionalNotSet))] = Ok w) \<and>
     sent w = [Finish (Some (VariableR (WriteResponse True))) Status_OK, Read, Read] \<and> main_storage (shared w) = [''xp'' \<mapsto> 7] \<and>
     dom (heap w) = {..<7} \<union> {8})"
proof -
  let ?evs = "[(4, message (VariableQ (WriteRequest ''xp'' 7))), (1, message (EchoQ BidirectionalNotSet)),
       (8, message (EchoQ (ClientStreamEchoRequest ''hola''))), (7, message (EchoQ BidirectionalNotSet))] :: server_event list"
  let ?s = "\<lparr>loops = {..<7}, jobs = [8 \<mapsto> J_Read [''hola'']], next_frame = 9, kept = [''xp'' \<mapsto> 7],
     issued = [Finish (Some (VariableR (WriteResponse True))) Status_OK, Read, Read]\<rparr>"
  have "server_steps plain_env ?evs serving_init = Some ?s"
    by (simp add: serving_init_def main_methods_def echo_methods_def var_methods_def add_call_def go_on_def fun_upd_twist)
  from server_refines [OF this] show ?thesis by auto
qed

end
