(* ===== verification/ServerDrain.thy ===== *)
theory ServerDrain
  imports ServerJobs "HOL-Library.Extended_Nat"
begin

text \<open>
  The end of the server program with calls in flight: how many operations have to fail until the
  last frame is gone.
\<close>

section \<open>Draining the server\<close>














section \<open>The life of a server with calls in flight\<close>



lemma shows_say [simp]: "shows_serving (say line w) s = shows_serving w s"
  by (simp add: shows_serving_def listening_def)



section \<open>Properties\<close>



end
