(* ===== verification/RemoteMachine.thy ===== *)
theory RemoteMachine
  imports ServerJobs CharacterService
begin

text \<open>
  The client and the server program together.  A call of the variable service, made by any client
  coroutine through \<open>AutoRetryUnary\<close> and the network of \<open>RemoteCalls\<close>, arrives at the listening loop
  of the server program, which runs on the coroutine machine; the client gets what the handler
  sends.  The client cannot tell the server from its specification.
\<close>

section \<open>Replacing a service by its specification\<close>

text \<open>
  \<open>call n\<close> is a service that needs a budget \<open>n\<close>; with a large one it answers as \<open>spec\<close> does, as
  long as the states are related.
\<close>

locale simulated_calls =
  fixes call :: "nat \<Rightarrow> 'q \<Rightarrow> 's \<Rightarrow> 'a call_reply \<times> 's"
    and spec :: "'q \<Rightarrow> 't \<Rightarrow> 'a call_reply \<times> 't"
    and rel :: "'s \<Rightarrow> 't \<Rightarrow> bool"
  assumes simulates: "rel s t \<Longrightarrow> \<exists>k s'. (\<forall>n \<ge> k. call n q s = (fst (spec q t), s')) \<and> rel s' (snd (spec q t))"
begin

lemma deliver_simulates:
  assumes "rel s t"
  shows "\<exists>k s'. (\<forall>n \<ge> k. deliver_call (call n) q f s = (fst (deliver_call spec q f t), s')) \<and> rel s' (snd (deliver_call spec q f t))"
proof -
  from simulates [OF assms, of q] obtain k s' where
    "\<forall>n \<ge> k. call n q s = (fst (spec q t), s')" "rel s' (snd (spec q t))" by blast
  with assms show ?thesis
    by (intro exI [of _ k] exI [of _ "case f of RequestLost st \<Rightarrow> s | CallCancelled False \<Rightarrow> s | _ \<Rightarrow> s'"])
       (cases f; auto)
qed

lemma network_simulates:
  assumes "rel s t" and "network spec op (t, fs) = (x, (t', fs'))"
  shows "\<exists>k s'. (\<forall>n \<ge> k. network (call n) op (s, fs) = (x, (s', fs'))) \<and> rel s' t'"
proof (cases op)
  case (UnaryFinish ch q)
  obtain f gs where f: "next_fate fs = (f, gs)" by fastforce
  from deliver_simulates [OF assms(1), of q f] obtain k s' where
    "\<forall>n \<ge> k. deliver_call (call n) q f s = (fst (deliver_call spec q f t), s')" "rel s' (snd (deliver_call spec q f t))" by blast
  with assms(2) f UnaryFinish show ?thesis
    by (intro exI [of _ k] exI [of _ s']) (auto split: prod.splits)
next
  case (AlarmOp a)
  with assms show ?thesis by (intro exI [of _ 0] exI [of _ s]) (auto split: prod.splits fate.splits)
qed (use assms in \<open>auto intro: exI [of _ s]\<close>)

lemma exec_simulates:
  assumes "rel s t" and "co_exec (network spec) c (t, fs) = (r, (t', fs'))"
  shows "\<exists>k s'. (\<forall>n \<ge> k. co_exec (network (call n)) c (s, fs) = (r, (s', fs'))) \<and> rel s' t'"
  using assms
proof (induction c arbitrary: s t fs)
  case (Submit op k)
  obtain x t1 fs1 where x: "network spec op (t, fs) = (x, (t1, fs1))" by (cases "network spec op (t, fs)") auto
  from network_simulates [OF Submit.prems(1) x] obtain k1 s1 where
    s1: "\<forall>n \<ge> k1. network (call n) op (s, fs) = (x, (s1, fs1))" "rel s1 t1" by blast
  have "co_exec (network spec) (k x) (t1, fs1) = (r, (t', fs'))" using Submit.prems(2) x by simp
  from Submit.IH [OF _ s1(2) this] obtain k2 s' where
    s': "\<forall>n \<ge> k2. co_exec (network (call n)) (k x) (s1, fs1) = (r, (s', fs'))" "rel s' t'" by auto
  have "\<forall>n \<ge> max k1 k2. co_exec (network (call n)) (Submit op k) (s, fs) = (r, (s', fs'))" using s1(1) s'(1) by simp
  with s'(2) show ?case by blast
qed auto

end

section \<open>Calls on the server program\<close>

fun loop_of :: "var_request \<Rightarrow> hdl" where
  "loop_of (WriteRequest k v) = 4"
| "loop_of (ReadRequest k) = 5"
| "loop_of (DelRequest k) = 6"

lemma loop_of_method: "\<exists>m. main_methods ! loop_of q = Variable m" "loop_of q < 7"
  by (cases q; simp add: main_methods_def echo_methods_def var_methods_def)+

text \<open>The reply among the operations submitted since the call arrived.\<close>

fun reply_of :: "main_response context_op \<Rightarrow> var_response call_reply option" where
  "reply_of (Finish (Some (VariableR r)) st) = Some (if status_ok st then Replied r else Failed st)"
| "reply_of (FinishWithError st) = Some (Failed st)"
| "reply_of op = None"

fun first_reply :: "(hdl \<times> (main_method, main_response) server_op) list \<Rightarrow> (hdl \<times> var_response call_reply) option" where
  "first_reply [] = None"
| "first_reply ((h, ListenOp m e) # xs) = first_reply xs"
| "first_reply ((h, ContextOp op) # xs) = (case reply_of op of None \<Rightarrow> first_reply xs | Some r \<Rightarrow> Some (h, r))"

text \<open>
  A call arrives; when its handler has sent a reply, that operation completes, with \<open>c\<close>, and the
  client gets the reply.  Without a reply, or on a server that is gone, it gets \<open>UNAVAILABLE\<close>.
\<close>

definition unavailable :: status where
  "unavailable = Status UNAVAILABLE []"

definition call_server :: "echo_env \<Rightarrow> main_request server_completion \<Rightarrow> nat \<Rightarrow> var_request \<Rightarrow> main_world
    \<Rightarrow> (var_response call_reply \<times> main_world) outcome" where
  "call_server env c n q w =
     obind (Resume (main_prog env) n (loop_of q) (complete (loop_of q) (message (VariableQ q)) w)) (\<lambda>w1.
       case first_reply (drop (length (submitted (events w))) (submitted (events w1))) of
         None \<Rightarrow> Ok (Failed unavailable, w1)
       | Some (h, r) \<Rightarrow> obind (Resume (main_prog env) n h (complete h c w1)) (\<lambda>w2. Ok (r, w2)))"

fun machine_call :: "echo_env \<Rightarrow> main_request server_completion \<Rightarrow> nat \<Rightarrow> var_request \<Rightarrow> main_world outcome
    \<Rightarrow> var_response call_reply \<times> main_world outcome" where
  "machine_call env c n q (Ok w) = (case call_server env c n q w of
      Ok (r, w') \<Rightarrow> (r, Ok w') | Fault x \<Rightarrow> (Failed unavailable, Fault x) | OutOfFuel \<Rightarrow> (Failed unavailable, OutOfFuel))"
| "machine_call env c n q gone = (Failed unavailable, gone)"

text \<open>All loops are open and the calls of \<open>js\<close>, of other clients, are in flight.\<close>

definition stores :: "(hdl \<Rightarrow> job option) \<Rightarrow> main_world outcome \<Rightarrow> storage \<Rightarrow> bool" where
  "stores js x m \<longleftrightarrow> (\<exists>w s. x = Ok w \<and> shows_serving w s \<and> loops s = {..<7} \<and> jobs s = js \<and> kept s = m)"

lemma reply_of_sent: "reply_of (job_op env (J_Variable (fst (var_call q m)))) = Some (fst (var_call q m))"
  by (cases q) (auto split: option.split)

lemma call_server_simulates:
  assumes "shows_serving w s" and "loops s = {..<7}"
  shows "\<exists>k w' s'. (\<forall>n \<ge> k. call_server env c n q w = Ok (fst (var_call q (kept s)), w')) \<and> shows_serving w' s' \<and>
     loops s' = {..<7} \<and> jobs s' = jobs s \<and> kept s' = snd (var_call q (kept s))"
proof -
  let ?h = "loop_of q" and ?r = "fst (var_call q (kept s))" and ?st = "snd (var_call q (kept s))"
  let ?j = "J_Variable ?r"
  let ?s1 = "add_call env (?j, ?st) s"
  obtain m where m: "main_methods ! ?h = Variable m" using loop_of_method by blast
  have h: "?h \<in> loops s" using assms(2) loop_of_method(2) by simp
  have first: "first_job (main_methods ! ?h) (srv_message (message (VariableQ q))) (kept s) = Some (?j, ?st)"
    by (simp add: m apfst_def map_prod_def case_prod_beta)
  have "srv_ok (message (VariableQ q))" by simp
  from shows_accept [OF assms(1) h this first, of env] obtain k1 w1 e where
    w1: "\<forall>n \<ge> k1. Resume (main_prog env) n ?h (complete ?h (message (VariableQ q)) w) = Ok w1" "shows_serving w1 ?s1"
      "submitted (events w1) = submitted (events w) @ [(fresh w, ContextOp (job_op env ?j)), (?h, ListenOp (main_methods ! ?h) e)]"
    by auto
  have nf: "next_frame s = fresh w" "jobs s (fresh w) = None"
  proof -
    show *: "next_frame s = fresh w" using assms(1) by (simp add: shows_serving_def)
    have "dom (jobs s) \<subseteq> {7..<next_frame s}" using assms(1) by (simp add: shows_serving_def)
    then have "fresh w \<notin> dom (jobs s)" by (auto simp: *)
    then show "jobs s (fresh w) = None" by (simp add: domIff)
  qed
  have reply: "first_reply (drop (length (submitted (events w))) (submitted (events w1))) = Some (fresh w, ?r)"
    by (simp add: w1(3) reply_of_sent del: job_op.simps)
  have "jobs ?s1 (fresh w) = Some ?j" by (simp add: add_call_def nf)
  from shows_go_on [OF w1(2) this, of env c] obtain k2 w2 where
    w2: "\<forall>n \<ge> k2. Resume (main_prog env) n (fresh w) (complete (fresh w) c w1) = Ok w2"
      "shows_serving w2 (go_on env (fresh w) None ?s1)" by auto
  have "(jobs s)(fresh w := None) = jobs s" using nf(2) by auto
  then have s2: "loops (go_on env (fresh w) None ?s1) = {..<7}" "jobs (go_on env (fresh w) None ?s1) = jobs s"
    "kept (go_on env (fresh w) None ?s1) = ?st"
    using assms(2) by (simp_all add: go_on_def add_call_def nf(1))
  have "\<forall>n \<ge> max k1 k2. call_server env c n q w = Ok (?r, w2)"
    using w1(1) w2(1) reply by (simp add: call_server_def del: exec_call.simps)
  with w2(2) s2 show ?thesis by blast
qed

interpretation server: simulated_calls "machine_call env c" var_call "stores js" for env c js
proof
  fix x m and q :: var_request
  assume "stores js x m"
  then obtain w s where w: "x = Ok w" "shows_serving w s" "loops s = {..<7}" "jobs s = js" "kept s = m"
    by (auto simp: stores_def)
  from call_server_simulates [OF w(2,3), of env c q] obtain k w' s' where
    w': "\<forall>n \<ge> k. call_server env c n q w = Ok (fst (var_call q m), w')" "shows_serving w' s'"
      "loops s' = {..<7}" "jobs s' = js" "kept s' = snd (var_call q m)" unfolding w(4,5) by blast
  then show "\<exists>k x'. (\<forall>n \<ge> k. machine_call env c n q x = (fst (var_call q m), x')) \<and> stores js x' (snd (var_call q m))"
    by (intro exI [of _ k] exI [of _ "Ok w'"]) (auto simp: w(1) stores_def)
qed

section \<open>The character service on the server program\<close>

text \<open>\<open>remote_run\<close> over any service.\<close>

definition run_over :: "('q \<Rightarrow> 's \<Rightarrow> 'r call_reply \<times> 's) \<Rightarrow> (unit channel_provider \<Rightarrow> ('e, 'q client_op, 'r completion, 'a \<times> unit channel_provider) co)
    \<Rightarrow> 's \<times> 64 word \<Rightarrow> 'a outcome \<times> ('s \<times> 64 word)" where
  "run_over call c s = (case co_exec (network call) (c (m_client (snd s))) (fst s, []) of
      (Ok (a, p), (m, fs)) \<Rightarrow> (Ok a, (m, m_nextChannel p))
    | (Fault x, (m, fs)) \<Rightarrow> (Fault x, (m, snd s))
    | (OutOfFuel, (m, fs)) \<Rightarrow> (OutOfFuel, (m, snd s)))"

lemma remote_run_over: "remote_run = run_over var_call"
  by (simp add: remote_run_def run_over_def fun_eq_iff)

context simulated_calls begin

lemma run_simulates:
  assumes "rel s t"
  shows "\<exists>k s'. (\<forall>n \<ge> k. run_over (call n) c (s, i) = (fst (run_over spec c (t, i)), (s', snd (snd (run_over spec c (t, i)))))) \<and>
     rel s' (fst (snd (run_over spec c (t, i))))"
proof -
  obtain r t' fs' where run: "co_exec (network spec) (c (m_client i)) (t, []) = (r, (t', fs'))"
    by (cases "co_exec (network spec) (c (m_client i)) (t, [])") auto
  from exec_simulates [OF assms run] obtain k s' where
    s': "\<forall>n \<ge> k. co_exec (network (call n)) (c (m_client i)) (s, []) = (r, (s', fs'))" "rel s' t'" by blast
  then show ?thesis
    by (intro exI [of _ k] exI [of _ s']) (auto simp: run_over_def run split: outcome.split)
qed

end

abbreviation handle_over :: "(var_request \<Rightarrow> 's \<Rightarrow> var_response call_reply \<times> 's) \<Rightarrow> client_env \<Rightarrow> service_request \<Rightarrow> 's \<times> 64 word \<Rightarrow> 's \<times> 64 word" where
  "handle_over call env \<equiv> handle (run_over call (Grpc_GetPlayer env)) (\<lambda>a. run_over call (Grpc_GiveXp env a))
     (run_over call (Grpc_LevelUp env)) (run_over call (Grpc_Reset env))"

lemma handle_over_simulates:
  assumes "stores js x m"
  shows "\<exists>k x'. (\<forall>n \<ge> k. handle_over (machine_call senv c n) env q (x, i) = (x', snd (handle_over var_call env q (m, i)))) \<and>
     stores js x' (fst (handle_over var_call env q (m, i)))"
proof (cases q)
  case GetPlayer
  from server.run_simulates [OF assms, of senv c "Grpc_GetPlayer env" i] show ?thesis unfolding GetPlayer by fastforce
next
  case (GiveXp a)
  from server.run_simulates [OF assms, of senv c "Grpc_GiveXp env a" i] show ?thesis unfolding GiveXp by fastforce
next
  case LevelUp
  from server.run_simulates [OF assms, of senv c "Grpc_LevelUp env" i] show ?thesis unfolding LevelUp by fastforce
next
  case Reset
  from server.run_simulates [OF assms, of senv c "Grpc_Reset env" i] show ?thesis unfolding Reset by fastforce
qed

lemma session_simulates:
  assumes "stores js x m"
  shows "\<exists>k x' i'. (\<forall>n \<ge> k. fold (handle_over (machine_call senv c n) env) qs (x, i) = (x', i')) \<and>
     stores js x' (fst (fold (handle_over var_call env) qs (m, i)))"
  using assms
proof (induction qs arbitrary: x m i)
  case (Cons q qs)
  let ?r = "handle_over var_call env q (m, i)"
  from handle_over_simulates [OF Cons.prems, of senv c env q i] obtain k1 x1 where
    x1: "\<forall>n \<ge> k1. handle_over (machine_call senv c n) env q (x, i) = (x1, snd ?r)" "stores js x1 (fst ?r)" by blast
  from Cons.IH [OF x1(2), of "snd ?r"] obtain k2 x' i' where
    x': "\<forall>n \<ge> k2. fold (handle_over (machine_call senv c n) env) qs (x1, snd ?r) = (x', i')"
      "stores js x' (fst (fold (handle_over var_call env) qs ?r))" by auto
  have "\<forall>n \<ge> max k1 k2. fold (handle_over (machine_call senv c n) env) (q # qs) (x, i) = (x', i')"
    using x1(1) x'(1) by simp
  moreover have "fst (fold (handle_over var_call env) (q # qs) (m, i)) = fst (fold (handle_over var_call env) qs ?r)" by simp
  ultimately show ?case using x'(2) by metis
qed auto

lemma stores_at:
  assumes "stores js (Ok w) m"
  shows "main_storage (shared w) = m" "dom (heap w) = {..<7} \<union> dom js"
  using assms by (auto simp: stores_def shows_serving_def)

lemma server_after_stores:
  assumes "server_steps env evs serving_init = Some s" and "loops s = {..<7}"
  shows "\<exists>k w. (\<forall>n \<ge> k. server_after env n evs = Ok w) \<and> stores (jobs s) (Ok w) (kept s)"
  using server_after_shows [OF assms(1)] assms(2) by (auto simp: stores_def)

section \<open>Properties\<close>

text \<open>
  C2. A client cannot tell the server program from its specification.  Take any coroutine of the
  client over a network that loses requests and replies or cancels calls, and the server program
  on the coroutine machine after any events, with calls of other clients in flight: the coroutine
  gets the result it gets from a sequential map, the storage of the server ends as that map,
  and no frame is left on the server.
\<close>

theorem client_sees_specification:
  assumes "server_steps env evs serving_init = Some s" and "loops s = {..<7}"
    and "co_exec (network var_call) c (kept s, fs) = (r, (m, fs'))"
  shows "\<exists>k w w'. (\<forall>n \<ge> k. server_after env n evs = Ok w \<and>
       co_exec (network (machine_call env done n)) c (Ok w, fs) = (r, (Ok w', fs'))) \<and>
     main_storage (shared w') = m \<and> dom (heap w') = dom (heap w)"
proof -
  from server_after_stores [OF assms(1,2)] obtain k1 w where
    w: "\<forall>n \<ge> k1. server_after env n evs = Ok w" "stores (jobs s) (Ok w) (kept s)" by blast
  from server.exec_simulates [OF w(2) assms(3), of env "done"] obtain k2 x where
    x: "\<forall>n \<ge> k2. co_exec (network (machine_call env done n)) c (Ok w, fs) = (r, (x, fs'))" "stores (jobs s) x m" by blast
  from x(2) obtain w' where w': "x = Ok w'" by (auto simp: stores_def)
  have "main_storage (shared w') = m" "dom (heap w') = dom (heap w)"
    using stores_at [OF x(2) [unfolded w']] stores_at [OF w(2)] by simp_all
  with w(1) x(1) w' show ?thesis by (intro exI [of _ "max k1 k2"] exI [of _ w] exI [of _ w']) simp
qed

text \<open>A write whose first reply is lost is retried; the variable service answers the second attempt.\<close>

theorem client_sees_specification_witness:
  "\<exists>k w w' r. (\<forall>n \<ge> k. server_after plain_env n [] = Ok w \<and>
       co_exec (network (machine_call plain_env (message (EchoQ BidirectionalNotSet)) n)) (AutoRetryUnary (\<lambda>_ _. []) (\<lambda>_. 0)
         (ChannelProvider_one ()) 0 (WriteRequest ''xp'' 7) (WriteResponse False) Status_CANCELLED)
         (Ok w, [ReplyLost (Status UNAVAILABLE [])]) = (Ok ((True, WriteResponse False, Status_OK), r), (Ok w', []))) \<and>
     main_storage (shared w') = [''xp'' \<mapsto> 7] \<and> dom (heap w') = dom (heap w)"
proof -
  have steps: "server_steps plain_env [] serving_init = Some serving_init" "loops serving_init = {..<7}"
    by (simp_all add: serving_init_def)
  have p: "m_channels (ChannelProvider_one ()) \<noteq> []" by (simp add: ChannelProvider_one_def)
  have "co_exec (network var_call) (AutoRetryUnary (\<lambda>_ _. []) (\<lambda>_. 0) (ChannelProvider_one ()) 0 (WriteRequest ''xp'' 7)
      (WriteResponse False) Status_CANCELLED) (kept serving_init, [ReplyLost (Status UNAVAILABLE [])]) =
    (Ok ((True, WriteResponse False, Status_OK), next_channel (next_channel (ChannelProvider_one ()))), ([''xp'' \<mapsto> 7], []))"
    by (simp add: AutoRetryUnary_exec p retried_def delays_s_def Let_def serving_init_def)
  from client_sees_specification [OF steps this, of "message (EchoQ BidirectionalNotSet)"] show ?thesis by blast
qed

text \<open>
  C3. The game's character survives on the server.  Requests of the remote character service, each
  a coroutine with its reads and writes of variables, made against the server program on the
  coroutine machine after any events and with any calls of other clients in flight, leave in the
  server's storage the level and experience that the service in memory would have, as long as the
  values fit 64 bits; and no frame is left on the server.
\<close>

theorem server_keeps_player:
  assumes "server_steps senv evs serving_init = Some s" and "loops s = {..<7}" and "representable qs (player_in (kept s))"
  shows "\<exists>k w w' i'. (\<forall>n \<ge> k. server_after senv n evs = Ok w \<and>
       fold (handle_over (machine_call senv done n) env) qs (Ok w, i) = (Ok w', i')) \<and>
     player_in (main_storage (shared w')) = fold (handle Memory_GetPlayer Memory_GiveXp Memory_LevelUp Memory_Reset) qs (player_in (kept s)) \<and>
     dom (heap w') = dom (heap w)"
proof -
  from server_after_stores [OF assms(1,2)] obtain k1 w where
    w: "\<forall>n \<ge> k1. server_after senv n evs = Ok w" "stores (jobs s) (Ok w) (kept s)" by blast
  from session_simulates [OF w(2), of senv "done" env qs i] obtain k2 x i' where
    x: "\<forall>n \<ge> k2. fold (handle_over (machine_call senv done n) env) qs (Ok w, i) = (x, i')"
      "stores (jobs s) x (fst (fold (handle_over var_call env) qs (kept s, i)))" by blast
  from x(2) obtain w' where w': "x = Ok w'" by (auto simp: stores_def)
  have "player_in (main_storage (shared w')) = fold player_after qs (player_in (kept s))"
    using stores_at(1) [OF x(2) [unfolded w']] remote.handle_all [of qs "(kept s, i)" env] assms(3)
    by (simp add: remote_run_over)
  moreover have "fold (handle Memory_GetPlayer Memory_GiveXp Memory_LevelUp Memory_Reset) qs (player_in (kept s)) =
      fold player_after qs (player_in (kept s))" using memory.handle_all assms(3) by simp
  moreover have "dom (heap w') = dom (heap w)" using stores_at(2) [OF x(2) [unfolded w']] stores_at(2) [OF w(2)] by simp
  ultimately show ?thesis using w(1) x(1) w'
    by (intro exI [of _ "max k1 k2"] exI [of _ w] exI [of _ w'] exI [of _ i']) simp
qed

text \<open>While a client stream of another client is open, a gift, a level and a gift.\<close>

theorem server_keeps_player_witness:
  "\<exists>k w w' i'. (\<forall>n \<ge> k. server_after plain_env n [(1, message (EchoQ BidirectionalNotSet))] = Ok w \<and>
       fold (handle_over (machine_call plain_env (message (EchoQ BidirectionalNotSet)) n) zero_env)
         [GiveXp 100, LevelUp, GiveXp 50] (Ok w, 0) = (Ok w', i')) \<and>
     player_in (main_storage (shared w')) = \<lparr>level = 2, xp = 50\<rparr>"
proof -
  let ?evs = "[(1, message (EchoQ BidirectionalNotSet))] :: server_event list"
  let ?s = "\<lparr>loops = {..<7}, jobs = [7 \<mapsto> J_Read []], next_frame = 8, kept = Map.empty, issued = [Read]\<rparr>"
  have steps: "server_steps plain_env ?evs serving_init = Some ?s" "loops ?s = {..<7}"
    by (simp_all add: serving_init_def main_methods_def echo_methods_def add_call_def)
  have new: "player_in (kept ?s) = Player" by (simp add: player_in_def Player_def)
  have "representable [GiveXp 100, LevelUp, GiveXp 50] (player_in (kept ?s))"
    unfolding new by (simp add: Player_def int64_def)
  moreover have "fold (handle Memory_GetPlayer Memory_GiveXp Memory_LevelUp Memory_Reset) [GiveXp 100, LevelUp, GiveXp 50] (player_in (kept ?s)) =
      \<lparr>level = 2, xp = 50\<rparr>"
    unfolding new by (simp add: Memory_GiveXp_def Memory_LevelUp_def Let_def Player_def int64_def)
  ultimately show ?thesis
    using server_keeps_player [OF steps, of "[GiveXp 100, LevelUp, GiveXp 50]" "message (EchoQ BidirectionalNotSet)" zero_env 0] by metis
qed

end
