(* ===== verification/StreamSession.thy ===== *)
theory StreamSession
  imports ServerJobs EchoStreams
begin

text \<open>
  The streaming commands of the echo client against the server program: what the handler on the
  coroutine machine submits is what the command reads, and the other way round.  gRPC carries the
  messages in order and ends a stream when its sender has; other calls may be in flight on the
  server.
\<close>

section \<open>What goes over a call\<close>

fun requests_sent :: "echo_request client_op list \<Rightarrow> echo_request list" where
  "requests_sent [] = []"
| "requests_sent (StreamWrite call q options # xs) = q # requests_sent xs"
| "requests_sent (x # xs) = requests_sent xs"

fun responses_sent :: "main_response context_op list \<Rightarrow> echo_response list" where
  "responses_sent [] = []"
| "responses_sent (Write (EchoR r) options # xs) = r # responses_sent xs"
| "responses_sent (WriteAndFinish (EchoR r) options st # xs) = r # responses_sent xs"
| "responses_sent (Finish (Some (EchoR r)) st # xs) = r # responses_sent xs"
| "responses_sent (x # xs) = responses_sent xs"

fun status_sent :: "main_response context_op list \<Rightarrow> status option" where
  "status_sent [] = None"
| "status_sent (WriteAndFinish r options st # xs) = Some st"
| "status_sent (Finish r st # xs) = Some st"
| "status_sent (FinishWithError st # xs) = Some st"
| "status_sent (x # xs) = status_sent xs"

section \<open>The calls on the specification of the server\<close>

text \<open>A call leaves the server as it was, but for what it submitted.\<close>

definition left_as :: "serving \<Rightarrow> serving \<Rightarrow> main_response context_op list \<Rightarrow> bool" where
  "left_as s s' xs \<longleftrightarrow> loops s' = loops s \<and> jobs s' = jobs s \<and> kept s' = kept s \<and> issued s' = issued s @ xs"

lemma go_on_simps [simp]:
  "loops (go_on env h j s) = loops s" "jobs (go_on env h j s) = (jobs s)(h := j)" "kept (go_on env h j s) = kept s"
  "next_frame (go_on env h j s) = next_frame s"
  "issued (go_on env h j s) = issued s @ (case j of None \<Rightarrow> [] | Some j' \<Rightarrow> [job_op env j'])"
  by (simp_all add: go_on_def)

lemma add_call_simps [simp]:
  "loops (add_call env (j, st) s) = loops s" "jobs (add_call env (j, st) s) = (jobs s)(next_frame s \<mapsto> j)"
  "kept (add_call env (j, st) s) = st" "issued (add_call env (j, st) s) = issued s @ [job_op env j]"
  by (simp_all add: add_call_def)

lemma echo_loops: "main_methods ! 1 = Echo MClientStreamEcho" "main_methods ! Suc 0 = Echo MClientStreamEcho"
  "main_methods ! 2 = Echo MServerStreamEcho"
  by (simp_all add: main_methods_def echo_methods_def)

definition stream_rounds :: "echo_env \<Rightarrow> main_response context_op list" where
  "stream_rounds env = concat (map (\<lambda>n. [round_alarm env server_stream_request n,
     Write (EchoR (round_response server_stream_request n)) None]) [1, 2, 3]) @ [Finish None Status_OK]"

lemma round_jobs:
  "round_job server_stream_request 1 = J_Wait server_stream_request 1" "round_job server_stream_request 2 = J_Wait server_stream_request 2"
  "round_job server_stream_request 3 = J_Wait server_stream_request 3" "round_job server_stream_request 4 = J_Finish"
  by (simp_all add: round_job_def server_stream_request_def)

lemma server_stream_steps:
  assumes "2 \<in> loops s" "next_frame s \<notin> loops s" "jobs s (next_frame s) = None" "length cs = 7"
  shows "\<exists>s'. server_steps env ((2, message (EchoQ server_stream_request)) # map (Pair (next_frame s)) cs) s = Some s' \<and>
     left_as s s' (stream_rounds env)"
proof -
  from assms(4) obtain c1 c2 c3 c4 c5 c6 c7 where cs: "cs = [c1, c2, c3, c4, c5, c6, c7]"
    by (auto simp: length_Suc_conv eval_nat_numeral)
  let ?h = "next_frame s"
  have "(jobs s)(?h := None) = jobs s" using assms(3) by auto
  then show ?thesis
    using assms(1-3) unfolding cs
    by (simp add: echo_loops round_jobs left_as_def stream_rounds_def)
qed

lemma client_stream_reads:
  assumes "h \<notin> loops s" "jobs s h = Some (J_Read ms)" "\<not> srv_ok closed"
  shows "\<exists>s'. server_steps env (map (\<lambda>q. (h, message (EchoQ q))) qs @ [(h, closed), (h, c)]) s = Some s' \<and>
     loops s' = loops s \<and> jobs s' = (jobs s)(h := None) \<and> kept s' = kept s \<and>
     issued s' = issued s @ replicate (length qs) Read @
       [Finish (Some (EchoR (ClientStreamEchoResponse (ms @ map request_message qs)))) Status_OK]"
  using assms
proof (induction qs arbitrary: s ms)
  case (Cons q qs)
  let ?s1 = "go_on env h (Some (J_Read (ms @ [request_message q]))) s"
  have step: "server_step env (h, message (EchoQ q)) s = Some ?s1" using Cons.prems by simp
  have s1: "h \<notin> loops ?s1" "jobs ?s1 h = Some (J_Read (ms @ [request_message q]))" using Cons.prems by simp_all
  have upd: "(jobs ?s1)(h := None) = (jobs s)(h := None)" by (rule ext) simp
  from Cons.IH [OF s1 Cons.prems(3), unfolded upd] obtain s' where
    s': "server_steps env (map (\<lambda>q. (h, message (EchoQ q))) qs @ [(h, closed), (h, c)]) ?s1 = Some s'"
      "loops s' = loops ?s1 \<and> jobs s' = (jobs s)(h := None) \<and> kept s' = kept ?s1 \<and>
       issued s' = issued ?s1 @ replicate (length qs) Read @
        [Finish (Some (EchoR (ClientStreamEchoResponse ((ms @ [request_message q]) @ map request_message qs)))) Status_OK]" by blast
  then show ?case by (intro exI [of _ s']) (simp add: step del: server_step.simps)
qed simp

lemma client_stream_steps:
  assumes "1 \<in> loops s" "next_frame s \<notin> loops s" "jobs s (next_frame s) = None" "\<not> srv_ok closed"
  shows "\<exists>s'. server_steps env ((1, message (EchoQ req)) # map (\<lambda>q. (next_frame s, message (EchoQ q))) qs @
       [(next_frame s, closed), (next_frame s, c)]) s = Some s' \<and>
     left_as s s' (replicate (Suc (length qs)) Read @
       [Finish (Some (EchoR (ClientStreamEchoResponse (map request_message qs)))) Status_OK])"
proof -
  let ?h = "next_frame s" and ?s1 = "add_call env (J_Read [], kept s) s"
  have "?h \<notin> loops ?s1" "jobs ?s1 ?h = Some (J_Read [])" using assms by simp_all
  from client_stream_reads [OF this assms(4), of env qs c] obtain s' where
    s': "server_steps env (map (\<lambda>q. (?h, message (EchoQ q))) qs @ [(?h, closed), (?h, c)]) ?s1 = Some s'"
      "loops s' = loops s" "jobs s' = (jobs s)(?h := None)" "kept s' = kept s"
      "issued s' = issued s @ Read # replicate (length qs) Read @
        [Finish (Some (EchoR (ClientStreamEchoResponse (map request_message qs)))) Status_OK]" by auto
  have "(jobs s)(?h := None) = jobs s" using assms(3) by auto
  then show ?thesis using s' assms(1) by (simp add: echo_loops left_as_def)
qed

text \<open>The same on the machine.\<close>

lemma call_served:
  assumes "server_steps env evs serving_init = Some s" and "server_steps env calls s = Some s'" and "left_as s s' xs"
  shows "\<exists>k w w'. (\<forall>n \<ge> k. server_after env n evs = Ok w \<and> deliver_events env n calls w = Ok w') \<and>
     sent w' = sent w @ xs \<and> dom (heap w') = dom (heap w) \<and> main_storage (shared w') = main_storage (shared w)"
proof -
  from server_after_shows [OF assms(1)] obtain k1 w where
    w: "\<forall>n \<ge> k1. server_after env n evs = Ok w" "shows_serving w s" by blast
  from server_steps_refine [OF w(2) assms(2)] obtain k2 w' where
    w': "\<forall>n \<ge> k2. deliver_events env n calls w = Ok w'" "shows_serving w' s'" by blast
  have "sent w' = sent w @ xs" "dom (heap w') = dom (heap w)" "main_storage (shared w') = main_storage (shared w)"
    using w(2) w'(2) assms(3) by (simp_all add: shows_serving_def left_as_def)
  with w(1) w'(1) show ?thesis by (intro exI [of _ "max k1 k2"] exI [of _ w] exI [of _ w']) simp
qed

lemma next_frame_free:
  assumes "server_steps env evs serving_init = Some s"
  shows "next_frame s \<notin> loops s" "jobs s (next_frame s) = None"
proof -
  from server_after_shows [OF assms] obtain w where w: "shows_serving w s" by blast
  then have "loops s \<subseteq> {..<7}" "7 \<le> next_frame s" "dom (jobs s) \<subseteq> {7..<next_frame s}" by (simp_all add: shows_serving_def)
  then show "next_frame s \<notin> loops s" "jobs s (next_frame s) = None" by auto
qed

section \<open>The client side of ClientStreamEcho\<close>

definition writes_done :: "'s completion" where
  "writes_done = \<lparr>ok = True, reply = None, reply_status = None, started = 0\<rparr>"

definition finished_with :: "'s \<Rightarrow> status \<Rightarrow> 's completion" where
  "finished_with r st = \<lparr>ok = True, reply = Some r, reply_status = Some st, started = 0\<rparr>"

definition client_messages :: "string list" where
  "client_messages = [''Hello!'', ''World!'', ''Bye!'']"

lemma client_stream_client:
  assumes "m_channels p \<noteq> []" and "print_status (echo_code env) Status_OK = Ok text"
  shows "\<exists>es xs. co_run (ClientStreamEcho env p) (stream_started call # replicate (length client_messages) writes_done @
       [writes_done, finished_with r Status_OK]) =
     (es @ [LogLine (''Received '' @ bracket text @ bracket (debug_response env r)), LogLine ''End''], xs, CoReturned ((), next_channel p) []) \<and>
     requests_sent xs = map ClientStreamEchoRequest client_messages"
proof -
  have line: "received_line env [] Status_OK r = Ok (''Received '' @ bracket text @ bracket (debug_response env r))"
    by (simp add: received_line_def assms(2))
  show ?thesis
    unfolding ClientStreamEcho_def CallClientStream_def start_stream_eq [OF assms(1)] Let_def client_messages_def
    by (simp add: log_then_def call_ops Let_def writes_done_def finished_with_def stream_started_def line next_channel_def)
qed

section \<open>Properties\<close>

text \<open>
  C30. A server stream from end to end.  The server program, with any calls in flight, gets the
  request of the \<open>ServerStreamEcho\<close> command; its handler goes through its alarms and writes, and
  the command, run as a job of the client, is given the messages and the status that the handler
  sent: it prints the three numbered messages in order and the status, and both frames are gone.
\<close>

theorem server_stream_session:
  assumes "server_steps env evs serving_init = Some s" and "2 \<in> loops s" and "length cs = 7"
    and "fresh_above wc" and "m_channels (m_echo (shared wc)) \<noteq> []" and "print_status (echo_code cenv) Status_OK = Ok text"
  shows "\<exists>k w w' xs k' w1 w2. (\<forall>n \<ge> k. server_after env n evs = Ok w \<and>
       deliver_events env n ((2, message (EchoQ server_stream_request)) # map (Pair (next_frame s)) cs) w = Ok w') \<and>
     sent w' = sent w @ xs \<and> status_sent xs = Some Status_OK \<and> dom (heap w') = dom (heap w) \<and>
     (\<forall>m \<ge> k'. Spawn (stream_prog cenv) m e SS_Begin wc = Ok w1) \<and>
     serves (stream_prog cenv) w1 (stream_started call # map got (responses_sent xs) @ [stream_ended, finished (the (status_sent xs))]) w2 \<and>
     printed (shared w2) = printed (shared wc) @ [LogLine ''Start'', NewContext,
        LogLine (''Sending '' @ bracket (debug_request cenv server_stream_request)), LogLine ''Start Read''] @
        map (\<lambda>n. LogLine (''Received '' @ bracket (debug_response cenv (ServerStreamEchoResponse ''hola'' n)))) [1, 2, 3] @
        [LogLine ''Read done, getting status...'', LogLine (''Received '' @ bracket text), LogLine ''End''] \<and>
     heap w2 (fresh wc) = None"
proof -
  let ?xs = "stream_rounds env"
  from server_stream_steps [OF assms(2) next_frame_free [OF assms(1)] assms(3), of env] obtain s' where
    s': "server_steps env ((2, message (EchoQ server_stream_request)) # map (Pair (next_frame s)) cs) s = Some s'"
      "left_as s s' ?xs" by blast
  from call_served [OF assms(1) s'] obtain k w w' where
    w: "\<forall>n \<ge> k. server_after env n evs = Ok w \<and>
       deliver_events env n ((2, message (EchoQ server_stream_request)) # map (Pair (next_frame s)) cs) w = Ok w'"
      "sent w' = sent w @ ?xs" "dom (heap w') = dom (heap w)" by blast
  have xs: "responses_sent ?xs = map (ServerStreamEchoResponse ''hola'') [1, 2, 3]" "status_sent ?xs = Some Status_OK"
    by (simp_all add: stream_rounds_def round_alarm_def round_response_def server_stream_request_def)
  from server_stream_prints [OF assms(4-6), of e call "responses_sent ?xs"] obtain k' w1 w2 where
    c: "\<forall>m \<ge> k'. Spawn (stream_prog cenv) m e SS_Begin wc = Ok w1"
      "serves (stream_prog cenv) w1 (stream_started call # map got (responses_sent ?xs) @ [stream_ended, finished (the (status_sent ?xs))]) w2"
      "printed (shared w2) = printed (shared wc) @ [LogLine ''Start'', NewContext,
        LogLine (''Sending '' @ bracket (debug_request cenv server_stream_request)), LogLine ''Start Read''] @
        map (\<lambda>m. LogLine (''Received '' @ bracket (debug_response cenv m))) (responses_sent ?xs) @
        [LogLine ''Read done, getting status...'', LogLine (''Received '' @ bracket text), LogLine ''End'']"
      "heap w2 (fresh wc) = None" unfolding xs(2) option.sel by blast
  have "map (\<lambda>m. LogLine (''Received '' @ bracket (debug_response cenv m))) (responses_sent ?xs) =
      map (\<lambda>n. LogLine (''Received '' @ bracket (debug_response cenv (ServerStreamEchoResponse ''hola'' n)))) [1, 2, 3]"
    by (simp add: xs(1))
  with c(3) have "printed (shared w2) = printed (shared wc) @ [LogLine ''Start'', NewContext,
        LogLine (''Sending '' @ bracket (debug_request cenv server_stream_request)), LogLine ''Start Read''] @
        map (\<lambda>n. LogLine (''Received '' @ bracket (debug_response cenv (ServerStreamEchoResponse ''hola'' n)))) [1, 2, 3] @
        [LogLine ''Read done, getting status...'', LogLine (''Received '' @ bracket text), LogLine ''End'']" by (simp only:)
  with w c(1,2,4) xs(2) show ?thesis by blast
qed

text \<open>While a call of the variable service has not sent its reply.\<close>

theorem server_stream_session_witness:
  "\<exists>k w w' xs k' w1 w2. (\<forall>n \<ge> k. server_after plain_env n [(4, message (VariableQ (WriteRequest ''xp'' 7)))] = Ok w \<and>
       deliver_events plain_env n ((2, message (EchoQ server_stream_request)) # map (Pair 8) (replicate 7 (message (EchoQ BidirectionalNotSet)))) w = Ok w') \<and>
     (\<forall>m \<ge> k'. Spawn (stream_prog plain_env) m 0 SS_Begin (empty_world \<lparr>m_echo = ChannelProvider_one (), printed = []\<rparr>) = Ok w1) \<and>
     serves (stream_prog plain_env) w1 (stream_started 3 # map got (responses_sent xs) @ [stream_ended, finished (the (status_sent xs))]) w2 \<and>
     length (printed (shared w2)) = 10 \<and> heap w2 0 = None"
proof -
  let ?evs = "[(4, message (VariableQ (WriteRequest ''xp'' 7)))] :: server_event list"
  let ?s = "\<lparr>loops = {..<7}, jobs = [7 \<mapsto> J_Variable (Replied (WriteResponse True))], next_frame = 8, kept = [''xp'' \<mapsto> 7],
     issued = [Finish (Some (VariableR (WriteResponse True))) Status_OK]\<rparr>"
  have steps: "server_steps plain_env ?evs serving_init = Some ?s" "2 \<in> loops ?s"
    by (simp_all add: serving_init_def main_methods_def echo_methods_def var_methods_def add_call_def)
  let ?w = "empty_world \<lparr>m_echo = ChannelProvider_one (), printed = []\<rparr>
    :: (stream_point, echo_request client_op, echo_response completion, unit, echo_state) machine"
  have w: "fresh_above ?w" "fresh ?w = 0" "printed (shared ?w) = []" "m_channels (m_echo (shared ?w)) \<noteq> []"
    by (simp_all add: empty_world_def fresh_above_def ChannelProvider_one_def)
  have len: "length (replicate 7 (message (EchoQ BidirectionalNotSet))) = 7" by simp
  from server_stream_session [OF steps len w(1,4) plain_status_OK, of 0 3, unfolded w(2,3) serving.select_convs]
  show ?thesis by (elim exE conjE) (intro exI conjI, assumption, assumption, assumption, simp, assumption)
qed

text \<open>
  C31. A client stream from end to end.  The requests that the \<open>ClientStreamEcho\<close> command writes
  when its operations succeed are what the reads of the handler on the server program get, then the
  stream is closed; the command is given the response and the status that the handler sent, prints
  the status and the three messages it wrote, in order, and returns, and no frame is left on the
  server.
\<close>

theorem client_stream_session:
  assumes "server_steps env evs serving_init = Some s" and "1 \<in> loops s" and "\<not> srv_ok closed"
    and "m_channels p \<noteq> []" and "print_status (echo_code cenv) Status_OK = Ok text"
  shows "\<exists>k w w' es xs ys. (\<forall>n \<ge> k. server_after env n evs = Ok w \<and>
       deliver_events env n ((1, message (EchoQ req)) # map (\<lambda>q. (next_frame s, message (EchoQ q))) (requests_sent xs) @
         [(next_frame s, closed), (next_frame s, c)]) w = Ok w') \<and>
     sent w' = sent w @ ys \<and> dom (heap w') = dom (heap w) \<and>
     co_run (ClientStreamEcho cenv p) (stream_started call # replicate (length client_messages) writes_done @
       [writes_done, finished_with (hd (responses_sent ys)) (the (status_sent ys))]) =
       (es @ [LogLine (''Received '' @ bracket text @ bracket (debug_response cenv (ClientStreamEchoResponse client_messages))),
        LogLine ''End''], xs, CoReturned ((), next_channel p) [])"
proof -
  let ?qs = "map ClientStreamEchoRequest client_messages"
  let ?ys = "replicate (Suc (length ?qs)) Read @ [Finish (Some (EchoR (ClientStreamEchoResponse (map request_message ?qs)))) Status_OK]"
  have ys: "responses_sent ?ys = [ClientStreamEchoResponse client_messages]" "status_sent ?ys = Some Status_OK"
    by (simp_all add: client_messages_def)
  from client_stream_client [OF assms(4,5), of call "ClientStreamEchoResponse client_messages"] obtain es xs where
    c: "co_run (ClientStreamEcho cenv p) (stream_started call # replicate (length client_messages) writes_done @
       [writes_done, finished_with (hd (responses_sent ?ys)) (the (status_sent ?ys))]) =
       (es @ [LogLine (''Received '' @ bracket text @ bracket (debug_response cenv (ClientStreamEchoResponse client_messages))),
        LogLine ''End''], xs, CoReturned ((), next_channel p) [])" "requests_sent xs = ?qs"
    unfolding ys list.sel option.sel by blast
  from client_stream_steps [OF assms(2) next_frame_free [OF assms(1)] assms(3), of env req ?qs c] obtain s' where
    s': "server_steps env ((1, message (EchoQ req)) # map (\<lambda>q. (next_frame s, message (EchoQ q))) ?qs @
       [(next_frame s, closed), (next_frame s, c)]) s = Some s'" "left_as s s' ?ys" by blast
  from call_served [OF assms(1) s'] obtain k w w' where
    w: "\<forall>n \<ge> k. server_after env n evs = Ok w \<and> deliver_events env n ((1, message (EchoQ req)) #
       map (\<lambda>q. (next_frame s, message (EchoQ q))) ?qs @ [(next_frame s, closed), (next_frame s, c)]) w = Ok w'"
      "sent w' = sent w @ ?ys" "dom (heap w') = dom (heap w)" by blast
  show ?thesis
    by (rule exI [of _ k], rule exI [of _ w], rule exI [of _ w'], rule exI [of _ es], rule exI [of _ xs], rule exI [of _ ?ys],
      intro conjI, unfold c(2)) (rule w(1), rule w(2), rule w(3), rule c(1))
qed

theorem client_stream_session_witness:
  "\<exists>k w w' es xs ys. (\<forall>n \<ge> k. server_after plain_env n [] = Ok w \<and>
       deliver_events plain_env n ((1, message (EchoQ BidirectionalNotSet)) # map (\<lambda>q. (7, message (EchoQ q))) (requests_sent xs) @
         [(7, \<lparr>srv_ok = False, srv_message = EchoQ BidirectionalNotSet\<rparr>), (7, message (EchoQ BidirectionalNotSet))]) w = Ok w') \<and>
     dom (heap w') = dom (heap w) \<and>
     co_run (ClientStreamEcho plain_env (ChannelProvider_one ())) (stream_started 3 # replicate (length client_messages) writes_done @
       [writes_done, finished_with (hd (responses_sent ys)) (the (status_sent ys))]) =
       (es, xs, CoReturned ((), next_channel (ChannelProvider_one ())) [])"
proof -
  have steps: "server_steps plain_env [] serving_init = Some serving_init" "1 \<in> loops serving_init"
    by (simp_all add: serving_init_def)
  have h: "next_frame serving_init = 7" by (simp add: serving_init_def)
  let ?closed = "\<lparr>srv_ok = False, srv_message = EchoQ BidirectionalNotSet\<rparr>"
  have p: "\<not> srv_ok ?closed" "m_channels (ChannelProvider_one ()) \<noteq> []" by (simp_all add: ChannelProvider_one_def)
  from client_stream_session [OF steps p plain_status_OK, where req = BidirectionalNotSet and call = 3
      and c = "message (EchoQ BidirectionalNotSet)", unfolded h]
  show ?thesis by (elim exE conjE) (intro exI conjI, assumption, assumption, assumption)
qed

end
