(* ===== verification/EchoSession.thy ===== *)
theory EchoSession
  imports BidiMachine EchoStreams
begin

text \<open>
  The bidirectional command of the echo client (\<open>EchoStreams\<close>) against the handler of the echo
  service (\<open>EchoBidi\<close>, \<open>BidiMachine\<close>): the requests that the one writes are those that the other
  reads.
\<close>

section \<open>What the client writes\<close>

text \<open>The requests of the writes of the command, in the order of its points.\<close>

fun request_written :: "(stream_point, echo_request client_op, echo_response completion, unit, echo_state) action \<Rightarrow> echo_request list" where
  "request_written (CoSuspend (StreamWrite call q options) k) = [q]"
| "request_written _ = []"

definition client_requests :: "echo_env \<Rightarrow> call \<Rightarrow> hdl \<Rightarrow> echo_request list" where
  "client_requests env call t = concat (map (\<lambda>p. request_written (stream_code env p)) (writing_points call t))"

lemma client_commands:
  "map command_of (client_requests env call t) = [KMessage ''guten tag'' 1000, KStart, KStop]"
  by (simp add: client_requests_def writing_points_def)

section \<open>The handler under these requests\<close>

fun requests_of :: "completion_event list \<Rightarrow> bidi_command list" where
  "requests_of [] = []"
| "requests_of (GotRequest q # es) = q # requests_of es"
| "requests_of (e # es) = requests_of es"

text \<open>Every message that is written has the text of the first request; the state after \<open>n\<close> requests.\<close>

fun writes_text :: "echo_response context_op \<Rightarrow> bool" where
  "writes_text (Write r options) = (r = BidirectionalStreamEchoResponse ''guten tag'')"
| "writes_text op = True"

definition session_inv :: "nat \<Rightarrow> bidi \<Rightarrow> bool" where
  "session_inv n c \<longleftrightarrow> call_status c = Status_OK \<and>
     list_all writes_text (ops c) \<and> (n \<le> 1 \<longrightarrow> writer c = None) \<and> (1 \<le> n \<longrightarrow> response c = ''guten tag'' \<and> delay_ms c = 1000) \<and>
     (n = 2 \<longrightarrow> main_at c \<noteq> AtStop \<and> (main_at c = AtRead \<longrightarrow> writer c \<noteq> None))"

lemma session_write:
  assumes "session_inv n c" "writer c \<noteq> None"
  shows "session_inv n (writer_write c)" "session_inv n (writer_loop now c)"
  using assms by (auto simp: session_inv_def writer_write_def writer_loop_def submit_def write_log_def context_ops)

lemma session_end:
  assumes "session_inv n c" "writer c \<noteq> None"
  shows "session_inv n (joined text_of (writer_end line c))"
  using assms by (cases "main_at c") (auto simp: session_inv_def bidi_defs status_ok_def Status_OK_def context_ops)

lemma session_after_loop: "session_inv n c \<Longrightarrow> session_inv n (after_loop text_of c)"
  by (auto simp: session_inv_def after_loop_def cancel_alarm_def send_status_def submit_def write_log_def Let_def context_ops
      split: option.split writer_point.split)

lemma session_request:
  assumes "session_inv n c" "main_at c = AtRead" "n < 3"
    and "on_request text_of debug now ([KMessage ''guten tag'' 1000, KStart, KStop] ! n) c = Ok c'"
  shows "session_inv (Suc n) c'"
proof -
  from assms(3) consider "n = 0" | "n = 1" | "n = 2" by linarith
  then show ?thesis
  proof cases
    case 1
    with assms show ?thesis
      by (auto simp: session_inv_def on_request_def Let_def bidi_loop_def submit_def write_log_def context_ops)
  next
    case 2
    with assms show ?thesis
      by (auto simp: session_inv_def on_request_def Let_def bidi_loop_def writer_loop_def submit_def write_log_def context_ops)
  next
    case 3
    with assms show ?thesis
      by (auto simp: session_inv_def on_request_def Let_def bidi_loop_def cancel_alarm_def submit_def write_log_def context_ops
          split: if_splits option.splits writer_point.splits)
  qed
qed

lemma session_step:
  assumes "bidi_step text_of debug e c c'" "session_inv n c" "\<forall>q. e \<noteq> GotRequest q"
  shows "session_inv n c'"
  using assms
proof (induction rule: bidi_step.induct)
  case (finished c)
  then show ?case by (auto simp: session_inv_def write_log_def)
qed (simp_all add: session_write session_end session_after_loop)

lemma session_run:
  "bidi_run text_of debug es c c' \<Longrightarrow> session_inv n c \<Longrightarrow>
     requests_of es @ rest = drop n [KMessage ''guten tag'' 1000, KStart, KStop] \<Longrightarrow> \<exists>m. session_inv m c'"
proof (induction arbitrary: n rule: bidi_run.induct)
  case (run_step e c c1 es c2)
  let ?qs = "[KMessage ''guten tag'' 1000, KStart, KStop]"
  show ?case
  proof (cases "\<exists>q. e = GotRequest q")
    case True
    then obtain q where e: "e = GotRequest q" by blast
    with run_step.prems(2) have qs: "q # requests_of es @ rest = drop n ?qs" by simp
    then have n: "n < length ?qs" by (metis drop_all list.distinct(1) not_le_imp_less)
    with qs have q: "q = ?qs ! n" "requests_of es @ rest = drop (Suc n) ?qs" by (simp_all add: Cons_nth_drop_Suc [symmetric])
    from run_step.hyps(1) e obtain now where "main_at c = AtRead" "on_request text_of debug now q c = Ok c1"
      by (auto elim: bidi_step.cases)
    with session_request [OF run_step.prems(1)] q(1) n have "session_inv (Suc n) c1" by auto
    with run_step.IH q(2) show ?thesis by blast
  next
    case False
    then have "requests_of (e # es) = requests_of es" by (cases e) simp_all
    with run_step session_step [OF run_step.hyps(1) run_step.prems(1)] False show ?thesis by auto
  qed
qed auto

lemma session_start: "session_inv 0 (bidi_start text_of)"
  by (simp add: session_inv_def bidi_start_def bidi_loop_def submit_def write_log_def status_ok_def Status_OK_def context_ops)

section \<open>Properties\<close>

text \<open>
  C32. The bidirectional commands of client and server fit together.  The requests that the command
  of the client writes, or the first of them when it is cut short, arriving at the handler in
  their order, with any completions of its other operations between them: none is refused, and
  every message the handler sends has the text that the client asked for.
\<close>

theorem echo_session:
  assumes "bidi_run text_of debug es (bidi_start text_of) c"
    and "requests_of es @ rest = map command_of (client_requests env call t)"
  shows "status_ok (call_status c) \<and>
    (\<forall>r options. Write r options \<in> set (ops c) \<longrightarrow> r = BidirectionalStreamEchoResponse ''guten tag'')"
proof -
  have "requests_of es @ rest = drop 0 [KMessage ''guten tag'' 1000, KStart, KStop]"
    using assms(2) by (simp add: client_commands)
  from session_run [OF assms(1) session_start this] obtain m where "session_inv m c" by blast
  then show ?thesis by (auto simp: session_inv_def list_all_iff)
qed

theorem echo_session_witness:
  "\<exists>c. bidi_run (\<lambda>st. []) (\<lambda>q. []) [GotRequest (KMessage ''guten tag'' 1000), GotRequest KStart, AlarmFired, Written, GotRequest KStop,
       AlarmCancelled, StreamEnded, Finished] (bidi_start (\<lambda>st. [])) c \<and> status_ok (call_status c) \<and> main_at c = MainEnd"
proof -
  let ?es = "[GotRequest (KMessage ''guten tag'' 1000), GotRequest KStart, AlarmFired, Written, GotRequest KStop, AlarmCancelled, StreamEnded, Finished]"
  have "\<exists>c. bidi_steps (\<lambda>st. []) (\<lambda>q. []) (bidi_start (\<lambda>st. [])) ?es = Some c \<and> main_at c = MainEnd"
    by (simp add: bidi_start_def request_ok_def on_request_def bidi_defs Let_def status_ok_def Status_OK_def) blast
  then obtain c where c: "bidi_run (\<lambda>st. []) (\<lambda>q. []) ?es (bidi_start (\<lambda>st. [])) c" "main_at c = MainEnd"
    using bidi_steps_run by blast
  have "requests_of ?es @ [] = map command_of (client_requests plain_env 0 0)" by (simp add: client_commands)
  from echo_session [OF c(1) this] c show ?thesis by blast
qed

end
