(* ===== verification/Game.thy ===== *)
theory Game
  imports GameExecutor CharacterService
begin

text \<open>
  The game, \<^verbatim>\<open>game/main.cpp\<close>: the character with its state machine and its coroutines, the
  frame of \<open>Game::Update\<close>, and \<open>main\<close>.  The game has one entity, its character, whose executor
  is the queue of \<open>GameExecutor\<close>.  A coroutine of the character only awaits the character
  service, so a job is the point where it stands: with the service in memory it never suspends,
  with the remote one it suspends at each call until the reply arrives (\<open>SpawnCrossTask\<close>), at
  any time, and then is marked ready.  Times are in nanoseconds.
\<close>

section \<open>The coroutines of the character\<close>

datatype service_reply = PlayerReply player | IntReply int | UnitReply

fun answers :: "service_request \<Rightarrow> service_reply \<Rightarrow> bool" where
  "answers GetPlayer (PlayerReply p) = True"
| "answers (GiveXp a) (IntReply r) = True"
| "answers LevelUp (IntReply r) = True"
| "answers Reset UnitReply = True"
| "answers q r = False"

datatype game_effect = Say string | SetIdle

datatype game_job =
    Init
  | InitGot service_reply
  | EarnXp
  | EarnXpGiven service_reply
  | EarnXpLevelled service_reply
  | Reincarnate
  | ReincarnateDone service_reply

text \<open>
  What a job does from a point on: its effects, and the call it awaits next with the point after
  it.  The log of \<open>EarnXp\<close> is opened before the first call and printed at the end.
\<close>

fun game_code :: "game_job \<Rightarrow> game_effect list \<times> (service_request \<times> (service_reply \<Rightarrow> game_job)) option" where
  "game_code Init = ([], Some (GetPlayer, InitGot))"
| "game_code (InitGot (PlayerReply p)) =
     ([Say (''You are level '' @ show_int (level p) @ '' with '' @ show_int (xp p) @ ''xp''), SetIdle], None)"
| "game_code EarnXp = ([], Some (GiveXp 100, EarnXpGiven))"
| "game_code (EarnXpGiven (IntReply newXp)) = (if newXp \<ge> 1000 then ([], Some (LevelUp, EarnXpLevelled))
     else ([Say (''You earned 100xp! You now have '' @ show_int newXp @ '' experience points'')], None))"
| "game_code (EarnXpLevelled (IntReply newLevel)) =
     ([Say (''You earned 100xp! You leveled up! You are now level '' @ show_int newLevel)], None)"
| "game_code Reincarnate = ([Say ''You forgo your previous life...''], Some (Reset, ReincarnateDone))"
| "game_code (ReincarnateDone UnitReply) =
     ([Say ''It is done, you are now a blank slate, ready for the upcoming challenges''], None)"
| "game_code _ = ([], None)"

fun calls_left :: "game_job \<Rightarrow> nat" where
  "calls_left Init = 1"
| "calls_left EarnXp = 2"
| "calls_left (EarnXpGiven r) = 1"
| "calls_left Reincarnate = 1"
| "calls_left _ = 0"

lemma game_code_calls: "game_code j = (es, Some (q, k)) \<Longrightarrow> calls_left (k r) < calls_left j"
  by (cases j rule: game_code.cases) (auto split: if_splits)

text \<open>A job against a service that answers at once.\<close>

function run_calls :: "(service_request \<Rightarrow> 's \<Rightarrow> service_reply outcome \<times> 's) \<Rightarrow> game_job \<Rightarrow> 's
    \<Rightarrow> game_effect list outcome \<times> 's" where
  "run_calls serve j s = (case game_code j of
      (es, None) \<Rightarrow> (Ok es, s)
    | (es, Some (q, k)) \<Rightarrow> (case serve q s of
        (Ok r, s') \<Rightarrow> (case run_calls serve (k r) s' of (out, s'') \<Rightarrow> (omap (\<lambda>es'. es @ es') out, s''))
      | (Fault x, s') \<Rightarrow> (Fault x, s')
      | (OutOfFuel, s') \<Rightarrow> (OutOfFuel, s')))"
  by pat_completeness auto

termination
  by (relation "measure (\<lambda>(serve, j, s). calls_left j)") (auto dest: game_code_calls [OF sym])

declare run_calls.simps [simp del]

text \<open>The two services as such, by the operations of \<open>CharacterService\<close>.\<close>

fun serve_with :: "('s \<Rightarrow> player outcome \<times> 's) \<Rightarrow> (int \<Rightarrow> 's \<Rightarrow> int outcome \<times> 's) \<Rightarrow> ('s \<Rightarrow> int outcome \<times> 's)
    \<Rightarrow> ('s \<Rightarrow> unit outcome \<times> 's) \<Rightarrow> service_request \<Rightarrow> 's \<Rightarrow> service_reply outcome \<times> 's" where
  "serve_with get give up reset GetPlayer s = apfst (omap PlayerReply) (get s)"
| "serve_with get give up reset (GiveXp a) s = apfst (omap IntReply) (give a s)"
| "serve_with get give up reset LevelUp s = apfst (omap IntReply) (up s)"
| "serve_with get give up reset Reset s = apfst (omap (\<lambda>u. UnitReply)) (reset s)"

definition serve_memory :: "service_request \<Rightarrow> player \<Rightarrow> service_reply outcome \<times> player" where
  "serve_memory = serve_with Memory_GetPlayer Memory_GiveXp Memory_LevelUp Memory_Reset"

definition serve_remote :: "client_env \<Rightarrow> service_request \<Rightarrow> remote \<Rightarrow> service_reply outcome \<times> remote" where
  "serve_remote env = serve_with (remote_run (Grpc_GetPlayer env)) (\<lambda>a. remote_run (Grpc_GiveXp env a))
     (remote_run (Grpc_LevelUp env)) (remote_run (Grpc_Reset env))"

section \<open>The character and the game\<close>

datatype char_state = Uninit | Initializing | Idle | Fighting

datatype game_service = MemoryService player | GrpcService

text \<open>
  \<open>jobs\<close> is the queue of the character's executor; \<open>awaiting\<close> the jobs that wait for a reply of
  the remote service, each at its call.
\<close>

record game =
  m_state :: char_state
  m_timeSinceXp :: int
  jobs :: "game_job list"
  awaiting :: "game_job list"
  m_characterService :: game_service
  m_done :: bool
  m_lastTick :: int
  stdout :: "string list"

definition say :: "string \<Rightarrow> game \<Rightarrow> game" where
  "say line g = g\<lparr>stdout := stdout g @ [''[Game] '' @ line]\<rparr>"

fun perform :: "game_effect \<Rightarrow> game \<Rightarrow> game" where
  "perform (Say line) g = say line g"
| "perform SetIdle g = g\<lparr>m_state := Idle\<rparr>"

text \<open>Resuming a job of the executor.\<close>

definition run_job :: "game_job \<Rightarrow> game \<Rightarrow> game outcome" where
  "run_job j g = (case m_characterService g of
      MemoryService p \<Rightarrow> (case run_calls serve_memory j p of
          (Ok es, p') \<Rightarrow> Ok (fold perform es (g\<lparr>m_characterService := MemoryService p'\<rparr>))
        | (Fault x, p') \<Rightarrow> Fault x
        | (OutOfFuel, p') \<Rightarrow> OutOfFuel)
    | GrpcService \<Rightarrow> (case game_code j of
          (es, None) \<Rightarrow> Ok (fold perform es g)
        | (es, Some call) \<Rightarrow> Ok ((fold perform es g)\<lparr>awaiting := awaiting g @ [j]\<rparr>)))"

text \<open>The reply to the \<open>i\<close>-th job that waits: its child marks it ready.\<close>

definition reply_job :: "nat \<Rightarrow> service_reply \<Rightarrow> game \<Rightarrow> game" where
  "reply_job i r g = (case game_code (awaiting g ! i) of
      (es, Some (q, k)) \<Rightarrow> g\<lparr>awaiting := take i (awaiting g) @ drop (Suc i) (awaiting g), jobs := jobs g @ [k r]\<rparr>
    | (es, None) \<Rightarrow> g)"

definition spawn_job :: "game_job \<Rightarrow> game \<Rightarrow> game" where
  "spawn_job j g = g\<lparr>jobs := jobs g @ [j]\<rparr>"

text \<open>\<open>Entity::PreUpdate\<close>: the loop of the executor.\<close>

definition PreUpdate :: "nat \<Rightarrow> game \<Rightarrow> game outcome" where
  "PreUpdate = update_loop run_job jobs (\<lambda>q g. g\<lparr>jobs := q\<rparr>)"

definition ProcessInput :: "string \<Rightarrow> game \<Rightarrow> game" where
  "ProcessInput input g =
     (if m_state g = Idle \<and> input = ''fight'' then
        (say ''Let's fight!'' g)\<lparr>m_state := Fighting, m_timeSinceXp := 0\<rparr>
      else if m_state g = Fighting \<and> input = ''rest'' then
        (say ''Time for a break'' g)\<lparr>m_state := Idle\<rparr>
      else if m_state g = Idle \<and> input = ''reincarnate'' then spawn_job Reincarnate g
      else g)"

definition second :: int where
  "second = 1000000000"

definition Character_Update :: "int \<Rightarrow> game \<Rightarrow> game" where
  "Character_Update time g = (case m_state g of
      Uninit \<Rightarrow> spawn_job Init (g\<lparr>m_state := Initializing\<rparr>)
    | Fighting \<Rightarrow> (let g = g\<lparr>m_timeSinceXp := m_timeSinceXp g + time\<rparr> in
        if second \<le> m_timeSinceXp g
        then spawn_job EarnXp (g\<lparr>m_timeSinceXp := m_timeSinceXp g - second\<rparr>) else g)
    | _ \<Rightarrow> g)"

text \<open>
  \<open>Game::Update\<close> in its three parts.  \<open>input\<close> is the value of the pending future if it is
  ready, \<open>now\<close> what the clock gives; the result of the last part is also the time the thread
  sleeps (a negative duration does not sleep).
\<close>

definition Update_input :: "string option \<Rightarrow> game \<Rightarrow> game" where
  "Update_input input g = (case input of
      None \<Rightarrow> g
    | Some line \<Rightarrow> if line = ''quit'' then g\<lparr>m_done := True\<rparr> else ProcessInput line g)"

definition Update_entities :: "int \<Rightarrow> game \<Rightarrow> game" where
  "Update_entities now g = (Character_Update (now - m_lastTick g) g)\<lparr>m_lastTick := now\<rparr>"

definition sleep_time :: "int \<Rightarrow> int" where
  "sleep_time time = max 0 (second div 10 - time)"

definition Game_Update :: "nat \<Rightarrow> string option \<Rightarrow> int \<Rightarrow> game \<Rightarrow> (game \<times> int) outcome" where
  "Game_Update n input now g = (let g = Update_input input g in
     if m_done g then Ok (g, 0)
     else obind (PreUpdate n g) (\<lambda>g. Ok (Update_entities now g, sleep_time (now - m_lastTick g))))"

definition Game_new :: "game_service \<Rightarrow> int \<Rightarrow> game" where
  "Game_new service now = \<lparr>m_state = Uninit, m_timeSinceXp = 0, jobs = [], awaiting = [],
     m_characterService = service, m_done = False, m_lastTick = now, stdout = []\<rparr>"

text \<open>
  \<open>MakeCharacterService\<close> (\<open>None\<close> is the null pointer) and \<open>main\<close>: the executor is only made for
  the remote service.
\<close>

definition MakeCharacterService :: "string \<Rightarrow> bool \<Rightarrow> game_service option outcome" where
  "MakeCharacterService type grpcExecutor =
     (if type = ''memory'' then Ok (Some (MemoryService Player))
      else if type = ''grpc'' then (if grpcExecutor then Ok (Some GrpcService) else Fault AssertFailed)
      else Ok None)"

text \<open>
  A reply of the remote service reaches the \<open>i\<close>-th waiting job; nothing else can arrive than a
  reply to a call that was made.
\<close>

definition awaits_reply :: "game_job \<Rightarrow> service_reply \<Rightarrow> bool" where
  "awaits_reply j r \<longleftrightarrow> (case snd (game_code j) of None \<Rightarrow> False | Some (q, k) \<Rightarrow> answers q r)"

fun deliver_reply :: "nat \<times> service_reply \<Rightarrow> game \<Rightarrow> game" where
  "deliver_reply (i, r) g = (if i < length (awaiting g) \<and> awaits_reply (awaiting g ! i) r then reply_job i r g else g)"

text \<open>
  The loop of \<open>main\<close>.  A frame comes with the replies that have arrived since the one before it,
  the line that was read, and the time.
\<close>

type_synonym game_frame = "(nat \<times> service_reply) list \<times> string option \<times> int"

fun game_loop :: "nat \<Rightarrow> game_frame list \<Rightarrow> game \<Rightarrow> game outcome" where
  "game_loop n [] g = Ok g"
| "game_loop n ((replies, input, now) # frames) g = (if m_done g then Ok g
     else obind (Game_Update n input now (fold deliver_reply replies g)) (\<lambda>(g', sleep). game_loop n frames g'))"

datatype game_exit = Usage string | Played "game outcome"

definition game_main :: "nat \<Rightarrow> string list \<Rightarrow> int \<Rightarrow> game_frame list \<Rightarrow> game_exit" where
  "game_main n av start frames =
     (if length av \<noteq> 2 \<or> (av ! 1 \<noteq> ''memory'' \<and> av ! 1 \<noteq> ''grpc'')
      then Usage (''Usage: '' @ hd av @ '' memory|grpc'')
      else Played (obind (MakeCharacterService (av ! 1) (av ! 1 = ''grpc'')) (\<lambda>service.
        case service of None \<Rightarrow> Fault AssertFailed
        | Some s \<Rightarrow> game_loop n frames (Game_new s start))))"

section \<open>The executor of the character\<close>

lemma perform_jobs [simp]:
  "perform e (g\<lparr>jobs := q\<rparr>) = (perform e g)\<lparr>jobs := q\<rparr>" "jobs (perform e g) = jobs g"
  by (cases e; simp add: say_def)+

lemma fold_perform_jobs [simp]:
  "fold perform es (g\<lparr>jobs := q\<rparr>) = (fold perform es g)\<lparr>jobs := q\<rparr>" "jobs (fold perform es g) = jobs g"
  by (induction es arbitrary: g) simp_all

lemma jobs_update_swap:
  "g\<lparr>jobs := q, m_characterService := s\<rparr> = g\<lparr>m_characterService := s, jobs := q\<rparr>"
  "g\<lparr>jobs := q, awaiting := a\<rparr> = g\<lparr>awaiting := a, jobs := q\<rparr>"
  by simp_all

lemma run_job_jobs:
  "run_job j (g\<lparr>jobs := q\<rparr>) = omap (\<lambda>g'. g'\<lparr>jobs := q\<rparr>) (run_job j g)"
  by (simp add: run_job_def jobs_update_swap split: game_service.split prod.split outcome.split option.split
      del: game.ext_inject)

lemma run_job_keeps_jobs: "run_job j g = Ok g' \<Longrightarrow> jobs g' = jobs g"
  by (auto simp: run_job_def split: game_service.splits prod.splits outcome.splits option.splits)

interpretation game_jobs: ready_queue run_job jobs "\<lambda>q g. g\<lparr>jobs := q\<rparr>"
proof unfold_locales
  show "run_job j (g\<lparr>jobs := q @ jobs g\<rparr>) = omap (\<lambda>g'. g'\<lparr>jobs := q @ jobs g'\<rparr>) (run_job j g)" for j g q
    using run_job_jobs [of j _ g] run_job_keeps_jobs [of j g] by (cases "run_job j g") simp_all
qed simp_all

text \<open>The jobs spawn nothing, so one turn of the loop takes them all.\<close>

lemma resume_each_jobs: "resume_each run_job js g = Ok g' \<Longrightarrow> jobs g' = jobs g"
  by (induction js arbitrary: g) (auto simp: obind_eq_Ok_iff dest: run_job_keeps_jobs)

lemma PreUpdate_eq:
  assumes "2 \<le> n"
  shows "PreUpdate n g = resume_each run_job (jobs g) (g\<lparr>jobs := []\<rparr>)"
proof -
  from assms obtain m where n: "n = Suc (Suc m)" by (metis add_2_eq_Suc le_Suc_ex)
  show ?thesis
  proof (cases "resume_each run_job (jobs g) (g\<lparr>jobs := []\<rparr>)")
    case (Ok g')
    with resume_each_jobs [OF Ok] show ?thesis by (auto simp: PreUpdate_def n)
  qed (auto simp: PreUpdate_def n)
qed

section \<open>Fights\<close>

context character_state begin

abbreviation "serve \<equiv> serve_with get_player give_xp level_up reset"

lemma fight:
  assumes "int64 (xp (player_of s) + 100)" and "int64 (level (player_of s) + 1)" and r: "fst (give_xp 100 s) = Ok r"
  shows "player_of (snd (run_calls serve EarnXp s)) = (if 1000 \<le> r
     then \<lparr>level = level (player_of s) + 1, xp = 0\<rparr> else (player_of s)\<lparr>xp := xp (player_of s) + 100\<rparr>)"
    and "\<exists>es. fst (run_calls serve EarnXp s) = Ok es"
proof -
  obtain s1 where s1: "give_xp 100 s = (Ok r, s1)" using r by (cases "give_xp 100 s") simp
  with give_xp [of s 100] assms(1) have p1: "player_of s1 = (player_of s)\<lparr>xp := xp (player_of s) + 100\<rparr>" by simp
  have first: "run_calls serve EarnXp s =
      (case run_calls serve (EarnXpGiven (IntReply r)) s1 of (out, s') \<Rightarrow> (omap (\<lambda>es. [] @ es) out, s'))"
    by (subst run_calls.simps) (simp add: s1)
  have "player_of (snd (run_calls serve EarnXp s)) = (if 1000 \<le> r
     then \<lparr>level = level (player_of s) + 1, xp = 0\<rparr> else (player_of s)\<lparr>xp := xp (player_of s) + 100\<rparr>) \<and>
     (\<exists>es. fst (run_calls serve EarnXp s) = Ok es)"
  proof (cases "1000 \<le> r")
    case True
    from level_up [of s1] assms(2) p1 obtain l s2 where "level_up s1 = (Ok l, s2)"
      "player_of s2 = \<lparr>level = level (player_of s) + 1, xp = 0\<rparr>" by (cases "level_up s1") auto
    with True show ?thesis by (simp add: first run_calls.simps [of _ "EarnXpGiven (IntReply r)"]
        run_calls.simps [of _ "EarnXpLevelled (IntReply l)"])
  qed (simp add: first p1 run_calls.simps [of _ "EarnXpGiven (IntReply r)"])
  then show "player_of (snd (run_calls serve EarnXp s)) = (if 1000 \<le> r
     then \<lparr>level = level (player_of s) + 1, xp = 0\<rparr> else (player_of s)\<lparr>xp := xp (player_of s) + 100\<rparr>)"
    and "\<exists>es. fst (run_calls serve EarnXp s) = Ok es" by blast+
qed

end

text \<open>A player after \<open>n\<close> fights when every \<open>d\<close>-th one brings a level.\<close>

definition fighter :: "nat \<Rightarrow> nat \<Rightarrow> player" where
  "fighter d n = \<lparr>level = 1 + int (n div d), xp = 100 * int (n mod d)\<rparr>"

lemma fighter_Suc: "0 < d \<Longrightarrow> fighter d (Suc n) = (if Suc (n mod d) = d
    then \<lparr>level = level (fighter d n) + 1, xp = 0\<rparr> else (fighter d n)\<lparr>xp := xp (fighter d n) + 100\<rparr>)"
  by (auto simp: fighter_def mod_Suc div_Suc)

lemma fighter_int64:
  assumes "0 < d" "d \<le> 11" "n < 2 ^ 62"
  shows "int64 (xp (fighter d n) + 100)" "int64 (level (fighter d n) + 1)"
proof -
  have "n mod d \<le> 11" using assms by (meson le_trans mod_less_divisor order_less_imp_le)
  then show "int64 (xp (fighter d n) + 100)" by (simp add: fighter_def int64_def)
  have "n div d < 2 ^ 62" using assms(3) by (rule le_less_trans [OF div_le_dividend])
  then have "int (n div d) < 2 ^ 62" by (metis of_nat_less_iff of_nat_numeral of_nat_power)
  then show "int64 (level (fighter d n) + 1)" by (simp add: fighter_def int64_def)
qed

context character_state begin

lemma fights:
  assumes "0 < d" "d \<le> 11" "n < 2 ^ 62" "player_of s = Player"
    and returns: "\<And>s k. player_of s = fighter d k \<Longrightarrow> k < 2 ^ 62 \<Longrightarrow>
      (\<exists>r. fst (give_xp 100 s) = Ok r \<and> (1000 \<le> r \<longleftrightarrow> Suc (k mod d) = d))"
  shows "player_of (((\<lambda>s. snd (run_calls serve EarnXp s)) ^^ n) s) = fighter d n"
  using assms(3)
proof (induction n)
  case 0
  with assms(4) show ?case by (simp add: fighter_def Player_def)
next
  case (Suc n)
  let ?s = "((\<lambda>s. snd (run_calls serve EarnXp s)) ^^ n) s"
  have p: "player_of ?s = fighter d n" and n: "n < 2 ^ 62" using Suc by simp_all
  from returns [OF p n] obtain r where r: "fst (give_xp 100 ?s) = Ok r" "1000 \<le> r \<longleftrightarrow> Suc (n mod d) = d" by blast
  from fight(1) [of ?s r] fighter_int64 [OF assms(1,2) n] p r show ?case
    by (simp add: fighter_Suc [OF assms(1)])
qed

end

lemma memory_fights:
  assumes "n < 2 ^ 62"
  shows "((\<lambda>p. snd (run_calls serve_memory EarnXp p)) ^^ n) Player = fighter 10 n"
  unfolding serve_memory_def
proof (rule memory.fights [where s = Player])
  fix s k assume s: "s = fighter 10 k" and k: "k < (2::nat) ^ 62"
  have "k mod 10 < 10" by simp
  then have "1000 \<le> xp s + 100 \<longleftrightarrow> Suc (k mod 10) = 10" by (auto simp: s fighter_def)
  then show "\<exists>r. fst (Memory_GiveXp 100 s) = Ok r \<and> (1000 \<le> r \<longleftrightarrow> Suc (k mod 10) = 10)"
    using memory.give_xp_returns [of s 100] fighter_int64(1) [of 10 k] s k by simp
qed (use assms in simp_all)

lemma remote_fights:
  assumes "n < 2 ^ 62"
  shows "player_in (fst (((\<lambda>s. snd (run_calls (serve_remote env) EarnXp s)) ^^ n) (Map.empty, c))) = fighter 11 n"
  unfolding serve_remote_def
proof (rule remote.fights)
  fix s :: remote and k assume s: "player_in (fst s) = fighter 11 k" and k: "k < (2::nat) ^ 62"
  have "k mod 11 < 11" by simp
  then have "1000 \<le> xp (player_in (fst s)) \<longleftrightarrow> Suc (k mod 11) = 11" by (auto simp: s fighter_def)
  then show "\<exists>r. fst (remote_run (Grpc_GiveXp env 100) s) = Ok r \<and> (1000 \<le> r \<longleftrightarrow> Suc (k mod 11) = 11)"
    using remote_GiveXp(1) [of s 100 env] fighter_int64(1) [of 11 k] s k by simp
qed (use assms in \<open>simp_all add: player_in_def Player_def\<close>)

section \<open>Invariants of the character\<close>

text \<open>
  The steps of a game: the three parts of a frame, and the replies of the remote service, which
  arrive at any time between them.
\<close>

datatype game_pc = AtInput | AtPreUpdate | AtEntities

inductive game_step :: "game_pc \<times> game \<Rightarrow> game_pc \<times> game \<Rightarrow> bool" where
  step_quit: "\<not> m_done g \<Longrightarrow> m_done (Update_input i g) \<Longrightarrow> game_step (AtInput, g) (AtInput, Update_input i g)"
| step_input: "\<not> m_done g \<Longrightarrow> \<not> m_done (Update_input i g) \<Longrightarrow> game_step (AtInput, g) (AtPreUpdate, Update_input i g)"
| step_jobs: "PreUpdate n g = Ok g' \<Longrightarrow> game_step (AtPreUpdate, g) (AtEntities, g')"
| step_entities: "m_lastTick g \<le> now \<Longrightarrow> game_step (AtEntities, g) (AtInput, Update_entities now g)"
| step_reply: "i < length (awaiting g) \<Longrightarrow> game_code (awaiting g ! i) = (es, Some (q, k)) \<Longrightarrow> answers q r \<Longrightarrow>
     game_step (pc, g) (pc, reply_job i r g)"

inductive game_reachable :: "game_service \<Rightarrow> game_pc \<times> game \<Rightarrow> bool" for service where
  game_start: "game_reachable service (AtInput, Game_new service now)"
| game_next: "game_reachable service s \<Longrightarrow> game_step s t \<Longrightarrow> game_reachable service t"

lemma fold_perform_fields [simp]:
  "m_lastTick (fold perform es g) = m_lastTick g" "m_done (fold perform es g) = m_done g"
  "m_timeSinceXp (fold perform es g) = m_timeSinceXp g" "awaiting (fold perform es g) = awaiting g"
  "m_characterService (fold perform es g) = m_characterService g"
  "m_state (fold perform es g) = (if SetIdle \<in> set es then Idle else m_state g)"
proof (induction es arbitrary: g)
  case (Cons e es)
  case 1 show ?case using Cons by (cases e) (simp_all add: say_def)
  case 2 show ?case using Cons by (cases e) (simp_all add: say_def)
  case 3 show ?case using Cons by (cases e) (simp_all add: say_def)
  case 4 show ?case using Cons by (cases e) (simp_all add: say_def)
  case 5 show ?case using Cons by (cases e) (simp_all add: say_def)
  case 6 show ?case using Cons by (cases e) (simp_all add: say_def)
qed simp_all

lemma run_job_fields:
  "run_job j g = Ok g' \<Longrightarrow> m_lastTick g' = m_lastTick g \<and> m_done g' = m_done g \<and> m_timeSinceXp g' = m_timeSinceXp g"
  by (auto simp: run_job_def split: game_service.splits prod.splits outcome.splits option.splits)

lemma resume_each_fields: "resume_each run_job js g = Ok g' \<Longrightarrow>
    m_lastTick g' = m_lastTick g \<and> m_done g' = m_done g \<and> m_timeSinceXp g' = m_timeSinceXp g"
  by (induction js arbitrary: g) (auto simp: obind_eq_Ok_iff dest!: run_job_fields)

lemma PreUpdate_fields: "PreUpdate n g = Ok g' \<Longrightarrow>
    m_lastTick g' = m_lastTick g \<and> m_done g' = m_done g \<and> m_timeSinceXp g' = m_timeSinceXp g"
  unfolding PreUpdate_def
  by (induction n arbitrary: g) (auto simp: obind_eq_Ok_iff split: if_splits dest!: resume_each_fields)

lemma Update_input_fields [simp]: "m_lastTick (Update_input i g) = m_lastTick g"
  by (simp add: Update_input_def ProcessInput_def say_def spawn_job_def split: option.split)

lemma Game_Update_steps:
  assumes "Game_Update n i now g = Ok (g', sleep)" "\<not> m_done g" "m_lastTick g \<le> now"
  shows "game_step\<^sup>*\<^sup>* (AtInput, g) (AtInput, g')"
proof (cases "m_done (Update_input i g)")
  case True
  with assms(1) have "g' = Update_input i g" by (simp add: Game_Update_def Let_def)
  with step_quit [OF assms(2) True] show ?thesis by blast
next
  case False
  with assms(1) obtain h where h: "PreUpdate n (Update_input i g) = Ok h" "g' = Update_entities now h"
    by (auto simp: Game_Update_def Let_def obind_eq_Ok_iff)
  have "game_step (AtInput, g) (AtPreUpdate, Update_input i g)" using assms(2) False by (rule step_input)
  moreover have "game_step (AtPreUpdate, Update_input i g) (AtEntities, h)" using h(1) by (rule step_jobs)
  moreover have "game_step (AtEntities, h) (AtInput, g')"
    using assms(3) PreUpdate_fields [OF h(1)] unfolding h(2) by (intro step_entities) simp
  ultimately show ?thesis
    by (rule converse_rtranclp_into_rtranclp [OF _ converse_rtranclp_into_rtranclp [OF _ r_into_rtranclp]])
qed

fun is_init :: "game_job \<Rightarrow> bool" where
  "is_init Init = True"
| "is_init (InitGot r) = True"
| "is_init j = False"

fun well_typed :: "game_job \<Rightarrow> bool" where
  "well_typed (InitGot r) \<longleftrightarrow> answers GetPlayer r"
| "well_typed (EarnXpGiven r) \<longleftrightarrow> answers (GiveXp 100) r"
| "well_typed (EarnXpLevelled r) \<longleftrightarrow> answers LevelUp r"
| "well_typed (ReincarnateDone r) \<longleftrightarrow> answers Reset r"
| "well_typed j \<longleftrightarrow> True"

text \<open>What a job does at a point, for a job whose replies have the right type.\<close>

lemma game_code_done: "well_typed j \<Longrightarrow> game_code j = (es, None) \<Longrightarrow> SetIdle \<in> set es \<longleftrightarrow> is_init j"
  by (induction j rule: game_code.induct) (auto split: if_splits)

lemma game_code_call: "well_typed j \<Longrightarrow> game_code j = (es, Some (q, k)) \<Longrightarrow>
    SetIdle \<notin> set es \<and> (answers q r \<longrightarrow> well_typed (k r) \<and> is_init (k r) = is_init j)"
  by (induction j rule: game_code.induct) (auto split: if_splits)

lemma serve_with_answers: "serve_with get give up reset q s = (Ok r, s') \<Longrightarrow> answers q r"
  by (cases q) (auto simp: prod_eq_iff omap_eq_Ok_iff)

lemma run_calls_idle:
  assumes "\<And>q s r s'. serve q s = (Ok r, s') \<Longrightarrow> answers q r"
  shows "run_calls serve j s = (Ok es, s') \<Longrightarrow> well_typed j \<Longrightarrow> SetIdle \<in> set es \<longleftrightarrow> is_init j"
proof (induction "calls_left j" arbitrary: j s es rule: less_induct)
  case less
  obtain es0 c where code: "game_code j = (es0, c)" by fastforce
  show ?case
  proof (cases c)
    case None
    with less.prems code have "es = es0" by (simp add: run_calls.simps [of serve j])
    with game_code_done [OF less.prems(2)] code None show ?thesis by simp
  next
    case (Some call)
    then obtain q k where c: "c = Some (q, k)" by (cases call) auto
    with less.prems(1) code obtain r s1 es1 where
      r: "serve q s = (Ok r, s1)" "run_calls serve (k r) s1 = (Ok es1, s')" "es = es0 @ es1"
      by (auto simp: run_calls.simps [of serve j] omap_eq_Ok_iff split: prod.splits outcome.splits)
    have call: "SetIdle \<notin> set es0" "well_typed (k r)" "is_init (k r) = is_init j"
      using game_code_call [of j es0 q k r] less.prems(2) code assms [OF r(1)] by (simp_all add: c)
    have "calls_left (k r) < calls_left j" using game_code_calls code c by blast
    from less.hyps [OF this r(2) call(2)] call(1,3) r(3) show ?thesis by simp
  qed
qed

text \<open>
  The invariant: one job initialises the character, exactly while it is \<open>Initializing\<close>, and there
  is no job before.  \<open>js\<close> are the jobs of the batch still to be resumed.
\<close>

definition character_inv :: "game_job list \<Rightarrow> game \<Rightarrow> bool" where
  "character_inv js g \<longleftrightarrow> (let all_jobs = js @ jobs g @ awaiting g in
     (m_state g = Uninit \<longrightarrow> all_jobs = []) \<and> (\<forall>j \<in> set all_jobs. well_typed j) \<and>
     (\<forall>j \<in> set (awaiting g). snd (game_code j) \<noteq> None) \<and>
     length (filter is_init all_jobs) = (if m_state g = Initializing then 1 else 0))"

lemma run_job_inv:
  assumes inv: "character_inv (j # js) g" and run: "run_job j g = Ok g'"
  shows "character_inv js g'"
proof (cases "m_characterService g")
  case (MemoryService p)
  with run obtain es p' where es: "run_calls serve_memory j p = (Ok es, p')"
    "g' = fold perform es (g\<lparr>m_characterService := MemoryService p'\<rparr>)"
    by (auto simp: run_job_def split: prod.splits outcome.splits)
  have "SetIdle \<in> set es \<longleftrightarrow> is_init j"
    using run_calls_idle [OF _ es(1)] inv serve_with_answers
    by (fastforce simp: character_inv_def serve_memory_def Let_def)
  with inv show ?thesis by (auto simp: character_inv_def es(2) Let_def split: if_splits)
next
  case GrpcService
  obtain es c where code: "game_code j = (es, c)" by fastforce
  show ?thesis
  proof (cases c)
    case None
    with run GrpcService code have g': "g' = fold perform es g" by (simp add: run_job_def)
    have "SetIdle \<in> set es \<longleftrightarrow> is_init j"
      using game_code_done inv code None by (fastforce simp: character_inv_def Let_def)
    with inv show ?thesis by (auto simp: character_inv_def g' Let_def split: if_splits)
  next
    case (Some call)
    with run GrpcService code have g': "g' = (fold perform es g)\<lparr>awaiting := awaiting g @ [j]\<rparr>"
      by (simp add: run_job_def)
    have "SetIdle \<notin> set es" using game_code_call inv code Some
      by (cases call) (fastforce simp: character_inv_def Let_def)
    with inv code Some show ?thesis by (auto simp: character_inv_def g' Let_def split: if_splits)
  qed
qed

lemma resume_each_inv: "resume_each run_job js g = Ok g' \<Longrightarrow> character_inv js g \<Longrightarrow> character_inv [] g'"
  by (induction js arbitrary: g) (auto simp: obind_eq_Ok_iff dest: run_job_inv)

lemma PreUpdate_inv: "PreUpdate n g = Ok g' \<Longrightarrow> character_inv [] g \<Longrightarrow> character_inv [] g'"
  unfolding PreUpdate_def
proof (induction n arbitrary: g)
  case (Suc n)
  show ?case
  proof (cases "jobs g = []")
    case False
    with Suc.prems(1) obtain h where h: "resume_each run_job (jobs g) (g\<lparr>jobs := []\<rparr>) = Ok h"
      "update_loop run_job jobs (\<lambda>q g. g\<lparr>jobs := q\<rparr>) n h = Ok g'"
      by (auto simp: obind_eq_Ok_iff)
    have "character_inv (jobs g) (g\<lparr>jobs := []\<rparr>)" using Suc.prems(2) by (simp add: character_inv_def Let_def)
    from Suc.IH [OF h(2) resume_each_inv [OF h(1) this]] show ?thesis .
  qed (use Suc.prems in simp)
qed simp

lemma reply_job_inv:
  assumes "i < length (awaiting g)" "game_code (awaiting g ! i) = (es, Some (q, k))" "answers q r" "character_inv [] g"
  shows "character_inv [] (reply_job i r g)"
proof -
  let ?before = "take i (awaiting g)" and ?after = "drop (Suc i) (awaiting g)" and ?j = "awaiting g ! i"
  have split: "awaiting g = ?before @ ?j # ?after" using assms(1) by (rule id_take_nth_drop)
  have inv: "character_inv [] (g\<lparr>awaiting := ?before @ ?j # ?after\<rparr>)" using assms(4) split by simp
  then have "well_typed ?j" by (simp add: character_inv_def Let_def)
  from game_code_call [OF this assms(2)] assms(3) have k: "well_typed (k r)" "is_init (k r) = is_init ?j" by blast+
  have "reply_job i r g = g\<lparr>awaiting := ?before @ ?after, jobs := jobs g @ [k r]\<rparr>"
    by (simp add: reply_job_def assms(2))
  with inv k show ?thesis by (auto simp: character_inv_def Let_def split: if_splits)
qed

lemma Update_input_inv: "character_inv [] g \<Longrightarrow> character_inv [] (Update_input i g)"
  by (auto simp: character_inv_def Update_input_def ProcessInput_def say_def spawn_job_def Let_def split: option.splits if_splits)

lemma Update_entities_inv: "character_inv [] g \<Longrightarrow> character_inv [] (Update_entities now g)"
  by (auto simp: character_inv_def Update_entities_def Character_Update_def spawn_job_def Let_def split: char_state.splits)

lemma Game_new_inv: "character_inv [] (Game_new service now)"
  by (simp add: character_inv_def Game_new_def)

lemma Update_time:
  "0 \<le> m_timeSinceXp g \<Longrightarrow> 0 \<le> m_timeSinceXp (Update_input i g)"
  "0 \<le> m_timeSinceXp g \<Longrightarrow> m_lastTick g \<le> now \<Longrightarrow> 0 \<le> m_timeSinceXp (Update_entities now g)"
  "m_timeSinceXp (reply_job j r g) = m_timeSinceXp g"
  by (auto simp: Update_input_def ProcessInput_def say_def spawn_job_def Update_entities_def Character_Update_def
      reply_job_def Let_def split: option.splits char_state.splits prod.splits)

lemma game_step_inv: "game_step s t \<Longrightarrow> character_inv [] (snd s) \<and> 0 \<le> m_timeSinceXp (snd s) \<Longrightarrow>
    character_inv [] (snd t) \<and> 0 \<le> m_timeSinceXp (snd t)"
proof (induction rule: game_step.induct)
  case (step_jobs n g g')
  then show ?case using PreUpdate_inv PreUpdate_fields by simp
next
  case (step_reply i g es q k r pc)
  then show ?case using reply_job_inv Update_time by simp
qed (simp_all add: Update_input_inv Update_entities_inv Update_time)

lemma game_reachable_inv: "game_reachable service s \<Longrightarrow> character_inv [] (snd s) \<and> 0 \<le> m_timeSinceXp (snd s)"
proof (induction rule: game_reachable.induct)
  case (game_start now)
  show ?case by (simp add: Game_new_inv) (simp add: Game_new_def)
next
  case (game_next s t)
  then show ?case using game_step_inv by blast
qed

lemma deliver_reply_inv:
  assumes "character_inv [] g"
  shows "character_inv [] (deliver_reply a g)"
proof -
  obtain i r where a: "a = (i, r)" by fastforce
  show ?thesis
  proof (cases "i < length (awaiting g) \<and> awaits_reply (awaiting g ! i) r")
    case True
    then obtain es q k where "game_code (awaiting g ! i) = (es, Some (q, k))" "answers q r"
      by (cases "game_code (awaiting g ! i)") (auto simp: awaits_reply_def split: option.splits)
    with True reply_job_inv [OF _ this assms] show ?thesis by (simp add: a)
  qed (use assms in \<open>auto simp: a\<close>)
qed

lemma deliver_replies_inv: "character_inv [] g \<Longrightarrow> character_inv [] (fold deliver_reply rs g)"
  by (induction rs arbitrary: g) (simp_all add: deliver_reply_inv)

lemma Game_Update_inv:
  "Game_Update n i now g = Ok (g', sleep) \<Longrightarrow> character_inv [] g \<Longrightarrow> character_inv [] g'"
  using Update_input_inv [of g i] PreUpdate_inv [of n "Update_input i g"]
  by (auto simp: Game_Update_def Let_def obind_eq_Ok_iff Update_entities_inv split: if_splits)

lemma game_loop_inv: "game_loop n frames g = Ok g' \<Longrightarrow> character_inv [] g \<Longrightarrow> character_inv [] g'"
proof (induction frames arbitrary: g)
  case (Cons f frames)
  obtain rs i now where f: "f = (rs, i, now)" by (cases f)
  show ?case
  proof (cases "m_done g")
    case False
    with Cons.prems(1) obtain g1 sleep where
      g1: "Game_Update n i now (fold deliver_reply rs g) = Ok (g1, sleep)" "game_loop n frames g1 = Ok g'"
      by (auto simp: f obind_eq_Ok_iff)
    from Cons.IH [OF g1(2) Game_Update_inv [OF g1(1) deliver_replies_inv [OF Cons.prems(2)]]] show ?thesis .
  qed (use Cons.prems in \<open>simp add: f\<close>)
qed simp

section \<open>The game with the service in memory\<close>

definition good_player :: "player \<Rightarrow> bool" where
  "good_player p \<longleftrightarrow> 1 \<le> level p \<and> 0 \<le> xp p \<and> xp p < 1000 \<and> 100 dvd xp p"

lemma memory_job:
  assumes "j \<in> {Init, EarnXp, Reincarnate}" "good_player p" "level p < 2 ^ 62"
  shows "\<exists>es p'. run_calls serve_memory j p = (Ok es, p') \<and> good_player p' \<and> level p' \<le> level p + 1"
proof -
  have int: "int64 (xp p + 100)" "int64 (level p + 1)" using assms(2,3) by (auto simp: good_player_def int64_def)
  consider "j = Init" | "j = EarnXp" | "j = Reincarnate" using assms(1) by blast
  then show ?thesis
  proof cases
    case 1
    then show ?thesis using assms(2) by (simp add: run_calls.simps serve_memory_def Memory_GetPlayer_def)
  next
    case 2
    from memory.give_xp_returns [of p 100] int(1) have r: "fst (Memory_GiveXp 100 p) = Ok (xp p + 100)" by simp
    note fight = memory.fight [of p "xp p + 100", OF int r, folded serve_memory_def]
    obtain es where es: "fst (run_calls serve_memory EarnXp p) = Ok es" using fight(2) ..
    have "xp p + 100 < 1000 \<Longrightarrow> 100 dvd xp p \<Longrightarrow> 100 dvd (xp p + 100)" by simp
    with fight(1) assms(2) have "good_player (snd (run_calls serve_memory EarnXp p)) \<and>
        level (snd (run_calls serve_memory EarnXp p)) \<le> level p + 1"
      by (auto simp: good_player_def)
    with es 2 show ?thesis by (metis prod.collapse)
  next
    case 3
    then show ?thesis using assms(2)
      by (simp add: run_calls.simps serve_memory_def Memory_Reset_def Player_def good_player_def)
  qed
qed

definition memory_inv :: "nat \<Rightarrow> game_job list \<Rightarrow> game \<Rightarrow> bool" where
  "memory_inv k js g \<longleftrightarrow> awaiting g = [] \<and> set (js @ jobs g) \<subseteq> {Init, EarnXp, Reincarnate} \<and>
     (\<exists>p. m_characterService g = MemoryService p \<and> good_player p \<and> level p + int (length (js @ jobs g)) \<le> int k)"

lemma memory_run_job:
  assumes "memory_inv k (j # js) g" "k < 2 ^ 62"
  shows "\<exists>g'. run_job j g = Ok g' \<and> memory_inv k js g'"
proof -
  from assms(1) obtain p where p: "m_characterService g = MemoryService p" "good_player p"
    "level p + int (length js + length (jobs g)) + 1 \<le> int k" "j \<in> {Init, EarnXp, Reincarnate}"
    "set (js @ jobs g) \<subseteq> {Init, EarnXp, Reincarnate}" "awaiting g = []"
    by (auto simp: memory_inv_def)
  have "int k < 2 ^ 62" using assms(2) by (metis of_nat_less_iff of_nat_numeral of_nat_power)
  with p(3) have "level p < 2 ^ 62" by linarith
  from memory_job [OF p(4,2) this] obtain es p' where
    "run_calls serve_memory j p = (Ok es, p')" "good_player p'" "level p' \<le> level p + 1" by blast
  with p show ?thesis by (auto simp: run_job_def memory_inv_def)
qed

lemma memory_resume_each:
  "memory_inv k js g \<Longrightarrow> k < 2 ^ 62 \<Longrightarrow> \<exists>g'. resume_each run_job js g = Ok g' \<and> memory_inv k [] g'"
proof (induction js arbitrary: g)
  case (Cons j js)
  from memory_run_job [OF Cons.prems] obtain g1 where "run_job j g = Ok g1" "memory_inv k js g1" by blast
  with Cons.IH [of g1] Cons.prems(2) show ?case by simp
qed simp

lemma memory_inv_mono: "memory_inv k js g \<Longrightarrow> memory_inv (k + 1) js g"
  by (fastforce simp: memory_inv_def)

lemma memory_inv_spawn:
  "j \<in> {Init, EarnXp, Reincarnate} \<Longrightarrow> memory_inv k [] g \<Longrightarrow> memory_inv (k + 1) [] (spawn_job j g)"
  by (auto simp: memory_inv_def spawn_job_def)

lemma memory_inv_fields:
  "memory_inv k js (g\<lparr>m_state := st\<rparr>) = memory_inv k js g"
  "memory_inv k js (g\<lparr>m_timeSinceXp := t\<rparr>) = memory_inv k js g"
  "memory_inv k js (g\<lparr>m_lastTick := t\<rparr>) = memory_inv k js g"
  "memory_inv k js (g\<lparr>m_done := d\<rparr>) = memory_inv k js g"
  "memory_inv k js (g\<lparr>stdout := ls\<rparr>) = memory_inv k js g"
  "memory_inv k js (g\<lparr>m_state := st, jobs := q\<rparr>) = memory_inv k js (g\<lparr>jobs := q\<rparr>)"
  "memory_inv k js (g\<lparr>m_timeSinceXp := t, jobs := q\<rparr>) = memory_inv k js (g\<lparr>jobs := q\<rparr>)"
  by (simp_all add: memory_inv_def)

lemma memory_frame:
  assumes "memory_inv k [] g" "k + 2 < 2 ^ 62" "2 \<le> n"
  shows "\<exists>g' sleep. Game_Update n i now g = Ok (g', sleep) \<and> memory_inv (k + 2) [] g'"
proof -
  have input: "memory_inv (k + 1) [] (Update_input i g)"
    using memory_inv_mono [OF assms(1)] memory_inv_spawn [OF _ assms(1), of Reincarnate]
    by (simp add: Update_input_def ProcessInput_def say_def memory_inv_fields split: option.split)
  show ?thesis
  proof (cases "m_done (Update_input i g)")
    case True
    with input show ?thesis by (auto simp: Game_Update_def memory_inv_def)
  next
    case False
    let ?g = "Update_input i g"
    have "memory_inv (k + 1) (jobs ?g) (?g\<lparr>jobs := []\<rparr>)" using input by (simp add: memory_inv_def)
    from memory_resume_each [OF this] assms(2) obtain g1 where
      g1: "resume_each run_job (jobs ?g) (?g\<lparr>jobs := []\<rparr>) = Ok g1" "memory_inv (k + 1) [] g1" by auto
    have "memory_inv (k + 1 + 1) [] (Update_entities now g1)"
      using memory_inv_mono [OF g1(2)] memory_inv_spawn [of Init "k + 1" g1] memory_inv_spawn [of EarnXp "k + 1" g1] g1(2)
      by (simp add: Update_entities_def Character_Update_def Let_def spawn_job_def memory_inv_fields split: char_state.split)
    with g1(1) False show ?thesis by (simp add: Game_Update_def Let_def PreUpdate_eq [OF assms(3)])
  qed
qed

lemma memory_loop:
  "memory_inv k [] g \<Longrightarrow> k + 2 * length frames < 2 ^ 62 \<Longrightarrow> 2 \<le> n \<Longrightarrow>
     \<exists>g'. game_loop n frames g = Ok g' \<and> memory_inv (k + 2 * length frames) [] g'"
proof (induction frames arbitrary: k g)
  case (Cons f frames)
  obtain rs i now where f: "f = (rs, i, now)" by (cases f)
  have "awaiting g = []" using Cons.prems(1) by (simp add: memory_inv_def)
  then have rs: "fold deliver_reply rs g = g" by (induction rs) auto
  show ?case
  proof (cases "m_done g")
    case True
    with Cons.prems(1) show ?thesis by (auto simp: f memory_inv_def)
  next
    case False
    from memory_frame [OF Cons.prems(1) _ Cons.prems(3)] Cons.prems(2) obtain g1 sleep where
      g1: "Game_Update n i now g = Ok (g1, sleep)" "memory_inv (k + 2) [] g1" by fastforce
    from Cons.IH [OF g1(2) _ Cons.prems(3)] Cons.prems(2) g1(1) False show ?thesis by (simp add: f rs)
  qed
qed auto

text \<open>The game with the remote service does not fail either, whatever the replies are.\<close>

lemma grpc_resume_each:
  "m_characterService g = GrpcService \<Longrightarrow> \<exists>g'. resume_each run_job js g = Ok g' \<and> m_characterService g' = GrpcService"
proof (induction js arbitrary: g)
  case (Cons j js)
  have "\<exists>g1. run_job j g = Ok g1 \<and> m_characterService g1 = GrpcService"
    using Cons.prems by (simp add: run_job_def split: prod.split option.split)
  with Cons.IH show ?case by fastforce
qed simp

lemma grpc_loop:
  "m_characterService g = GrpcService \<Longrightarrow> 2 \<le> n \<Longrightarrow>
     \<exists>g'. game_loop n frames g = Ok g' \<and> m_characterService g' = GrpcService"
proof (induction frames arbitrary: g)
  case (Cons f frames)
  obtain rs i now where f: "f = (rs, i, now)" by (cases f)
  let ?g = "fold deliver_reply rs g"
  have "m_characterService (deliver_reply a h) = m_characterService h" for a h
    by (cases a) (simp add: reply_job_def split: prod.split option.split)
  then have "m_characterService ?g = m_characterService g" by (induction rs arbitrary: g) simp_all
  then have input: "m_characterService (Update_input i ?g) = GrpcService"
    using Cons.prems(1) by (simp add: Update_input_def ProcessInput_def say_def spawn_job_def split: option.split)
  then obtain g1 where g1: "PreUpdate n (Update_input i ?g) = Ok g1" "m_characterService g1 = GrpcService"
    using grpc_resume_each [of "Update_input i ?g\<lparr>jobs := []\<rparr>"] by (auto simp: PreUpdate_eq [OF Cons.prems(2)])
  then have "m_characterService (Update_entities now g1) = GrpcService"
    by (simp add: Update_entities_def Character_Update_def spawn_job_def Let_def split: char_state.split)
  with input g1(1) have "\<exists>g2 sleep. Game_Update n i now ?g = Ok (g2, sleep) \<and> m_characterService g2 = GrpcService"
    by (simp add: Game_Update_def Let_def)
  with Cons.IH Cons.prems show ?case by (fastforce simp: f)
qed simp

section \<open>Time\<close>

lemma Character_Update_fighting:
  assumes "m_state g = Fighting" "0 \<le> m_timeSinceXp g" "m_timeSinceXp g < second" "0 \<le> t" "t \<le> second"
  shows "Character_Update t g = g\<lparr>m_timeSinceXp := (m_timeSinceXp g + t) mod second,
     jobs := jobs g @ replicate (nat ((m_timeSinceXp g + t) div second)) EarnXp\<rparr>"
proof (cases "second \<le> m_timeSinceXp g + t")
  case True
  define u where "u = m_timeSinceXp g + t - second"
  have u: "0 \<le> u" "u < second" "m_timeSinceXp g + t = u + second" using assms True by (simp_all add: u_def)
  have "(u + second) mod second = u" "(u + second) div second = 1" using u(1,2) by (simp_all add: second_def)
  with assms(1) u True show ?thesis by (simp add: Character_Update_def spawn_job_def Let_def)
next
  case False
  with assms have "(m_timeSinceXp g + t) mod second = m_timeSinceXp g + t" "(m_timeSinceXp g + t) div second = 0" by simp_all
  with assms(1) False show ?thesis by (simp add: Character_Update_def Let_def)
qed

lemma Character_Update_all:
  "m_state g = Fighting \<Longrightarrow> 0 \<le> m_timeSinceXp g \<Longrightarrow> m_timeSinceXp g < second \<Longrightarrow> \<forall>t \<in> set ts. 0 \<le> t \<and> t \<le> second \<Longrightarrow>
   fold Character_Update ts g = g\<lparr>m_timeSinceXp := (m_timeSinceXp g + sum_list ts) mod second,
     jobs := jobs g @ replicate (nat ((m_timeSinceXp g + sum_list ts) div second)) EarnXp\<rparr>"
proof (induction ts arbitrary: g)
  case Nil
  then show ?case by simp
next
  case (Cons t ts)
  let ?u = "m_timeSinceXp g + t" and ?s = "sum_list ts"
  have nonneg: "0 \<le> ?u" "0 \<le> ?s" using Cons.prems by (auto intro: sum_list_nonneg)
  have s: "0 < second" by (simp add: second_def)
  have div: "(?u + ?s) div second = ?u div second + (?u mod second + ?s) div second"
  proof -
    have "?u + ?s = (?u mod second + ?s) + second * (?u div second)"
      using mult_div_mod_eq [of second ?u] by linarith
    then show ?thesis using s div_mult_self2 [of second "?u mod second + ?s" "?u div second"] by simp
  qed
  have pos: "0 \<le> ?u div second" "0 \<le> (?u mod second + ?s) div second"
    using nonneg s by (simp_all add: pos_imp_zdiv_nonneg_iff)
  have mod: "(?u mod second + ?s) mod second = (?u + ?s) mod second" by (rule mod_add_left_eq)
  have first: "Character_Update t g = g\<lparr>m_timeSinceXp := ?u mod second, jobs := jobs g @ replicate (nat (?u div second)) EarnXp\<rparr>"
    using Cons.prems by (intro Character_Update_fighting) simp_all
  from Cons.IH [of "Character_Update t g"] Cons.prems s mod div pos show ?case
    by (simp add: first add.assoc nat_add_distrib replicate_add)
qed

section \<open>Properties\<close>

text \<open>
  C26. A game runs.  \<open>main\<close> prints the usage exactly when it was not called with one argument,
  \<^verbatim>\<open>memory\<close> or \<^verbatim>\<open>grpc\<close>.  Otherwise the service is made, and no frame ends in an error, for any
  input lines, any clock readings (up to \<open>2 ^ 60\<close> frames) and, with the remote service, any replies
  to its calls that arrive before any frame, in any order or never.  With the service in memory the
  player has then between 0 and 900 experience points, in hundreds, and no job waits; with the
  remote one every job that waits is at a call of the service, and one job initialises the
  character exactly while it is \<open>Initializing\<close>, so that it is after the reply was handled.
\<close>

theorem game_main_runs:
  assumes "2 \<le> n" and "length frames < 2 ^ 60"
  shows "case game_main n av start frames of
      Usage line \<Rightarrow> (length av \<noteq> 2 \<or> av ! 1 \<notin> {''memory'', ''grpc''}) \<and> line = ''Usage: '' @ hd av @ '' memory|grpc''
    | Played r \<Rightarrow> length av = 2 \<and> (\<exists>g. r = Ok g \<and> (case m_characterService g of
          MemoryService p \<Rightarrow> av ! 1 = ''memory'' \<and> good_player p \<and> awaiting g = []
        | GrpcService \<Rightarrow> av ! 1 = ''grpc'' \<and> (\<forall>j \<in> set (awaiting g). snd (game_code j) \<noteq> None) \<and>
            length (filter is_init (jobs g @ awaiting g)) = (if m_state g = Initializing then 1 else 0)))"
proof -
  consider "length av \<noteq> 2 \<or> av ! 1 \<notin> {''memory'', ''grpc''}" | "length av = 2" "av ! 1 = ''memory''"
    | "length av = 2" "av ! 1 = ''grpc''" by blast
  then show ?thesis
  proof cases
    case 1
    then show ?thesis by (simp add: game_main_def)
  next
    case 2
    have "memory_inv 1 [] (Game_new (MemoryService Player) start)"
      by (simp add: memory_inv_def Game_new_def good_player_def Player_def)
    from memory_loop [OF this _ assms(1), of frames] assms(2) obtain g where
      "game_loop n frames (Game_new (MemoryService Player) start) = Ok g" "memory_inv (1 + 2 * length frames) [] g" by auto
    with 2 show ?thesis by (auto simp: game_main_def MakeCharacterService_def memory_inv_def)
  next
    case 3
    have "m_characterService (Game_new GrpcService start) = GrpcService" by (simp add: Game_new_def)
    from grpc_loop [OF this assms(1)] obtain g where
      g: "game_loop n frames (Game_new GrpcService start) = Ok g" "m_characterService g = GrpcService" by blast
    from game_loop_inv [OF g(1) Game_new_inv] g 3 show ?thesis
      by (simp add: game_main_def MakeCharacterService_def character_inv_def Let_def)
  qed
qed

text \<open>
  With the remote service: the character is initialised by the reply to its first call, fights,
  and the reply to the gift of the first second is printed.
\<close>

theorem game_main_runs_witness:
  "\<exists>g. game_main 2 [''game'', ''grpc''] 0 [([], None, 0), ([], None, 1), ([(0, PlayerReply Player)], None, 2), ([], Some ''fight'', 3),
       ([], None, 3 + second), ([], None, 4 + second), ([(0, IntReply 0)], None, 5 + second)] = Played (Ok g) \<and>
     m_state g = Fighting \<and> last (stdout g) = ''[Game] You earned 100xp! You now have 0 experience points'' \<and>
     length (filter is_init (jobs g @ awaiting g)) = 0"
proof -
  let ?frames = "[([], None, 0), ([], None, 1), ([(0, PlayerReply Player)], None, 2), ([], Some ''fight'', 3),
       ([], None, 3 + second), ([], None, 4 + second), ([(0, IntReply 0)], None, 5 + second)] :: game_frame list"
  have two: "(2 :: nat) \<le> 2" by simp
  have zero: "show_int 0 = ''0''" by (simp add: show_int_def show_nat.simps digit_def) (simp add: char_of_def bit_simps)
  have "\<exists>g. game_main 2 [''game'', ''grpc''] 0 ?frames = Played (Ok g) \<and> m_state g = Fighting \<and> m_characterService g = GrpcService \<and>
      last (stdout g) = ''[Game] You earned 100xp! You now have 0 experience points''"
    by (simp add: game_main_def MakeCharacterService_def Game_Update_def PreUpdate_eq Game_new_def Update_input_def ProcessInput_def
        Update_entities_def Character_Update_def spawn_job_def run_job_def awaits_reply_def reply_job_def say_def second_def
        Let_def Player_def zero)
  then obtain g where g: "game_main 2 [''game'', ''grpc''] 0 ?frames = Played (Ok g)" "m_state g = Fighting"
    "m_characterService g = GrpcService" "last (stdout g) = ''[Game] You earned 100xp! You now have 0 experience points''" by blast
  have "length ?frames < 2 ^ 60" by simp
  from game_main_runs [OF two this, of "[''game'', ''grpc'']" 0] g show ?thesis by simp
qed

text \<open>
  C27. What a level costs.  With the service in memory every tenth fight brings a level; with the
  remote service, whose \<open>GiveXp\<close> returns the amount before the gift, it is every eleventh, and
  the player stands at 1000 points in between.
\<close>

theorem fights_per_level:
  assumes "n < 2 ^ 62"
  shows "((\<lambda>p. snd (run_calls serve_memory EarnXp p)) ^^ n) Player =
      \<lparr>level = 1 + int (n div 10), xp = 100 * int (n mod 10)\<rparr> \<and>
    player_in (fst (((\<lambda>s. snd (run_calls (serve_remote env) EarnXp s)) ^^ n) (Map.empty, c))) =
      \<lparr>level = 1 + int (n div 11), xp = 100 * int (n mod 11)\<rparr>"
  using memory_fights [OF assms] remote_fights [OF assms] by (simp_all add: fighter_def)

theorem fights_per_level_witness:
  "((\<lambda>p. snd (run_calls serve_memory EarnXp p)) ^^ 10) Player = \<lparr>level = 2, xp = 0\<rparr> \<and>
   player_in (fst (((\<lambda>s. snd (run_calls (serve_remote zero_env) EarnXp s)) ^^ 10) (Map.empty, 0))) = \<lparr>level = 1, xp = 1000\<rparr>"
proof -
  have "10 < (2 :: nat) ^ 62" by simp
  from fights_per_level [OF this] show ?thesis by simp
qed

text \<open>
  C25. The character is initialised once.  In every state a game can reach, with any replies of the
  remote service at any time, there is a job that initialises the character exactly while it is
  \<open>Initializing\<close>, and then just one; before that there is no job at all.
\<close>

theorem character_initialised_once:
  assumes "game_reachable service (pc, g)"
  shows "length (filter is_init (jobs g @ awaiting g)) = (if m_state g = Initializing then 1 else 0) \<and>
    (m_state g = Uninit \<longrightarrow> jobs g = [] \<and> awaiting g = []) \<and> 0 \<le> m_timeSinceXp g"
  using game_reachable_inv [OF assms] by (simp_all add: character_inv_def)

theorem character_initialised_once_witness:
  "\<exists>g. game_reachable GrpcService (AtPreUpdate, g) \<and> jobs g = [Init] \<and>
     length (filter is_init (jobs g @ awaiting g)) = 1"
proof -
  define g0 where "g0 = Game_new GrpcService 0"
  let ?g = "Update_entities 5 g0"
  have init: "m_done g0 = False" "m_state g0 = Uninit" "jobs g0 = []" "m_lastTick g0 = 0"
    by (simp_all add: g0_def Game_new_def)
  have "PreUpdate 1 g0 = Ok g0" by (simp add: PreUpdate_def init)
  note jobs0 = this
  have fields: "m_done ?g = False" "m_state ?g = Initializing" "jobs ?g = [Init]"
    by (simp_all add: Update_entities_def Character_Update_def spawn_job_def init)
  have "game_reachable GrpcService (AtInput, g0)" unfolding g0_def by (rule game_start)
  from game_next [OF this step_input [of g0 None]]
  have "game_reachable GrpcService (AtPreUpdate, g0)" by (simp add: Update_input_def init)
  from game_next [OF this step_jobs [OF jobs0]]
  have "game_reachable GrpcService (AtEntities, g0)" .
  from game_next [OF this step_entities [of g0 5]]
  have "game_reachable GrpcService (AtInput, ?g)" by (simp add: init)
  from game_next [OF this step_input [of ?g None]]
  have "game_reachable GrpcService (AtPreUpdate, ?g)" by (simp add: Update_input_def fields)
  with character_initialised_once [OF this] fields show ?thesis by auto
qed

text \<open>
  C34. One gift per second.  While the character fights, frames of at most a second each spawn one
  \<open>EarnXp\<close> per full second of the time they took together, and keep the rest.
\<close>

theorem gifts_per_second:
  assumes "m_state g = Fighting" and "0 \<le> m_timeSinceXp g" "m_timeSinceXp g < second"
    and "\<forall>t \<in> set ts. 0 \<le> t \<and> t \<le> second"
  shows "fold Character_Update ts g = g\<lparr>m_timeSinceXp := (m_timeSinceXp g + sum_list ts) mod second,
     jobs := jobs g @ replicate (nat ((m_timeSinceXp g + sum_list ts) div second)) EarnXp\<rparr>"
  by (rule Character_Update_all [OF assms])

theorem gifts_per_second_witness:
  "jobs (fold Character_Update [600000000, 600000000, 900000000] (Game_new GrpcService 0 \<lparr>m_state := Fighting\<rparr>)) = [EarnXp, EarnXp]"
proof -
  let ?g = "Game_new GrpcService 0 \<lparr>m_state := Fighting\<rparr>"
  have "m_state ?g = Fighting" "0 \<le> m_timeSinceXp ?g" "m_timeSinceXp ?g < second"
    "\<forall>t \<in> set [600000000, 600000000, 900000000]. 0 \<le> t \<and> t \<le> second" by (simp_all add: Game_new_def second_def)
  note gifts_per_second [OF this]
  moreover have "nat ((0 + sum_list [600000000, 600000000, 900000000]) div second) = 2" by (simp add: second_def)
  ultimately show ?thesis by (simp add: Game_new_def numeral_2_eq_2)
qed

text \<open>
  C35. Two frames in the time of one.  The thread sleeps for what is left of 100 ms after the time
  since the last frame, which already holds the sleep of that frame: when the work of a frame
  takes \<open>w \<le> 100\<close> ms, any two consecutive frames take 100 ms and \<open>w\<close> together.
\<close>

theorem two_frames_per_period:
  assumes "Game_Update n i1 now1 g1 = Ok (g2, sleep1)" "\<not> m_done g2"
    and "Game_Update n i2 now2 g2 = Ok (g3, sleep2)" "\<not> m_done g3"
    and "now2 = now1 + sleep1 + w" "now3 = now2 + sleep2 + w"
    and "0 \<le> w" "w \<le> second div 10" "w \<le> now1 - m_lastTick g1"
  shows "now3 - now1 = second div 10 + w"
proof -
  have frame: "m_lastTick g' = now \<and> sleep = sleep_time (now - m_lastTick g)"
    if "Game_Update n i now g = Ok (g', sleep)" "\<not> m_done g'" for i now g g' sleep
    using that by (auto simp: Game_Update_def Let_def obind_eq_Ok_iff Update_entities_def dest: PreUpdate_fields split: if_splits)
  from frame [OF assms(1,2)] frame [OF assms(3,4)] assms(5-9) show ?thesis
    by (simp add: sleep_time_def max_def split: if_splits)
qed

theorem two_frames_per_period_witness:
  "\<exists>g2 g3. Game_Update 2 None 0 (Game_new GrpcService (- 20000000)) = Ok (g2, 80000000) \<and>
     Game_Update 2 None 90000000 g2 = Ok (g3, 10000000) \<and> (110000000 :: int) - 0 = second div 10 + 10000000"
proof -
  let ?g = "Game_new GrpcService (- 20000000)"
  obtain g2 where g2: "Game_Update 2 None 0 ?g = Ok (g2, 80000000)" "\<not> m_done g2" "m_lastTick g2 = 0"
      "jobs g2 = [Init]" "m_characterService g2 = GrpcService" "m_state g2 = Initializing"
    by (simp add: Game_Update_def PreUpdate_eq Update_input_def Game_new_def Update_entities_def Character_Update_def
        spawn_job_def sleep_time_def second_def)
  obtain g3 where g3: "Game_Update 2 None 90000000 g2 = Ok (g3, 10000000)" "\<not> m_done g3"
    using g2(2-6) by (simp add: Game_Update_def PreUpdate_eq Update_input_def Update_entities_def Character_Update_def
        spawn_job_def sleep_time_def second_def run_job_def)
  from two_frames_per_period [OF g2(1,2) g3, of 10000000 110000000] g2(1,3) g3(1) show ?thesis
    by (auto simp: second_def Game_new_def)
qed

end
