(* ===== verification/InputHandler.thy ===== *)
theory InputHandler
  imports Prelude
begin

text \<open>
  \<open>InputHandler\<close> of \<^verbatim>\<open>game/main.cpp\<close>: a thread that reads a line of the standard input each time
  it is notified, and the main thread that asks for lines (\<open>GetString\<close>), polls the future and
  at the end destroys the handler.  The mutex is only locked by the reading thread, so it is not
  part of the state: the main thread may notify at any point of the other one.
\<close>

section \<open>The two threads\<close>

text \<open>Where \<open>LaunchThread\<close> stands, and where the main thread does.\<close>

datatype reader_point =
    AtWhile       \<comment> \<open>\<open>while (!stop.stop_requested())\<close>\<close>
  | AtReady       \<comment> \<open>\<open>m_ready = true\<close>\<close>
  | AtWait        \<comment> \<open>about to call \<open>m_cv.wait(lock)\<close>\<close>
  | Blocked       \<comment> \<open>inside it\<close>
  | Woken         \<comment> \<open>\<open>if (!stop.stop_requested())\<close>\<close>
  | AtGetline
  | Ended

datatype owner_point =
    Spinning      \<comment> \<open>\<open>while (!m_ready);\<close>\<close>
  | Asking        \<comment> \<open>about to assign \<open>m_promise\<close> in \<open>GetString\<close>\<close>
  | Notifying     \<comment> \<open>about to call \<open>m_cv.notify_one()\<close>\<close>
  | Polling       \<comment> \<open>\<open>m_pendingInput.wait_for(0)\<close>, frame after frame\<close>
  | Received      \<comment> \<open>has taken the line\<close>
  | Stopping      \<comment> \<open>in the destructor, before \<open>m_cv.notify_one()\<close>\<close>
  | Joining
  | Joined

text \<open>\<open>m_promise\<close> is the value set in it; \<open>future_error\<close> that one was set twice.\<close>

record input_handler =
  reader :: reader_point
  owner :: owner_point
  m_ready :: bool
  stop_requested :: bool
  m_promise :: "string option"
  future_error :: bool
  stdin :: "string list"
  received :: "string list"

definition InputHandler_new :: "string list \<Rightarrow> input_handler" where
  "InputHandler_new lines = \<lparr>reader = AtWhile, owner = Spinning, m_ready = False, stop_requested = False,
     m_promise = None, future_error = False, stdin = lines, received = []\<rparr>"

text \<open>\<open>getline\<close> gives an empty string at the end of the input.\<close>

definition getline :: "string list \<Rightarrow> string \<times> string list" where
  "getline lines = (case lines of [] \<Rightarrow> ([], []) | l # ls \<Rightarrow> (l, ls))"

text \<open>\<open>notify_one\<close> wakes the reader if it waits, and otherwise does nothing.\<close>

definition notify_one :: "input_handler \<Rightarrow> input_handler" where
  "notify_one s = (if reader s = Blocked then s\<lparr>reader := Woken\<rparr> else s)"

definition set_value :: "string \<Rightarrow> input_handler \<Rightarrow> input_handler" where
  "set_value line s = (case m_promise s of
      None \<Rightarrow> s\<lparr>m_promise := Some line\<rparr> | Some l \<Rightarrow> s\<lparr>future_error := True\<rparr>)"

text \<open>\<open>LaunchThread\<close>, one step.  A thread blocked in \<open>wait\<close> has none.\<close>

fun reader_step :: "input_handler \<Rightarrow> input_handler option" where
  "reader_step s = (case reader s of
      AtWhile \<Rightarrow> Some (s\<lparr>reader := if stop_requested s then Ended else AtReady\<rparr>)
    | AtReady \<Rightarrow> Some (s\<lparr>m_ready := True, reader := AtWait\<rparr>)
    | AtWait \<Rightarrow> Some (s\<lparr>reader := Blocked\<rparr>)
    | Blocked \<Rightarrow> None
    | Woken \<Rightarrow> Some (s\<lparr>reader := if stop_requested s then AtWhile else AtGetline\<rparr>)
    | AtGetline \<Rightarrow> (case getline (stdin s) of (line, rest) \<Rightarrow>
        Some (set_value line (s\<lparr>stdin := rest, reader := AtWhile\<rparr>)))
    | Ended \<Rightarrow> None)"

text \<open>
  The main thread: the constructor, \<open>GetString\<close>, taking the line when the future is ready, and
  then another \<open>GetString\<close>, or the destructor, which joins the reader.
\<close>

inductive owner_step :: "input_handler \<Rightarrow> input_handler \<Rightarrow> bool" where
  own_spin: "owner s = Spinning \<Longrightarrow> m_ready s \<Longrightarrow> owner_step s (s\<lparr>owner := Asking\<rparr>)"
| own_ask: "owner s = Asking \<Longrightarrow> owner_step s (s\<lparr>m_promise := None, owner := Notifying\<rparr>)"
| own_notify: "owner s = Notifying \<Longrightarrow> owner_step s ((notify_one s)\<lparr>owner := Polling\<rparr>)"
| own_receive: "owner s = Polling \<Longrightarrow> m_promise s = Some line \<Longrightarrow>
     owner_step s (s\<lparr>received := received s @ [line], owner := Received\<rparr>)"
| own_again: "owner s = Received \<Longrightarrow> owner_step s (s\<lparr>owner := Asking\<rparr>)"
| own_stop: "owner s = Received \<Longrightarrow> owner_step s (s\<lparr>stop_requested := True, owner := Stopping\<rparr>)"
| own_stop_notify: "owner s = Stopping \<Longrightarrow> owner_step s ((notify_one s)\<lparr>owner := Joining\<rparr>)"
| own_join: "owner s = Joining \<Longrightarrow> reader s = Ended \<Longrightarrow> owner_step s (s\<lparr>owner := Joined\<rparr>)"

inductive input_step :: "input_handler \<Rightarrow> input_handler \<Rightarrow> bool" where
  reader_moves: "reader_step s = Some t \<Longrightarrow> input_step s t"
| owner_moves: "owner_step s t \<Longrightarrow> input_step s t"

text \<open>
  The standard also allows \<open>wait\<close> to return without a notification, and the code waits with no
  predicate.  \<open>input_run s n t\<close>: from \<open>s\<close> to \<open>t\<close>,
  with \<open>n\<close> such wake-ups.  When a promise is set
  twice, \<open>future_error\<close> leaves \<open>LaunchThread\<close> and ends the program: then nothing moves.
\<close>

inductive spurious_step :: "input_handler \<Rightarrow> input_handler \<Rightarrow> bool" where
  spurious: "reader s = Blocked \<Longrightarrow> spurious_step s (s\<lparr>reader := Woken\<rparr>)"

inductive_cases spurious_stepE: "spurious_step s t"

inductive input_run :: "input_handler \<Rightarrow> nat \<Rightarrow> input_handler \<Rightarrow> bool" for s where
  run_here: "input_run s 0 s"
| run_moves: "input_run s n t \<Longrightarrow> \<not> future_error t \<Longrightarrow> input_step t u \<Longrightarrow> input_run s n u"
| run_spurious: "input_run s n t \<Longrightarrow> \<not> future_error t \<Longrightarrow> spurious_step t u \<Longrightarrow> input_run s (Suc n) u"

definition handler_step :: "input_handler \<Rightarrow> input_handler \<Rightarrow> bool" where
  "handler_step s t \<longleftrightarrow> \<not> future_error s \<and> (input_step s t \<or> spurious_step s t)"

abbreviation input_steps :: "input_handler \<Rightarrow> input_handler \<Rightarrow> bool" where
  "input_steps \<equiv> input_step\<^sup>*\<^sup>*"

declare reader_step.simps [simp del]

inductive_cases owner_stepE: "owner_step s t"
inductive_cases input_stepE: "input_step s t"

section \<open>Every line is handed over once\<close>

text \<open>
  The reader only reads for an open request: while the main thread polls and nothing was
  promised, or before the notification could even be sent it does not read.
\<close>

definition reading :: "input_handler \<Rightarrow> bool" where
  "reading s \<longleftrightarrow> reader s \<in> {Woken, AtGetline} \<and> \<not> stop_requested s"

definition input_inv :: "input_handler \<Rightarrow> bool" where
  "input_inv s \<longleftrightarrow> \<not> future_error s \<and>
     (reading s \<longrightarrow> owner s = Polling \<and> m_promise s = None) \<and>
     (stop_requested s \<longrightarrow> owner s \<in> {Stopping, Joining, Joined}) \<and>
     (owner s \<in> {Stopping, Joining, Joined} \<longrightarrow> stop_requested s) \<and>
     (reader s = AtGetline \<longrightarrow> \<not> stop_requested s) \<and> (reader s = Ended \<longrightarrow> stop_requested s) \<and>
     (owner s \<in> {Spinning, Notifying} \<longrightarrow> m_promise s = None) \<and>
     (owner s = Joined \<longrightarrow> reader s = Ended)"

text \<open>
  The lines the main thread got, the one that waits in the promise and those not yet read are
  the lines of the input, in order; behind its end the reader hands over empty lines.
\<close>

definition offered :: "input_handler \<Rightarrow> string list" where
  "offered s = (if owner s \<in> {Notifying, Polling} then case m_promise s of None \<Rightarrow> [] | Some l \<Rightarrow> [l] else [])"

definition in_order :: "string list \<Rightarrow> string list \<Rightarrow> string list \<Rightarrow> bool" where
  "in_order lines before after \<longleftrightarrow> (\<exists>k. before @ after = lines @ replicate k [] \<and> (0 < k \<longrightarrow> after = []))"

lemma in_order_getline:
  assumes "getline after = (l, rest)" "in_order lines before after"
  shows "in_order lines (before @ [l]) rest"
proof (cases after)
  case Nil
  from assms(2) obtain k where k: "before = lines @ replicate k []" by (auto simp: in_order_def Nil)
  have "l = []" "rest = []" using assms(1) by (simp_all add: getline_def Nil)
  then have "(before @ [l]) @ rest = lines @ replicate (Suc k) []"
    using replicate_append_same [of k "[] :: string"] by (simp add: k)
  with \<open>rest = []\<close> show ?thesis unfolding in_order_def by blast
next
  case (Cons a list)
  with assms show ?thesis by (auto simp: getline_def in_order_def)
qed

lemma reader_step_fields:
  assumes "reader_step s = Some t" "reader s \<noteq> AtGetline"
  shows "owner t = owner s \<and> m_promise t = m_promise s \<and> stop_requested t = stop_requested s \<and>
    future_error t = future_error s \<and> stdin t = stdin s \<and> received t = received s \<and>
    (reading t \<longrightarrow> reading s) \<and> (reader t = AtGetline \<longrightarrow> \<not> stop_requested s) \<and>
    (reader t = Ended \<longrightarrow> stop_requested s) \<and> reader s \<noteq> Ended"
proof (cases "reader s")
  case AtWhile
  with assms(1) have "t = s\<lparr>reader := if stop_requested s then Ended else AtReady\<rparr>" by (simp add: reader_step.simps [of s])
  with AtWhile show ?thesis by (simp add: reading_def)
next
  case AtReady
  with assms(1) have "t = s\<lparr>m_ready := True, reader := AtWait\<rparr>" by (simp add: reader_step.simps [of s])
  with AtReady show ?thesis by (simp add: reading_def)
next
  case AtWait
  with assms(1) have "t = s\<lparr>reader := Blocked\<rparr>" by (simp add: reader_step.simps [of s])
  with AtWait show ?thesis by (simp add: reading_def)
next
  case Woken
  with assms(1) have "t = s\<lparr>reader := if stop_requested s then AtWhile else AtGetline\<rparr>" by (simp add: reader_step.simps [of s])
  with Woken show ?thesis by (simp add: reading_def)
qed (use assms in \<open>simp_all add: reader_step.simps [of s]\<close>)

lemma reader_step_inv:
  assumes "reader_step s = Some t" "input_inv s" "in_order lines (received s @ offered s) (stdin s)"
  shows "input_inv t \<and> in_order lines (received t @ offered t) (stdin t)"
proof (cases "reader s = AtGetline")
  case True
  note AtGetline = this
  obtain l rest where g: "getline (stdin s) = (l, rest)" by fastforce
  have "\<not> stop_requested s" using assms(2) AtGetline unfolding input_inv_def by blast
  with AtGetline have "reading s" by (simp add: reading_def)
  with assms(2) have s: "owner s = Polling" "m_promise s = None" "\<not> stop_requested s" "\<not> future_error s"
    using \<open>\<not> stop_requested s\<close> unfolding input_inv_def by blast+
  have "reader_step s = Some (s\<lparr>stdin := rest, reader := AtWhile, m_promise := Some l\<rparr>)"
    by (simp add: reader_step.simps [of s] AtGetline g set_value_def s(2))
  with assms(1) have t: "t = s\<lparr>stdin := rest, reader := AtWhile, m_promise := Some l\<rparr>" by simp
  show ?thesis using in_order_getline [OF g, of lines "received s"] assms(3) s
    by (simp add: t input_inv_def reading_def offered_def)
next
  case False
  note fields = reader_step_fields [OF assms(1) False]
  have "input_inv t" using assms(2) fields unfolding input_inv_def by simp blast
  moreover have "offered t = offered s" using fields by (simp add: offered_def)
  ultimately show ?thesis using assms(3) fields by simp
qed

lemma owner_step_inv:
  "owner_step s t \<Longrightarrow> input_inv s \<Longrightarrow> in_order lines (received s @ offered s) (stdin s) \<Longrightarrow>
     input_inv t \<and> in_order lines (received t @ offered t) (stdin t)"
  by (induction rule: owner_step.induct)
     (auto simp: input_inv_def reading_def offered_def notify_one_def split: option.splits if_splits)

lemma input_steps_inv:
  "input_steps (InputHandler_new lines) s \<Longrightarrow> input_inv s \<and> in_order lines (received s @ offered s) (stdin s)"
proof (induction rule: rtranclp_induct)
  case base
  have "in_order lines [] lines" unfolding in_order_def by (rule exI [of _ 0]) simp
  then show ?case by (simp add: input_inv_def InputHandler_new_def reading_def offered_def)
next
  case (step s t)
  from step.hyps(2) show ?case
  proof cases
    case reader_moves
    from reader_step_inv [OF this] step.IH show ?thesis by blast
  next
    case owner_moves
    from owner_step_inv [OF this] step.IH show ?thesis by blast
  qed
qed

section \<open>Wake-ups without a notification\<close>

lemma input_run_steps: "input_run s n t \<Longrightarrow> n = 0 \<Longrightarrow> input_steps s t"
  by (induction rule: input_run.induct) simp_all

lemma input_steps_run: "input_steps (InputHandler_new lines) s \<Longrightarrow> input_run (InputHandler_new lines) 0 s"
proof (induction rule: rtranclp_induct)
  case base
  show ?case by (rule run_here)
next
  case (step s t)
  have "\<not> future_error s" using input_steps_inv [OF step.hyps(1)] by (simp add: input_inv_def)
  from run_moves [OF step.IH this step.hyps(2)] show ?case .
qed

text \<open>
  Before the first request is made, the reader may put a line into a promise that \<open>GetString\<close> then
  replaces: that line is skipped, and it is the only one.
\<close>

definition unasked :: "input_handler \<Rightarrow> bool" where
  "unasked s \<longleftrightarrow> owner s = Spinning \<or> owner s = Asking \<and> received s = []"

definition promised :: "input_handler \<Rightarrow> string list" where
  "promised s = (case m_promise s of None \<Rightarrow> [] | Some l \<Rightarrow> [l])"

text \<open>What the owner's side keeps, and where the lines are, after \<open>n\<close> wake-ups.\<close>

definition owner_inv :: "input_handler \<Rightarrow> bool" where
  "owner_inv s \<longleftrightarrow> (stop_requested s \<longleftrightarrow> owner s \<in> {Stopping, Joining, Joined}) \<and> (owner s = Spinning \<longrightarrow> received s = []) \<and>
     (owner s = Received \<longrightarrow> received s \<noteq> []) \<and> (reader s = Ended \<longrightarrow> stop_requested s) \<and>
     (owner s \<in> {Received, Stopping, Joining, Joined} \<or> owner s = Asking \<and> received s \<noteq> [] \<longrightarrow> m_promise s \<noteq> None)"

definition lines_inv :: "string list \<Rightarrow> nat \<Rightarrow> input_handler \<Rightarrow> bool" where
  "lines_inv lines n s \<longleftrightarrow> (\<exists>skipped. length skipped \<le> min 1 n \<and> (unasked s \<longrightarrow> skipped = promised s) \<and>
     in_order lines (skipped @ received s @ offered s) (stdin s))"

definition run_inv :: "string list \<Rightarrow> nat \<Rightarrow> input_handler \<Rightarrow> bool" where
  "run_inv lines n s \<longleftrightarrow> owner_inv s \<and> lines_inv lines n s \<and> (n = 0 \<longrightarrow> input_inv s)"

lemmas run_defs = run_inv_def owner_inv_def lines_inv_def unasked_def promised_def offered_def

lemma lines_inv_cong:
  assumes "owner t = owner s" "m_promise t = m_promise s" "stdin t = stdin s" "received t = received s" "n \<le> n'" "lines_inv lines n s"
  shows "lines_inv lines n' t"
proof -
  have "unasked t = unasked s" "promised t = promised s" "offered t = offered s"
    using assms(1-4) by (simp_all add: unasked_def promised_def offered_def)
  with assms(3-6) show ?thesis unfolding lines_inv_def by (metis min.mono order_refl order_trans)
qed

lemma run_inv_reads:
  assumes "run_inv lines n s" "reader s = AtGetline" "getline (stdin s) = (l, rest)" "m_promise s = None"
  shows "lines_inv lines n (s\<lparr>stdin := rest, reader := AtWhile, m_promise := Some l\<rparr>)"
proof -
  from assms(1) obtain skipped where sk: "length skipped \<le> min 1 n" "unasked s \<longrightarrow> skipped = promised s"
    "in_order lines (skipped @ received s @ offered s) (stdin s)" by (auto simp: run_inv_def lines_inv_def)
  have "offered s = []" by (simp add: offered_def assms(4))
  with in_order_getline [OF assms(3) sk(3)] have ord: "in_order lines (skipped @ received s @ [l]) rest" by simp
  have owner: "owner s \<in> {Notifying, Polling} \<or> unasked s" using assms(1,4) by (cases "owner s") (auto simp: run_defs)
  show ?thesis
  proof (cases "unasked s")
    case True
    then have "received s = []" "skipped = []" using assms(1,4) sk(2) by (auto simp: run_defs)
    moreover have "0 < n"
      using assms(1,2) True by (auto simp: run_inv_def input_inv_def reading_def unasked_def)
    ultimately show ?thesis using True ord
      by (intro lines_inv_def [THEN iffD2] exI [of _ "[l]"]) (auto simp: unasked_def promised_def offered_def)
  next
    case False
    with owner have "owner s \<in> {Notifying, Polling}" by blast
    with sk(1) ord show ?thesis
      by (intro lines_inv_def [THEN iffD2] exI [of _ skipped]) (auto simp: unasked_def promised_def offered_def)
  qed
qed

lemma run_inv_reader:
  assumes "run_inv lines n s" "reader_step s = Some t" "\<not> future_error s" "\<not> future_error t"
  shows "run_inv lines n t"
proof (cases "reader s = AtGetline")
  case True
  obtain l rest where g: "getline (stdin s) = (l, rest)" by fastforce
  have none: "m_promise s = None" and t: "t = s\<lparr>stdin := rest, reader := AtWhile, m_promise := Some l\<rparr>"
    using assms(2-4) by (auto simp: reader_step.simps [of s] True g set_value_def split: option.splits)
  have "input_inv t" if "n = 0"
    using reader_step_inv [OF assms(2)] assms(1) that by (auto simp: run_inv_def lines_inv_def)
  moreover have "owner_inv t" using assms(1) by (auto simp: run_defs t)
  ultimately show ?thesis using run_inv_reads [OF assms(1) True g none] by (simp add: run_inv_def t)
next
  case False
  note fields = reader_step_fields [OF assms(2) False]
  have "input_inv t" if "n = 0"
    using reader_step_inv [OF assms(2)] assms(1) that by (auto simp: run_inv_def lines_inv_def)
  moreover have "lines_inv lines n t"
    using fields assms(1) by (intro lines_inv_cong [of t s n n]) (simp_all add: run_inv_def)
  moreover have "owner_inv t" using assms(1) fields by (simp add: run_inv_def owner_inv_def)
  ultimately show ?thesis by (simp add: run_inv_def)
qed

lemma run_inv_owner:
  assumes "owner_step s t" "run_inv lines n s"
  shows "run_inv lines n t"
proof -
  have "input_inv t" if "n = 0"
    using owner_step_inv [OF assms(1)] assms(2) that by (auto simp: run_inv_def lines_inv_def)
  moreover from assms have "owner_inv t \<and> lines_inv lines n t"
    by (induction rule: owner_step.induct)
       (auto simp: run_defs notify_one_def split: option.splits if_splits)
  ultimately show ?thesis by (simp add: run_inv_def)
qed

lemma run_inv_spurious:
  assumes "spurious_step s t" "run_inv lines n s"
  shows "run_inv lines (Suc n) t"
proof -
  from assms(1) have t: "t = s\<lparr>reader := Woken\<rparr>" by (rule spurious_stepE) simp
  have "lines_inv lines (Suc n) t"
    using assms(2) by (intro lines_inv_cong [of t s n]) (simp_all add: t run_inv_def)
  with assms(2) show ?thesis by (simp add: t run_inv_def owner_inv_def)
qed

text \<open>In a program that was ended by a second \<open>set_value\<close> the lines received are still in order.\<close>

definition received_ok :: "string list \<Rightarrow> nat \<Rightarrow> input_handler \<Rightarrow> bool" where
  "received_ok lines n s \<longleftrightarrow> (\<exists>skipped later k. length skipped \<le> min 1 n \<and> skipped @ received s @ later = lines @ replicate k [])"

lemma run_inv_received: "run_inv lines n s \<Longrightarrow> received_ok lines n s"
  unfolding run_inv_def lines_inv_def in_order_def received_ok_def by (metis append.assoc)

lemma input_run_inv:
  "input_run (InputHandler_new lines) n s \<Longrightarrow> if future_error s then received_ok lines n s \<and> 0 < n else run_inv lines n s"
proof (induction rule: input_run.induct)
  case run_here
  have "in_order lines [] lines" unfolding in_order_def by (rule exI [of _ 0]) simp
  then show ?case by (simp add: run_defs input_inv_def InputHandler_new_def reading_def)
next
  case (run_moves n t u)
  then have inv: "run_inv lines n t" by simp
  from run_moves.hyps(3) show ?case
  proof cases
    case reader_moves
    show ?thesis
    proof (cases "future_error u")
      case True
      with reader_moves run_moves.hyps(2) have "reader t = AtGetline" using reader_step_fields [of t u] by blast
      then have "received u = received t"
        using reader_moves by (auto simp: reader_step.simps [of t] set_value_def split: prod.splits option.splits)
      with run_inv_received [OF inv] have "received_ok lines n u" by (simp add: received_ok_def)
      moreover have "input_inv u" if "n = 0"
        using reader_step_inv [OF reader_moves] inv that by (auto simp: run_inv_def lines_inv_def)
      then have "0 < n" using True by (cases n) (auto simp: input_inv_def)
      ultimately show ?thesis using True by simp
    next
      case False
      with run_inv_reader [OF inv reader_moves run_moves.hyps(2)] show ?thesis by simp
    qed
  next
    case owner_moves
    then have "future_error u = future_error t"
      by (auto elim!: owner_stepE simp: notify_one_def split: if_splits)
    with run_inv_owner [OF owner_moves inv] run_moves.hyps(2) show ?thesis by simp
  qed
next
  case (run_spurious n t u)
  then have "future_error u = future_error t" by (auto elim!: spurious_stepE)
  with run_spurious run_inv_spurious [of t u lines n] show ?case by simp
qed

section \<open>Requests and notifications\<close>

text \<open>A notification that finds the reader outside \<open>wait\<close> is lost: nothing will be promised.\<close>

definition lost :: "input_handler \<Rightarrow> bool" where
  "lost s \<longleftrightarrow> owner s = Polling \<and> m_promise s = None \<and> \<not> stop_requested s \<and>
     reader s \<in> {AtWhile, AtReady, AtWait, Blocked}"

lemma lost_step:
  assumes "input_step s t" "lost s"
  shows "lost t \<and> received t = received s"
  using assms(1)
proof cases
  case reader_moves
  from assms(2) have "reader s \<in> {AtWhile, AtReady, AtWait, Blocked}" "\<not> stop_requested s" by (simp_all add: lost_def)
  with reader_moves assms(2) show ?thesis by (auto simp: lost_def reader_step.simps [of s])
next
  case owner_moves
  have "owner s = Polling" "m_promise s = None" using assms(2) by (simp_all add: lost_def)
  with owner_moves show ?thesis by (auto elim: owner_stepE)
qed

lemma lost_steps: "input_steps s t \<Longrightarrow> lost s \<Longrightarrow> lost t \<and> received t = received s"
  by (induction rule: rtranclp_induct) (use lost_step in auto)

lemma lost_run: "input_run s n t \<Longrightarrow> n = 0 \<Longrightarrow> lost s \<Longrightarrow> lost t \<and> received t = received s"
  using input_run_steps lost_steps by blast

lemma notifying:
  assumes "run_inv lines n s" "owner s = Notifying" "t = (notify_one s)\<lparr>owner := Polling\<rparr>"
  shows "\<not> stop_requested s" "received t = received s" "m_promise t = m_promise s" "stdin t = stdin s"
    "\<not> stop_requested t" "owner t = Polling" "future_error t = future_error s"
    "reader t = (if reader s = Blocked then Woken else reader s)"
  using assms by (auto simp: run_inv_def owner_inv_def notify_one_def)

text \<open>A reader that was woken reads: its two next steps fill the promise.\<close>

lemma woken_steps:
  assumes "reader t = Woken" "\<not> stop_requested t" "m_promise t = None" "owner t = Polling" "\<not> future_error t"
    and "getline (stdin t) = (line, rest)"
  shows "(handler_step ^^ 2) t u \<longleftrightarrow> u = t\<lparr>reader := AtWhile, stdin := rest, m_promise := Some line\<rparr>"
proof -
  have step: "handler_step x y \<longleftrightarrow> reader_step x = Some y"
    if "owner x = Polling" "m_promise x = None" "\<not> future_error x" "reader x \<noteq> Blocked" for x y
  proof -
    have "\<not> owner_step x y" using that(1,2) by (auto elim: owner_stepE)
    moreover have "\<not> spurious_step x y" using that(4) by (auto elim: spurious_stepE)
    ultimately show ?thesis using that(3) by (simp add: handler_step_def input_step.simps)
  qed
  let ?t1 = "t\<lparr>reader := AtGetline\<rparr>" and ?t2 = "t\<lparr>reader := AtWhile, stdin := rest, m_promise := Some line\<rparr>"
  have "reader_step t = Some ?t1" using assms(1,2) by (simp add: reader_step.simps [of t])
  then have first: "handler_step t y \<longleftrightarrow> y = ?t1" for y
    using step [of t y] assms(1,3-5) by auto
  have "reader_step ?t1 = Some ?t2" using assms(3,6) by (simp add: reader_step.simps [of ?t1] set_value_def)
  then have second: "handler_step ?t1 y \<longleftrightarrow> y = ?t2" for y
    using step [of ?t1 y] assms(3-5) by auto
  show ?thesis unfolding numeral_2_eq_2 relpowp.simps OO_def by (metis first second)
qed

lemma receives:
  assumes "m_promise t = Some line" "owner t = Polling" "\<not> future_error t"
  shows "\<exists>u. input_run t 0 u \<and> received u = received t @ [line]"
  using run_moves [OF run_here assms(3) owner_moves [OF own_receive [OF assms(2,1)]]] by fastforce

lemma reads_and_receives:
  assumes "reader t \<in> {Woken, AtGetline}" "\<not> stop_requested t" "owner t = Polling" "\<not> future_error t"
  shows "\<exists>u line. input_run t 0 u \<and> received u = received t @ [line]"
proof (cases "m_promise t")
  case None
  obtain line rest where g: "getline (stdin t) = (line, rest)" by fastforce
  let ?t1 = "t\<lparr>reader := AtGetline\<rparr>" and ?t2 = "t\<lparr>stdin := rest, reader := AtWhile, m_promise := Some line\<rparr>"
  have "input_run t 0 ?t1"
  proof (cases "reader t = Woken")
    case True
    then have "input_step t ?t1" using assms(2) by (intro reader_moves) (simp add: reader_step.simps [of t])
    with assms(4) show ?thesis by (rule run_moves [OF run_here])
  next
    case False
    with assms(1) have "?t1 = t" by simp
    then show ?thesis using run_here [of t] by simp
  qed
  note run1 = this
  have step2: "input_step ?t1 ?t2"
    by (rule reader_moves) (simp add: reader_step.simps [of ?t1] g set_value_def None)
  have ok: "\<not> future_error ?t1" "\<not> future_error ?t2" using assms(4) by simp_all
  note run2 = run_moves [OF run1 ok(1) step2]
  have step3: "input_step ?t2 (?t2\<lparr>received := received ?t2 @ [line], owner := Received\<rparr>)"
    using assms(3) by (intro owner_moves own_receive) simp_all
  have "received (?t2\<lparr>received := received ?t2 @ [line], owner := Received\<rparr>) = received t @ [line]" by simp
  with run_moves [OF run2 ok(2) step3] show ?thesis by blast
next
  case (Some line)
  from receives [OF Some assms(3,4)] show ?thesis by blast
qed

text \<open>Runs of a schedule: \<open>True\<close> is a step of the reader, \<open>False\<close> one of the main thread, which stops after the first line.\<close>

definition owner_next :: "input_handler \<Rightarrow> input_handler option" where
  "owner_next s = (case owner s of
      Spinning \<Rightarrow> if m_ready s then Some (s\<lparr>owner := Asking\<rparr>) else None
    | Asking \<Rightarrow> Some (s\<lparr>m_promise := None, owner := Notifying\<rparr>)
    | Notifying \<Rightarrow> Some ((notify_one s)\<lparr>owner := Polling\<rparr>)
    | Polling \<Rightarrow> map_option (\<lambda>line. s\<lparr>received := received s @ [line], owner := Received\<rparr>) (m_promise s)
    | Received \<Rightarrow> Some (s\<lparr>stop_requested := True, owner := Stopping\<rparr>)
    | Stopping \<Rightarrow> Some ((notify_one s)\<lparr>owner := Joining\<rparr>)
    | Joining \<Rightarrow> if reader s = Ended then Some (s\<lparr>owner := Joined\<rparr>) else None
    | Joined \<Rightarrow> None)"

lemma owner_next_step: "owner_next s = Some t \<Longrightarrow> owner_step s t"
  by (cases "owner s") (auto simp: owner_next_def intro: owner_step.intros split: if_splits)

fun scheduled :: "bool list \<Rightarrow> input_handler \<Rightarrow> input_handler option" where
  "scheduled [] s = Some s"
| "scheduled (b # bs) s = (case if b then reader_step s else owner_next s of None \<Rightarrow> None | Some t \<Rightarrow> scheduled bs t)"

lemma scheduled_steps: "scheduled bs s = Some t \<Longrightarrow> input_steps s t"
proof (induction bs arbitrary: s)
  case (Cons b bs)
  then obtain u where "(if b then reader_step s else owner_next s) = Some u" "scheduled bs u = Some t"
    by (auto split: option.splits)
  with Cons.IH show ?case
    by (cases b) (auto intro: converse_rtranclp_into_rtranclp reader_moves owner_moves owner_next_step)
qed simp

lemma scheduled_error: "scheduled bs s = Some t \<Longrightarrow> future_error s \<Longrightarrow> future_error t"
proof (induction bs arbitrary: s)
  case (Cons b bs)
  then obtain u where u: "(if b then reader_step s else owner_next s) = Some u" "scheduled bs u = Some t"
    by (auto split: option.splits)
  have "future_error u"
  proof (cases b)
    case True
    with u(1) Cons.prems(2) show ?thesis
      by (cases "reader s") (auto simp: reader_step.simps [of s] set_value_def split: prod.splits option.splits)
  next
    case False
    with u(1) Cons.prems(2) show ?thesis
      by (cases "owner s") (auto simp: owner_next_def notify_one_def split: if_splits)
  qed
  with Cons.IH u(2) show ?case by blast
qed simp

lemma scheduled_run: "scheduled bs s = Some t \<Longrightarrow> input_run r n s \<Longrightarrow> \<not> future_error t \<Longrightarrow> input_run r n t"
proof (induction bs arbitrary: s)
  case (Cons b bs)
  then obtain u where u: "(if b then reader_step s else owner_next s) = Some u" "scheduled bs u = Some t"
    by (auto split: option.splits)
  have "\<not> future_error s" using scheduled_error [OF Cons.prems(1)] Cons.prems(3) by blast
  moreover have "input_step s u" using u(1) by (cases b) (auto intro: reader_moves owner_moves owner_next_step)
  ultimately have "input_run r n u" by (rule run_moves [OF Cons.prems(2)])
  with Cons.IH u(2) Cons.prems(3) show ?case by blast
qed simp

section \<open>Properties\<close>

text \<open>
  C28. Lines are handed over in order, each once.  In every state the two threads can reach, \<open>wait\<close>
  having returned \<open>n\<close> times without a notification, the lines the main thread has got are
  consecutive lines of the input (followed by the empty lines read behind its end), and unless the
  program was ended the one that waits for it and the rest of the input come after them.  With no
  such wake-up no line is skipped and no promise is set twice; with some, at most the first line is
  skipped, and a second \<open>set_value\<close> may end the program.
\<close>

theorem input_in_order:
  assumes "input_run (InputHandler_new lines) n s"
  shows "(future_error s \<longrightarrow> 0 < n) \<and>
    (\<exists>skipped later k. length skipped \<le> min 1 n \<and> skipped @ received s @ later = lines @ replicate k [] \<and>
      (\<not> future_error s \<longrightarrow> later = offered s @ stdin s))"
proof (cases "future_error s")
  case True
  with input_run_inv [OF assms] have "received_ok lines n s" "0 < n" by simp_all
  with True show ?thesis unfolding received_ok_def by blast
next
  case False
  with input_run_inv [OF assms] have "lines_inv lines n s" by (simp add: run_inv_def)
  then obtain skipped k where "length skipped \<le> min 1 n" "(skipped @ received s @ offered s) @ stdin s = lines @ replicate k []"
    by (auto simp: lines_inv_def in_order_def)
  then have "length skipped \<le> min 1 n \<and> skipped @ received s @ (offered s @ stdin s) = lines @ replicate k [] \<and>
      (\<not> future_error s \<longrightarrow> offered s @ stdin s = offered s @ stdin s)" by simp
  with False show ?thesis by blast
qed

text \<open>A run without a spurious wake-up; and one where it comes before the first request, so that a line is skipped.\<close>

theorem input_in_order_witness:
  "(\<exists>s. input_run (InputHandler_new [''fight'']) 0 s \<and> received s = [''fight''] \<and> stdin s = [] \<and> \<not> future_error s) \<and>
   (\<exists>s skipped. input_run (InputHandler_new [''fight'', ''rest'']) 1 s \<and> received s = [] \<and> stdin s = [''rest''] \<and>
     owner s = Notifying \<and> skipped @ received s @ stdin s = [''fight'', ''rest''])"
proof
  have "\<exists>s. scheduled [True, True, True, False, False, False, True, True, False] (InputHandler_new [''fight'']) = Some s \<and>
      received s = [''fight''] \<and> stdin s = []"
    by (simp add: InputHandler_new_def reader_step.simps owner_next_def notify_one_def getline_def set_value_def)
  then obtain s where s: "input_steps (InputHandler_new [''fight'']) s" "received s = [''fight'']" "stdin s = []"
    using scheduled_steps by blast
  from input_steps_run [OF s(1)] have run: "input_run (InputHandler_new [''fight'']) 0 s" .
  from input_in_order [OF run] s(2,3) run
  show "\<exists>s. input_run (InputHandler_new [''fight'']) 0 s \<and> received s = [''fight''] \<and> stdin s = [] \<and> \<not> future_error s" by blast
next
  let ?new = "InputHandler_new [''fight'', ''rest'']"
  define s where "s = ?new\<lparr>reader := Blocked, m_ready := True\<rparr>"
  have s: "scheduled [True, True, True] ?new = Some s" "reader s = Blocked" "\<not> future_error s"
    by (simp_all add: s_def InputHandler_new_def reader_step.simps)
  have then_s: "scheduled [True, True, False, False] (s\<lparr>reader := Woken\<rparr>) =
        Some (s\<lparr>reader := AtWhile, stdin := [''rest''], owner := Notifying\<rparr>)" "received s = []" "m_promise s = None"
    by (simp_all add: s_def InputHandler_new_def reader_step.simps owner_next_def getline_def set_value_def)
  have "input_run ?new 0 s" by (rule input_steps_run [OF scheduled_steps [OF s(1)]])
  from run_spurious [OF this s(3) spurious [OF s(2)]] have run: "input_run ?new 1 (s\<lparr>reader := Woken\<rparr>)" by simp
  let ?t = "s\<lparr>reader := AtWhile, stdin := [''rest''], owner := Notifying\<rparr>"
  have t: "input_run ?new 1 ?t" by (rule scheduled_run [OF then_s(1) run]) (simp_all add: s(3))
  from input_in_order [OF t] obtain skipped k where
    "length skipped \<le> 1" "skipped @ received ?t @ offered ?t @ stdin ?t = [''fight'', ''rest''] @ replicate k []"
    using s(3) by auto
  moreover have "offered ?t = []" using then_s(3) by (simp add: offered_def)
  ultimately have "skipped @ [''rest''] = [''fight'', ''rest''] @ replicate k []" "length skipped \<le> 1"
    using then_s(2) by simp_all
  then have "skipped = [''fight'']" by (cases skipped) auto
  with t then_s(2) show "\<exists>s skipped. input_run ?new 1 s \<and> received s = [] \<and> stdin s = [''rest''] \<and>
     owner s = Notifying \<and> skipped @ received s @ stdin s = [''fight'', ''rest'']" by fastforce
qed

text \<open>
  C29. When a request is served.  The notification of \<open>GetString\<close> finds the reader at some point.
  Unless \<open>wait\<close> returns once more without a notification, the main thread can get a line exactly
  when that point is inside \<open>wait\<close>, or when an earlier wake-up without a notification has already
  made the reader read; otherwise it polls forever, in every continuation.  Without such a wake-up
  so far it is only the first case; and then the next two steps, in every continuation, promise the
  next line of the input.
\<close>

theorem request_served_iff:
  assumes "input_run (InputHandler_new lines) n s" and "\<not> future_error s" and "owner s = Notifying"
    and "t = (notify_one s)\<lparr>owner := Polling\<rparr>"
  shows "((\<exists>u line. input_run t 0 u \<and> received u = received s @ [line]) \<longleftrightarrow>
      reader s = Blocked \<or> reader s \<in> {Woken, AtGetline} \<or> m_promise s \<noteq> None) \<and>
    ((\<exists>u line. input_run t 0 u \<and> received u = received s @ [line]) \<or>
      (\<forall>u. input_run t 0 u \<longrightarrow> owner u = Polling \<and> m_promise u = None)) \<and>
    (n = 0 \<longrightarrow> reader s \<notin> {Woken, AtGetline} \<and> m_promise s = None) \<and>
    (reader s = Blocked \<and> m_promise s = None \<longrightarrow> (\<exists>u. (handler_step ^^ 2) t u) \<and>
      (\<forall>u. (handler_step ^^ 2) t u \<longrightarrow> owner u = Polling \<and> m_promise u = Some (fst (getline (stdin s)))))"
proof -
  have inv: "run_inv lines n s" using input_run_inv [OF assms(1)] assms(2) by simp
  note t = notifying [OF inv assms(3,4)]
  let ?served = "\<exists>u line. input_run t 0 u \<and> received u = received s @ [line]"
  have zero: "reader s \<notin> {Woken, AtGetline} \<and> m_promise s = None" if "n = 0"
    using inv that assms(3) t(1) by (auto simp: run_inv_def input_inv_def reading_def)
  have "reader s \<noteq> Ended" using inv t(1) by (auto simp: run_inv_def owner_inv_def)
  then consider "m_promise s = None" "reader s = Blocked" | "m_promise s = None" "reader s \<in> {Woken, AtGetline}"
    | "m_promise s \<noteq> None" | "m_promise s = None" "reader s \<in> {AtWhile, AtReady, AtWait}" by (cases "reader s") auto
  then show ?thesis
  proof cases
    case 1
    have served: ?served using reads_and_receives [of t] t assms(2) 1 by simp
    obtain line rest where g: "getline (stdin s) = (line, rest)" by fastforce
    have "(handler_step ^^ 2) t u \<longleftrightarrow> u = t\<lparr>reader := AtWhile, stdin := rest, m_promise := Some line\<rparr>" for u
      by (rule woken_steps) (use t 1 assms(2) g in simp_all)
    with served zero 1 t(6) g show ?thesis by simp
  next
    case 2
    have ?served using reads_and_receives [of t] t assms(2) 2 by auto
    with zero 2 show ?thesis by auto
  next
    case 3
    then obtain line where "m_promise t = Some line" using t(3) by auto
    from receives [OF this t(6)] t(2,7) assms(2) have ?served by auto
    with zero 3 show ?thesis by auto
  next
    case 4
    then have "lost t" using t assms(2) by (auto simp: lost_def)
    then have lost: "lost u" "received u = received s" if "input_run t 0 u" for u using lost_run [OF that] t(2) by simp_all
    have "owner u = Polling \<and> m_promise u = None" if "input_run t 0 u" for u
      using lost(1) [OF that] by (simp add: lost_def)
    moreover have "\<not> ?served" using lost(2) by fastforce
    ultimately show ?thesis using zero 4 by auto
  qed
qed

text \<open>A notification that comes too early, and one in time.\<close>

theorem request_served_iff_witness:
  "(\<exists>s. input_run (InputHandler_new [''fight'']) 0 s \<and> owner s = Notifying \<and> reader s = AtWait \<and>
     (\<forall>u. input_run ((notify_one s)\<lparr>owner := Polling\<rparr>) 0 u \<longrightarrow> m_promise u = None)) \<and>
   (\<exists>s. input_run (InputHandler_new [''fight'']) 0 s \<and> owner s = Notifying \<and> reader s = Blocked \<and>
     (\<forall>u. (handler_step ^^ 2) ((notify_one s)\<lparr>owner := Polling\<rparr>) u \<longrightarrow> m_promise u = Some ''fight''))"
proof
  have "\<exists>s. scheduled [True, True, False, False] (InputHandler_new [''fight'']) = Some s \<and> owner s = Notifying \<and>
      reader s = AtWait \<and> \<not> future_error s"
    by (simp add: InputHandler_new_def reader_step.simps owner_next_def)
  then obtain s where s: "input_run (InputHandler_new [''fight'']) 0 s" "owner s = Notifying" "reader s = AtWait" "\<not> future_error s"
    using scheduled_steps input_steps_run by blast
  from request_served_iff [OF s(1,4,2) refl] s
  show "\<exists>s. input_run (InputHandler_new [''fight'']) 0 s \<and> owner s = Notifying \<and> reader s = AtWait \<and>
     (\<forall>u. input_run ((notify_one s)\<lparr>owner := Polling\<rparr>) 0 u \<longrightarrow> m_promise u = None)" by auto
next
  have "\<exists>s. scheduled [True, True, True, False, False] (InputHandler_new [''fight'']) = Some s \<and> owner s = Notifying \<and>
      reader s = Blocked \<and> \<not> future_error s \<and> stdin s = [''fight'']"
    by (simp add: InputHandler_new_def reader_step.simps owner_next_def)
  then obtain s where s: "input_run (InputHandler_new [''fight'']) 0 s" "owner s = Notifying" "reader s = Blocked" "\<not> future_error s"
    and "stdin s = [''fight'']"
    using scheduled_steps input_steps_run by blast
  then have "fst (getline (stdin s)) = ''fight''" by (simp add: getline_def)
  with request_served_iff [OF s(1,4,2) refl] s
  show "\<exists>s. input_run (InputHandler_new [''fight'']) 0 s \<and> owner s = Notifying \<and> reader s = Blocked \<and>
     (\<forall>u. (handler_step ^^ 2) ((notify_one s)\<lparr>owner := Polling\<rparr>) u \<longrightarrow> m_promise u = Some ''fight'')" by auto
qed

text \<open>
  C39. The handler can hang.  A game can reach a state from which no thread moves, in the first
  request, whose notification came before the reader waited, and on exit, where the destructor
  joins a reader that it notified before it waited.  Only a wake-up without a notification, which
  nothing promises, could end either.
\<close>

theorem input_handler_hangs:
  "(\<exists>s. input_steps (InputHandler_new lines) s \<and> owner s = Polling \<and> received s = [] \<and> (\<forall>t. \<not> input_step s t)) \<and>
   (\<exists>s. input_steps (InputHandler_new lines) s \<and> owner s = Joining \<and> (\<forall>t. \<not> input_step s t))"
proof
  have stuck: "\<not> input_step s t" if "reader s = Blocked" "owner s = Joining \<or> owner s = Polling \<and> m_promise s = None" for s t
    using that by (auto elim!: input_stepE owner_stepE simp: reader_step.simps [of s])
  have "\<exists>s. scheduled [True, True, False, False, False, True] (InputHandler_new lines) = Some s \<and>
      reader s = Blocked \<and> owner s = Polling \<and> m_promise s = None \<and> received s = []"
    by (simp add: InputHandler_new_def reader_step.simps owner_next_def notify_one_def)
  with scheduled_steps stuck
  show "\<exists>s. input_steps (InputHandler_new lines) s \<and> owner s = Polling \<and> received s = [] \<and> (\<forall>t. \<not> input_step s t)" by blast
  obtain l rest where g: "getline lines = (l, rest)" by fastforce
  have "\<exists>s. scheduled [True, True, True, False, False, False, True, True, True, True, False, False, False, True]
      (InputHandler_new lines) = Some s \<and> reader s = Blocked \<and> owner s = Joining"
    by (simp add: InputHandler_new_def reader_step.simps owner_next_def notify_one_def g set_value_def)
  with scheduled_steps stuck
  show "\<exists>s. input_steps (InputHandler_new lines) s \<and> owner s = Joining \<and> (\<forall>t. \<not> input_step s t)" by blast
qed

text \<open>
  A spurious wake-up.  If \<open>wait\<close> returns without a notification and the game goes on, the
  reader takes the next line of the input although nobody asked for one; when a line is promised
  already, setting the promise again throws \<open>future_error\<close> in the reading thread.
\<close>

theorem spurious_wakeup:
  assumes "input_steps (InputHandler_new lines) s" and "\<not> stop_requested s" and "spurious_step s t"
  shows "\<exists>u. Option.bind (reader_step t) reader_step = Some u \<and> stdin u = tl (stdin s) \<and>
     (future_error u \<longleftrightarrow> m_promise s \<noteq> None)"
proof -
  from assms(3) have t: "t = s\<lparr>reader := Woken\<rparr>" by (auto elim: spurious_stepE)
  have "\<not> future_error s" using input_steps_inv [OF assms(1)] by (simp add: input_inv_def)
  with assms(2) show ?thesis
    by (auto simp: t reader_step.simps getline_def set_value_def split: list.split option.split)
qed

theorem spurious_wakeup_witness:
  "\<exists>s t u. input_steps (InputHandler_new [''fight'', ''rest'']) s \<and> spurious_step s t \<and>
     Option.bind (reader_step t) reader_step = Some u \<and> future_error u"
proof -
  have "\<exists>s. scheduled [True, True, True, False, False, False, True, True, True, True, True]
      (InputHandler_new [''fight'', ''rest'']) = Some s \<and> reader s = Blocked \<and> \<not> stop_requested s \<and> m_promise s \<noteq> None"
    by (simp add: InputHandler_new_def reader_step.simps owner_next_def notify_one_def getline_def set_value_def)
  then obtain s where s: "input_steps (InputHandler_new [''fight'', ''rest'']) s" "reader s = Blocked"
    "\<not> stop_requested s" "m_promise s \<noteq> None" using scheduled_steps by blast
  from spurious_wakeup [OF s(1,3) spurious [OF s(2)]] s spurious [OF s(2)] show ?thesis by blast
qed

end
