(* ===== verification/Spec2Isabelle.thy ===== *)
theory Spec2Isabelle
  imports GameExecutor TickRace RoundRobin Status Expected Logs AsyncTypes CrossTask Coroutine Client Server
    VariableService RemoteCalls CharacterService EchoClient EchoStreams EchoService EchoBidi
    Subroutine AsyncSteps BidiMachine ServerProgram ServerJobs ServerDrain RemoteMachine StreamSession
    EchoSession Game InputHandler
begin

text \<open>
  A verification library for async_sandbox: a small C++20 library of coroutine tasks, a binding of
  it to gRPC's completion queues, and the programs written with both.

  \<^bold>\<open>The program and its model.\<close>

  \<^item> \<^verbatim>\<open>async_lib/async_lib.hpp\<close> (tasks, \<open>Resume\<close>, \<open>Spawn\<close>, \<open>StartSubroutine\<close>, \<open>SpawnCrossTask\<close>):
    \<open>AsyncLib\<close> is an interpreter over a heap of coroutine frames, one HOL function per C++ function,
    tied together by a fuel argument; the body of a coroutine is a program of points, each with
    an action (ordinary code, \<open>co_await\<close> of a task or an operation, \<open>co_return\<close>, spawning).
    \<open>AsyncFuel\<close> shows that more fuel never changes an outcome, \<open>AsyncCalls\<close> that jobs behave like
    ordinary calls (a call-stack semantics \<open>eval\<close> and \<open>conversation\<close>), \<open>Coroutine\<close> that
    \<open>co_await\<close> of a task is sequential composition, so that straight-line coroutines can be
    written as trees.  \<open>Subroutine\<close> is about \<open>StartSubroutine\<close>, a task that runs beside its parent
    and is joined later; \<open>AsyncSteps\<close> has one rule per action, for coroutines that share state and
    are no calls on one stack.  \<open>AsyncTypes\<close> has the well-formedness of worlds that every function keeps,
    \<open>CrossTask\<close> the way of a result from one executor to another (\<open>SpawnCrossTask\<close>), which \<open>Game\<close>
    uses as one step, and of an exception.
  \<^item> \<^verbatim>\<open>game/async_game.cpp\<close> (the frame based executor): \<open>GameExecutor\<close>, on the machine and under
    concurrent calls of \<open>MarkReady\<close>.
  \<^item> \<^verbatim>\<open>async_grpc/async_grpc/async_grpc.hpp\<close> and \<^verbatim>\<open>.cpp\<close> (completion queue executor, alarm,
    awaitable): \<open>CompletionQueue\<close>; the races on one job of the threads of its queue and of the thread
    that spawns it: \<open>TickRace\<close>.
  \<^item> \<^verbatim>\<open>client.hpp\<close> and \<^verbatim>\<open>client.cpp\<close>: \<open>Client\<close> (channels, calls, retries); \<^verbatim>\<open>server.hpp\<close> and
    \<^verbatim>\<open>server.cpp\<close>: \<open>Server\<close> (executors, listening loops, call contexts); both choose by the
    locale of \<open>RoundRobin\<close>.  \<^verbatim>\<open>iostream.cpp\<close>: \<open>Status\<close>.
  \<^item> \<^verbatim>\<open>async_grpc/server/variable_service_impl.cpp\<close>: \<open>VariableService\<close>, handlers of the server
    program; \<open>RemoteCalls\<close> puts the client's retries and the service behind a network that loses
    messages.  \<^verbatim>\<open>echo_service_impl.cpp\<close>: \<open>EchoService\<close> (unary and one-way streams, on the server
    program), \<open>EchoBidi\<close> (the bidirectional stream, as a machine of two routines that share their
    locals) and \<open>BidiMachine\<close> (its two coroutines, and that they refine that machine).
    \<^verbatim>\<open>server/main.cpp\<close>: \<open>ServerProgram\<close>, one server with both services, from its start to the end
    of its destructor; \<open>ServerJobs\<close>, the same server with calls in flight, under any arrivals and
    completions, against a specification; \<open>ServerDrain\<close>, its shutdown while handlers still run.
  \<^item> \<^verbatim>\<open>async_grpc/client/main.cpp\<close>: \<open>EchoClient\<close> and, for the commands that loop over a stream,
    \<open>EchoStreams\<close>; \<open>EchoSession\<close> puts its bidirectional command against the handler of the server,
    \<open>StreamSession\<close> its two one-way streams against the server program.
  \<^item> \<^verbatim>\<open>game/character_service*.cpp\<close>: \<open>CharacterService\<close>, the service in memory and the remote one
    under one contract; \<open>RemoteMachine\<close>, client and server program put together, up to the
    character that the game keeps on the server; \<^verbatim>\<open>game/main.cpp\<close>: \<open>Game\<close> (character, frame, \<open>main\<close>)
    and \<open>InputHandler\<close> (the thread that reads the input, with the wake-ups from \<open>wait\<close> that no
    notification caused).  The replies of the remote service reach the loop of \<open>main\<close> between its
    frames (\<open>game_loop\<close>) and the steps of a game between the parts of a frame (\<open>game_step\<close>).
  \<^item> \<^verbatim>\<open>utils/expected.hpp\<close>: \<open>Expected\<close>; \<^verbatim>\<open>utils/logs.cpp\<close>: \<open>Logs\<close>.

  \<^bold>\<open>What is shown.\<close>  Refinement: the machine against the call stack and the trees, the executor
  against a FIFO queue, the variable service against a sequential map, the bidirectional
  handler against its two routines, the server program with its calls in flight against a
  specification, which any client may then use in its place, the remote character service, on the
  server program, against the one in memory; a subroutine against a call that is started early.  Invariants and safety: FIFO order under concurrency, one
  thread per queue never misuses a handle of a job spawned on it, at-most-once effects of retried calls, one \<open>Finish\<close> per
  call at its end, no refused request in a session of the echo client with the server, one
  initialisation of the character, input lines in order.  Bounds, types and
  round trips: the number of attempts of a retried call, the balance of the round robin, gifts
  per second, the time of two frames, the largest count of a server stream, printed statuses,
  well-formed heaps of coroutines.  Errors and liveness: what goes wrong where the code lets it, each as a theorem, among them the
  handle used after its destruction when two threads share a queue or a job is spawned from outside, results, exceptions and
  notifications that are lost, spurious wake-ups of the input thread, stop commands that are not
  heard, assertions that fail.

  \<^bold>\<open>Bounds and fuel.\<close>  \<open>exec_call P n\<close> spends one unit of fuel per nested call of the library;
  theorems about jobs say that all larger budgets give the same world, so a budget is never a
  hypothesis on the program.  \<open>Update\<close> takes one unit per batch.  \<open>Server_start\<close> needs eight units, for
  the depth of the calls of a listening loop; \<open>PreUpdate\<close> two, since the character's jobs spawn
  nothing.  64 bit signed addition is checked (overflow is undefined in C++), counters are words.

  \<^bold>\<open>Interfaces.\<close>  \<open>ready_queue\<close> (resuming a job may only append to the queue; on the machine and on
  the game's jobs), \<open>round_robin\<close> (channels, executors), \<open>variable_store\<close> (the storage behind
  calls), \<open>simulated_calls\<close> (a service that answers as its specification does when its budget is
  large enough; on the server program), \<open>character_state\<close> and \<open>character_service\<close> (the documented
  contract of the service; the remote one only keeps the first).

  \<^bold>\<open>Parameters.\<close>  gRPC and protobuf are not part of the repository: completion queues, channels,
  stubs and contexts appear as the operations submitted to them and their completions, the
  printed form of a message, the clock and the numbers of status codes as functions.

  \<^bold>\<open>Not modelled.\<close>  Templates and concepts as such (each instance is modelled where it is used), the
  registration of services and addresses with gRPC's builder, the key \<^verbatim>\<open>server/main.cpp\<close> waits for
  and the time of the deadline of its shutdown (which operations fail there, and in which order, is
  arbitrary; joining the threads of a queue ends exactly when no operation is pending on it, \<open>queue_pending\<close>);
  calls of the bidirectional method in \<open>ServerJobs\<close> and \<open>ServerDrain\<close>, whose handler is two coroutines
  (\<open>BidiMachine\<close> has it on its own server; a history with such a call has no step in the specification of \<open>ServerJobs\<close>); build files and generated code; data races on the bytes of locals that two threads of one executor share.
\<close>

end
